(* ===== verification/Go_Prelude.thy ===== *)
theory Go_Prelude
  imports Main "HOL-Library.AList" "HOL-Library.Word" "HOL-Library.Multiset"
    "HOL-Library.List_Lexorder" "HOL-Library.Char_ord"
begin

section \<open>Go data in HOL\<close>

text \<open>
  What every component shares: the representation of Go's maps, machine integers and error
  results, and the lemmas on association lists that the component proofs rest on.

  A Go map is an association list with distinct keys (\<open>keys_ok\<close>). The order of the list is
  the order in which \<^verbatim>\<open>range\<close> visits the entries. Go leaves that order open, so no property
  fixes it: each one is proved for every list, hence for every order. Two lists stand for the
  same Go map when they agree under \<^const>\<open>map_of\<close>.
\<close>

named_theorems gomap_simps \<open>lookups after an update of a Go map\<close>
named_theorems gomap_ok \<open>operations keep the keys of a Go map distinct\<close>

type_synonym ('k, 'v) gomap = "('k \<times> 'v) list"
type_synonym u64 = "64 word"
type_synonym u32 = "32 word"

abbreviation max_u64 :: u64 where
  "max_u64 \<equiv> - 1"

definition keys_ok :: "('k, 'v) gomap \<Rightarrow> bool" where
  "keys_ok m \<longleftrightarrow> distinct (map fst m)"

text \<open>\<^verbatim>\<open>m[k] = v\<close>, \<^verbatim>\<open>delete(m, k)\<close> and \<^verbatim>\<open>maps.Copy(dst, src)\<close>.\<close>

abbreviation gset :: "'k \<Rightarrow> 'v \<Rightarrow> ('k, 'v) gomap \<Rightarrow> ('k, 'v) gomap" where
  "gset \<equiv> AList.update"

abbreviation gdel :: "'k \<Rightarrow> ('k, 'v) gomap \<Rightarrow> ('k, 'v) gomap" where
  "gdel \<equiv> AList.delete"

definition gcopy :: "('k, 'v) gomap \<Rightarrow> ('k, 'v) gomap \<Rightarrow> ('k, 'v) gomap" where
  "gcopy dst src = foldr (\<lambda>(k, v) m. gset k v m) src dst"

text \<open>Reading a missing key of a map of numbers or slices gives the zero value.\<close>

definition gget0 :: "('k, 'v::zero) gomap \<Rightarrow> 'k \<Rightarrow> 'v" where
  "gget0 m k = (case map_of m k of None \<Rightarrow> 0 | Some v \<Rightarrow> v)"

definition ggetl :: "('k, 'v list) gomap \<Rightarrow> 'k \<Rightarrow> 'v list" where
  "ggetl m k = (case map_of m k of None \<Rightarrow> [] | Some v \<Rightarrow> v)"

subsection \<open>Lookups\<close>

lemma map_of_gset [gomap_simps, simp]: "map_of (gset k v m) = (map_of m)(k \<mapsto> v)"
  by (simp add: update_conv' fun_eq_iff)

lemma map_of_gdel [gomap_simps, simp]: "map_of (gdel k m) = (map_of m)(k := None)"
  by (simp add: delete_conv')

lemma keys_gset: "fst ` set (gset k v m) = insert k (fst ` set m)"
  by (metis dom_map_of_conv_image_fst dom_fun_upd map_of_gset option.discI)

lemma keys_gdel: "fst ` set (gdel k m) = fst ` set m - {k}"
  by (metis dom_map_of_conv_image_fst dom_fun_upd map_of_gdel)

lemma map_of_gcopy [gomap_simps, simp]: "map_of (gcopy dst src) = map_of dst ++ map_of src"
  by (induction src) (auto simp: gcopy_def fun_eq_iff map_add_def)

lemma gget0_empty [simp]: "gget0 [] k = 0"
  by (simp add: gget0_def)

lemma gget0_Cons: "gget0 ((k, v) # m) n = (if n = k then v else gget0 m n)"
  by (simp add: gget0_def)

lemma gget0_None: "map_of m k = None \<Longrightarrow> gget0 m k = 0"
  by (simp add: gget0_def)

lemma gget0_gset [gomap_simps]: "gget0 (gset k v m) k' = (if k' = k then v else gget0 m k')"
  by (simp add: gget0_def)

lemma gget0_gcopy_Nil [simp]: "gget0 (gcopy [] m) = gget0 m"
  by (simp add: gget0_def fun_eq_iff)

lemma ggetl_empty [simp]: "ggetl [] k = []"
  by (simp add: ggetl_def)

lemma ggetl_gset [gomap_simps]: "ggetl (gset k v m) k' = (if k' = k then v else ggetl m k')"
  by (simp add: ggetl_def)

lemma ggetl_gdel [gomap_simps]: "ggetl (gdel k m) k' = (if k' = k then [] else ggetl m k')"
  by (simp add: ggetl_def)

lemma ggetl_gcopy_Nil [simp]: "ggetl (gcopy [] m) = ggetl m"
  by (simp add: ggetl_def fun_eq_iff)

subsection \<open>Distinct keys\<close>

lemma keys_ok_Nil [simp, gomap_ok]: "keys_ok []"
  by (simp add: keys_ok_def)

lemma keys_ok_Cons [simp]: "keys_ok ((k, v) # m) \<longleftrightarrow> map_of m k = None \<and> keys_ok m"
  by (simp add: keys_ok_def map_of_eq_None_iff)

lemma keys_ok_gset [simp, gomap_ok]: "keys_ok m \<Longrightarrow> keys_ok (gset k v m)"
  by (simp add: keys_ok_def distinct_update)

lemma keys_ok_gdel [simp, gomap_ok]: "keys_ok m \<Longrightarrow> keys_ok (gdel k m)"
  by (simp add: keys_ok_def distinct_delete)

lemma keys_ok_gcopy [simp, gomap_ok]: "keys_ok m \<Longrightarrow> keys_ok (gcopy m src)"
  by (induction src) (auto simp: gcopy_def)

lemma keys_ok_map_snd [simp]: "keys_ok (map (\<lambda>(k, v). (k, f k v)) m) = keys_ok m"
  by (simp add: keys_ok_def comp_def case_prod_beta')

lemma map_of_map_snd: "map_of (map (\<lambda>(k, v). (k, f k v)) m) k = map_option (f k) (map_of m k)"
  by (induction m) auto

lemma keys_ok_filter [simp, gomap_ok]: "keys_ok m \<Longrightarrow> keys_ok (filter P m)"
  by (auto simp: keys_ok_def distinct_map_filter)

lemma keys_ok_map_of: "keys_ok m \<Longrightarrow> (k, v) \<in> set m \<longleftrightarrow> map_of m k = Some v"
  by (auto simp: keys_ok_def dest: map_of_SomeD)

lemma map_of_filter_keys_ok:
  "keys_ok m \<Longrightarrow> map_of (filter P m) k =
     (case map_of m k of None \<Rightarrow> None | Some v \<Rightarrow> if P (k, v) then Some v else None)"
  by (induction m) (auto split: option.splits)

subsection \<open>Unsigned counters\<close>

lemma max_u64_simps [simp]: "0 < max_u64" "1 < max_u64" "2 < max_u64"
  by (simp_all add: word_less_def unsigned_minus_1_eq_mask mask_eq_exp_minus_1)

lemma u64_less_Suc:
  fixes c :: u64
  assumes "c < max_u64"
  shows "c < c + 1"
  using assms by uint_arith

subsection \<open>Loops over slices\<close>

text \<open>
  A loop with an early \<^verbatim>\<open>return nil, err\<close> over a slice: the results collected so far, or the
  first error.
\<close>

fun traverse :: "('a \<Rightarrow> 'err + 'b) \<Rightarrow> 'a list \<Rightarrow> 'err + 'b list" where
  "traverse f [] = Inr []"
| "traverse f (x # xs) =
     (case f x of Inl e \<Rightarrow> Inl e
      | Inr y \<Rightarrow> (case traverse f xs of Inl e \<Rightarrow> Inl e | Inr ys \<Rightarrow> Inr (y # ys)))"

lemma traverse_Inr: "traverse f xs = Inr ys \<longleftrightarrow> list_all2 (\<lambda>x y. f x = Inr y) xs ys"
proof (induction xs arbitrary: ys)
  case (Cons x xs)
  show ?case
    by (cases ys) (auto split: sum.splits simp: Cons.IH [symmetric])
qed auto

lemma traverse_total: "(\<And>x. x \<in> set xs \<Longrightarrow> f x = Inr (g x)) \<Longrightarrow> traverse f xs = Inr (map g xs)"
  by (induction xs) auto

lemma traverse_Inl: "traverse f xs = Inl e \<Longrightarrow> \<exists>x \<in> set xs. f x = Inl e"
  by (induction xs) (auto split: sum.splits)

lemma traverse_cong [fundef_cong]:
  "xs = ys \<Longrightarrow> (\<And>x. x \<in> set ys \<Longrightarrow> f x = g x) \<Longrightarrow> traverse f xs = traverse g ys"
proof (induction ys arbitrary: xs)
  case (Cons y ys)
  then have "traverse f ys = traverse g ys" by simp
  with Cons.prems show ?case by (simp split: sum.split)
qed simp

end
