(* ===== verification/Crdt_Spec.thy ===== *)
theory Crdt_Spec
  imports Go_Prelude
begin

section \<open>The contract of a replicated data type\<close>

text \<open>
  The interface \<^verbatim>\<open>ReplicatedData\<close> of \<^verbatim>\<open>src/crdt/crdt.go\<close> asks of \<^verbatim>\<open>Merge\<close> that it is
  commutative, associative and idempotent. The locale below states that contract up to an
  abstraction \<open>abs\<close> of the stored state (the order of a Go map and the bookkeeping for deltas
  are not observable) and proves once what the contract is for: replicas that have received
  the same states, in any order and with any repetition, agree.

  The second half is the abstract object behind the observed-remove types: a set of tagged
  causal dots together with a vector clock.
\<close>

locale replicated_data =
  fixes ok :: "'s \<Rightarrow> bool"
    and abs :: "'s \<Rightarrow> 'a"
    and merge :: "'s \<Rightarrow> 's \<Rightarrow> 's"
  assumes ok_merge: "ok a \<Longrightarrow> ok b \<Longrightarrow> ok (merge a b)"
    and merge_cong: "ok a \<Longrightarrow> ok b \<Longrightarrow> ok a' \<Longrightarrow> ok b' \<Longrightarrow> abs a = abs a' \<Longrightarrow> abs b = abs b'
      \<Longrightarrow> abs (merge a b) = abs (merge a' b')"
    and merge_commute: "ok a \<Longrightarrow> ok b \<Longrightarrow> abs (merge a b) = abs (merge b a)"
    and merge_assoc: "ok a \<Longrightarrow> ok b \<Longrightarrow> ok c
      \<Longrightarrow> abs (merge (merge a b) c) = abs (merge a (merge b c))"
    and merge_idem: "ok a \<Longrightarrow> abs (merge a a) = abs a"
begin

text \<open>\<open>b\<close> has seen \<open>a\<close> when merging \<open>a\<close> into \<open>b\<close> changes nothing observable.\<close>

definition seen :: "'s \<Rightarrow> 's \<Rightarrow> bool" where
  "seen a b \<longleftrightarrow> abs (merge b a) = abs b"

lemma ok_foldl: "ok a \<Longrightarrow> \<forall>x \<in> set xs. ok x \<Longrightarrow> ok (foldl merge a xs)"
  by (induction xs arbitrary: a) (auto simp: ok_merge)

lemma seen_refl: "ok a \<Longrightarrow> seen a a"
  by (simp add: seen_def merge_idem)

lemma seen_antisym: "ok a \<Longrightarrow> ok b \<Longrightarrow> seen a b \<Longrightarrow> seen b a \<Longrightarrow> abs a = abs b"
  using merge_commute [of a b] by (simp add: seen_def)

lemma seen_mergeL: "ok a \<Longrightarrow> ok b \<Longrightarrow> seen a (merge a b)"
proof -
  assume a: "ok a" and b: "ok b"
  have "abs (merge (merge a b) a) = abs (merge a (merge a b))"
    using a b by (simp add: merge_commute ok_merge)
  also have "\<dots> = abs (merge (merge a a) b)"
    using a b by (simp add: merge_assoc)
  also have "\<dots> = abs (merge a b)"
    using a b by (intro merge_cong) (auto simp: ok_merge merge_idem)
  finally show ?thesis by (simp add: seen_def)
qed

lemma seen_mergeR: "ok a \<Longrightarrow> ok b \<Longrightarrow> seen b (merge a b)"
  by (metis merge_assoc merge_cong merge_idem ok_merge seen_def)

lemma seen_merge_mono: "ok a \<Longrightarrow> ok b \<Longrightarrow> ok x \<Longrightarrow> seen x a \<Longrightarrow> seen x (merge a b)"
proof -
  assume ok: "ok a" "ok b" "ok x" and s: "seen x a"
  have "abs (merge (merge a b) x) = abs (merge (merge a x) b)"
    using ok by (metis merge_assoc merge_commute merge_cong ok_merge)
  also have "\<dots> = abs (merge a b)"
    using ok s by (intro merge_cong) (auto simp: ok_merge seen_def)
  finally show ?thesis by (simp add: seen_def)
qed

lemma seen_merge_least:
  assumes ok: "ok a" "ok b" "ok c" and s: "seen a c" "seen b c"
  shows "seen (merge a b) c"
proof -
  have "abs (merge c (merge a b)) = abs (merge (merge c a) b)"
    using ok by (simp add: merge_assoc)
  also have "\<dots> = abs (merge c b)"
    using ok s by (intro merge_cong) (auto simp: ok_merge seen_def)
  finally show ?thesis using s by (simp add: seen_def)
qed

lemma seen_foldl_mono:
  "ok a \<Longrightarrow> \<forall>x \<in> set xs. ok x \<Longrightarrow> ok z \<Longrightarrow> seen z a \<Longrightarrow> seen z (foldl merge a xs)"
  by (induction xs arbitrary: a) (auto simp: ok_merge seen_merge_mono)

lemma seen_foldl:
  "ok a \<Longrightarrow> \<forall>x \<in> set xs. ok x \<Longrightarrow> y \<in> insert a (set xs) \<Longrightarrow> seen y (foldl merge a xs)"
proof (induction xs arbitrary: a)
  case (Cons x xs)
  from Cons.prems consider "y = a" | "y = x" | "y \<in> set xs" by auto
  then show ?case
    by cases (use Cons in \<open>auto simp: ok_merge seen_mergeL seen_mergeR intro: seen_foldl_mono\<close>)
qed (simp add: seen_refl)

lemma foldl_least:
  "ok a \<Longrightarrow> \<forall>x \<in> set xs. ok x \<Longrightarrow> ok c \<Longrightarrow> \<forall>y \<in> insert a (set xs). seen y c
    \<Longrightarrow> seen (foldl merge a xs) c"
  by (induction xs arbitrary: a) (auto simp: ok_merge seen_merge_least)

text \<open>Strong eventual convergence: the received states determine the observable result.\<close>

theorem convergence:
  assumes "ok a" "ok b" "\<forall>x \<in> set xs. ok x" "\<forall>y \<in> set ys. ok y"
    and "insert a (set xs) = insert b (set ys)"
  shows "abs (foldl merge a xs) = abs (foldl merge b ys)"
proof (rule seen_antisym)
  show "seen (foldl merge a xs) (foldl merge b ys)"
    using assms by (intro foldl_least ok_foldl ballI seen_foldl) auto
  show "seen (foldl merge b ys) (foldl merge a xs)"
    using assms by (intro foldl_least ok_foldl ballI seen_foldl) auto
qed (use assms in \<open>auto intro: ok_foldl\<close>)

end

subsection \<open>Causal dots and vector clocks\<close>

text \<open>
  A dot is a pair of a node and the value its counter had when the event happened. A clock
  says how far a replica has seen each node, so it covers every dot at or below its counter.
\<close>

type_synonym vclock = "string \<Rightarrow> u64"

record dot =
  nodeID :: string
  counter :: u64

definition covers :: "vclock \<Rightarrow> dot \<Rightarrow> bool" where
  "covers c d \<longleftrightarrow> counter d \<le> c (nodeID d)"

definition clock_join :: "vclock \<Rightarrow> vclock \<Rightarrow> vclock" where
  "clock_join c1 c2 = (\<lambda>n. max (c1 n) (c2 n))"

text \<open>A tagged dot store: the live pairs of a tag and a dot, and the clock.\<close>

type_synonym 'x store = "('x \<times> dot) set \<times> vclock"

definition store_ok :: "'x store \<Rightarrow> bool" where
  "store_ok s \<longleftrightarrow> (\<forall>(x, d) \<in> fst s. covers (snd s) d)"

text \<open>
  A pair survives when the other side has it too, or has never heard of its dot: a pair the
  other side covers but no longer holds was removed there.
\<close>

definition store_join :: "'x store \<Rightarrow> 'x store \<Rightarrow> 'x store" where
  "store_join s t =
     ({p \<in> fst s. p \<in> fst t \<or> \<not> covers (snd t) (snd p)} \<union>
      {p \<in> fst t. p \<in> fst s \<or> \<not> covers (snd s) (snd p)},
      clock_join (snd s) (snd t))"

lemma covers_clock_join [simp]: "covers (clock_join c1 c2) d \<longleftrightarrow> covers c1 d \<or> covers c2 d"
  by (auto simp: covers_def clock_join_def max_def)

lemma clock_join_laws:
  "clock_join c c = c"
  "clock_join c1 c2 = clock_join c2 c1"
  "clock_join (clock_join c1 c2) c3 = clock_join c1 (clock_join c2 c3)"
  by (simp_all add: clock_join_def fun_eq_iff ac_simps)

lemma store_ok_join: "store_ok s \<Longrightarrow> store_ok t \<Longrightarrow> store_ok (store_join s t)"
  by (auto simp: store_ok_def store_join_def)

lemma store_join_idem: "store_join s s = s"
  by (cases s) (auto simp: store_join_def clock_join_laws)

lemma store_join_commute: "store_join s t = store_join t s"
  by (auto simp: store_join_def clock_join_laws(2))

lemma store_join_assoc:
  assumes "store_ok s" "store_ok t" "store_ok u"
  shows "store_join (store_join s t) u = store_join s (store_join t u)"
proof (rule prod_eqI)
  show "fst (store_join (store_join s t) u) = fst (store_join s (store_join t u))"
    using assms by (fastforce simp: store_join_def store_ok_def)
  show "snd (store_join (store_join s t) u) = snd (store_join s (store_join t u))"
    by (simp add: store_join_def clock_join_laws(3))
qed

interpretation dot_store: replicated_data store_ok "\<lambda>s. s" store_join
  by unfold_locales
    (auto simp: store_join_idem store_join_assoc store_ok_join intro: store_join_commute)

subsection \<open>Clocks as the code stores them\<close>

text \<open>
  \<^verbatim>\<open>isDominated\<close> and the clock loop of \<^verbatim>\<open>Merge\<close> (\<^verbatim>\<open>src/crdt/or_set.go\<close>), which the OR-Set and the
  multi-value register share. A missing node counts as 0, as reading a Go map does.
\<close>

definition isDominated :: "dot \<Rightarrow> (string, u64) gomap \<Rightarrow> bool" where
  "isDominated d clock \<longleftrightarrow> counter d \<le> gget0 clock (nodeID d)"

definition merge_clock :: "(string, u64) gomap \<Rightarrow> (string, u64) gomap \<Rightarrow> (string, u64) gomap" where
  "merge_clock remote local =
     foldr (\<lambda>(node, c) m. if c > gget0 m node then gset node c m else m) remote local"

lemma isDominated_covers: "isDominated d clock \<longleftrightarrow> covers (gget0 clock) d"
  by (simp add: isDominated_def covers_def)

lemma keys_ok_merge_clock: "keys_ok local \<Longrightarrow> keys_ok (merge_clock remote local)"
  by (induction remote) (auto simp: merge_clock_def)

lemma gget0_merge_clock:
  "keys_ok remote \<Longrightarrow> gget0 (merge_clock remote local) = clock_join (gget0 local) (gget0 remote)"
proof (induction remote)
  case Nil
  then show ?case by (simp add: merge_clock_def clock_join_def fun_eq_iff)
next
  case (Cons e remote)
  obtain k v where e: "e = (k, v)" by force
  with Cons.prems have "keys_ok remote" "gget0 remote k = 0" by (auto simp: gget0_None)
  with Cons.IH e show ?case
    by (auto simp: merge_clock_def clock_join_def fun_eq_iff gget0_gset gget0_Cons max_def word_gt_0)
qed

text \<open>A new event of a node has a counter above everything its clock covers.\<close>

lemma covers_fresh:
  assumes "c n < max_u64" "covers c d"
  shows "d \<noteq> \<lparr>nodeID = n, counter = c n + 1\<rparr>" and "covers (c(n := c n + 1)) d"
proof -
  have lt: "c n < c n + 1" using assms(1) by (rule u64_less_Suc)
  show "d \<noteq> \<lparr>nodeID = n, counter = c n + 1\<rparr>"
    using assms(2) lt by (auto simp: covers_def)
  show "covers (c(n := c n + 1)) d"
    using assms(2) lt by (auto simp: covers_def)
qed

end
