(* ===== verification/Counters.thy ===== *)
theory Counters
  imports Crdt_Spec
begin

section \<open>Counters: GCounter and PNCounter\<close>

text \<open>
  \<^verbatim>\<open>src/crdt/gcounter.go\<close> and \<^verbatim>\<open>src/crdt/pncounter.go\<close>. Slots are unsigned 64-bit words, so
  additions wrap. The type assertion at the head of \<^verbatim>\<open>Merge\<close> is modelled where the CRDT types
  meet (theory \<open>Or_Map\<close>); here both arguments have the type of the receiver.
\<close>

record gcounter =
  gc_state :: "(string, u64) gomap"
  gc_delta :: "(string, u64) gomap"

definition NewGCounter :: gcounter where
  "NewGCounter = \<lparr>gc_state = [], gc_delta = []\<rparr>"

definition gc_Clone :: "gcounter \<Rightarrow> gcounter" where
  "gc_Clone c = \<lparr>gc_state = gcopy [] (gc_state c), gc_delta = gcopy [] (gc_delta c)\<rparr>"

definition gc_Increment :: "gcounter \<Rightarrow> string \<Rightarrow> u64 \<Rightarrow> gcounter" where
  "gc_Increment c node v =
     (let out = gc_Clone c
      in out\<lparr>gc_state := gset node (gget0 (gc_state out) node + v) (gc_state out),
             gc_delta := gset node (gget0 (gc_delta out) node + v) (gc_delta out)\<rparr>)"

definition gc_State :: "gcounter \<Rightarrow> (string, u64) gomap" where
  "gc_State c = gcopy [] (gc_state c)"

definition GCounterFromState :: "(string, u64) gomap \<Rightarrow> gcounter" where
  "GCounterFromState st = \<lparr>gc_state = gcopy [] st, gc_delta = []\<rparr>"

definition gc_Value :: "gcounter \<Rightarrow> u64" where
  "gc_Value c = foldr (\<lambda>(_, v) total. total + v) (gc_state c) 0"

definition gc_merge_slots :: "(string, u64) gomap \<Rightarrow> (string, u64) gomap \<Rightarrow> (string, u64) gomap" where
  "gc_merge_slots remote local =
     foldr (\<lambda>(node, remoteVal) st.
        case map_of st node of
          None \<Rightarrow> gset node remoteVal st
        | Some localVal \<Rightarrow> if remoteVal > localVal then gset node remoteVal st else st)
       remote local"

definition gc_Merge :: "gcounter \<Rightarrow> gcounter \<Rightarrow> gcounter" where
  "gc_Merge c other =
     (let merged = gc_Clone c
      in merged\<lparr>gc_state := gc_merge_slots (gc_state other) (gc_state merged)\<rparr>)"

definition gc_Delta :: "gcounter \<Rightarrow> gcounter option" where
  "gc_Delta c =
     (if gc_delta c = [] then None
      else Some \<lparr>gc_state = foldr (\<lambda>(node, _) st. gset node (gget0 (gc_state c) node) st) (gc_delta c) [],
                 gc_delta = []\<rparr>)"

definition gc_ResetDelta :: "gcounter \<Rightarrow> gcounter" where
  "gc_ResetDelta c = c\<lparr>gc_delta := []\<rparr>"

subsection \<open>PNCounter\<close>

text \<open>\<^verbatim>\<open>int64(a) - int64(b)\<close> wraps like the difference of the words, read as two's complement.\<close>

record pncounter =
  pn_increments :: gcounter
  pn_decrements :: gcounter

definition NewPNCounter :: pncounter where
  "NewPNCounter = \<lparr>pn_increments = NewGCounter, pn_decrements = NewGCounter\<rparr>"

definition pn_Increment :: "pncounter \<Rightarrow> string \<Rightarrow> u64 \<Rightarrow> pncounter" where
  "pn_Increment c node v =
     \<lparr>pn_increments = gc_Increment (pn_increments c) node v,
      pn_decrements = gc_Clone (pn_decrements c)\<rparr>"

definition pn_Decrement :: "pncounter \<Rightarrow> string \<Rightarrow> u64 \<Rightarrow> pncounter" where
  "pn_Decrement c node v =
     \<lparr>pn_increments = gc_Clone (pn_increments c),
      pn_decrements = gc_Increment (pn_decrements c) node v\<rparr>"

definition pn_State :: "pncounter \<Rightarrow> (string, u64) gomap \<times> (string, u64) gomap" where
  "pn_State c = (gc_State (pn_increments c), gc_State (pn_decrements c))"

definition PNCounterFromState :: "(string, u64) gomap \<Rightarrow> (string, u64) gomap \<Rightarrow> pncounter" where
  "PNCounterFromState inc dec =
     \<lparr>pn_increments = GCounterFromState inc, pn_decrements = GCounterFromState dec\<rparr>"

definition pn_Value :: "pncounter \<Rightarrow> int" where
  "pn_Value c = sint (gc_Value (pn_increments c) - gc_Value (pn_decrements c))"

definition pn_Merge :: "pncounter \<Rightarrow> pncounter \<Rightarrow> pncounter" where
  "pn_Merge c other =
     \<lparr>pn_increments = gc_Merge (pn_increments c) (pn_increments other),
      pn_decrements = gc_Merge (pn_decrements c) (pn_decrements other)\<rparr>"

definition pn_Delta :: "pncounter \<Rightarrow> pncounter option" where
  "pn_Delta c =
     (case (gc_Delta (pn_increments c), gc_Delta (pn_decrements c)) of
        (None, None) \<Rightarrow> None
      | (i, d) \<Rightarrow>
          Some \<lparr>pn_increments = (case i of None \<Rightarrow> NewGCounter | Some x \<Rightarrow> x),
                pn_decrements = (case d of None \<Rightarrow> NewGCounter | Some x \<Rightarrow> x)\<rparr>)"

definition pn_ResetDelta :: "pncounter \<Rightarrow> pncounter" where
  "pn_ResetDelta c =
     \<lparr>pn_increments = gc_ResetDelta (pn_increments c), pn_decrements = gc_ResetDelta (pn_decrements c)\<rparr>"

definition pn_Clone :: "pncounter \<Rightarrow> pncounter" where
  "pn_Clone c = \<lparr>pn_increments = gc_Clone (pn_increments c), pn_decrements = gc_Clone (pn_decrements c)\<rparr>"

subsection \<open>Well-formed counters and their observable slots\<close>

definition gc_ok :: "gcounter \<Rightarrow> bool" where
  "gc_ok c \<longleftrightarrow> keys_ok (gc_state c) \<and> keys_ok (gc_delta c) \<and> dom (map_of (gc_delta c)) \<subseteq> dom (map_of (gc_state c))"

definition gc_slots :: "gcounter \<Rightarrow> string \<rightharpoonup> u64" where
  "gc_slots c = map_of (gc_state c)"

definition slot_max :: "u64 option \<Rightarrow> u64 option \<Rightarrow> u64 option" where
  "slot_max a b =
     (case a of None \<Rightarrow> b | Some x \<Rightarrow> (case b of None \<Rightarrow> Some x | Some y \<Rightarrow> Some (max x y)))"

lemma slot_max_laws:
  "slot_max a a = a" "slot_max a b = slot_max b a"
  "slot_max (slot_max a b) c = slot_max a (slot_max b c)"
  "slot_max None a = a" "slot_max a None = a"
  by (auto simp: slot_max_def max_def split: option.splits)

lemma keys_ok_merge_slots: "keys_ok local \<Longrightarrow> keys_ok (gc_merge_slots remote local)"
  by (induction remote) (auto simp: gc_merge_slots_def split: option.splits)

lemma map_of_merge_slots:
  "keys_ok remote \<Longrightarrow> map_of (gc_merge_slots remote local) n = slot_max (map_of local n) (map_of remote n)"
proof (induction remote arbitrary: n)
  case Nil
  then show ?case by (simp add: gc_merge_slots_def slot_max_laws)
next
  case (Cons e remote)
  obtain k v where e: "e = (k, v)" by force
  from Cons.prems e have "keys_ok remote" and "map_of remote k = None"
    by auto
  with Cons.IH e show ?case
    by (auto simp: gc_merge_slots_def slot_max_def max_def split: option.splits)
qed

lemma gc_slots_Clone [simp]: "gc_slots (gc_Clone c) = gc_slots c"
  by (simp add: gc_slots_def gc_Clone_def)

lemma gc_ok_Clone [simp]: "gc_ok c \<Longrightarrow> gc_ok (gc_Clone c)"
  by (simp add: gc_ok_def gc_Clone_def)

lemma gc_ok_New: "gc_ok NewGCounter"
  by (simp add: gc_ok_def NewGCounter_def)

lemma gc_ok_Increment: "gc_ok c \<Longrightarrow> gc_ok (gc_Increment c n v)"
  by (auto simp: gc_ok_def gc_Increment_def gc_Clone_def Let_def)

lemma gc_slots_Increment:
  "gc_slots (gc_Increment c n v) = (gc_slots c)(n \<mapsto> gget0 (gc_state c) n + v)"
  by (simp add: gc_slots_def gc_Increment_def gc_Clone_def Let_def)

lemma gc_ok_Merge: "gc_ok a \<Longrightarrow> gc_ok b \<Longrightarrow> gc_ok (gc_Merge a b)"
  by (auto simp: gc_ok_def gc_Merge_def gc_Clone_def Let_def keys_ok_merge_slots map_of_merge_slots
      slot_max_def dom_def split: option.splits)

lemma gc_slots_Merge:
  "gc_ok b \<Longrightarrow> gc_slots (gc_Merge a b) = (\<lambda>n. slot_max (gc_slots a n) (gc_slots b n))"
  by (simp add: gc_ok_def gc_slots_def gc_Merge_def gc_Clone_def Let_def map_of_merge_slots fun_eq_iff)

lemma gc_ok_FromState: "gc_ok (GCounterFromState st)"
  by (simp add: gc_ok_def GCounterFromState_def)

lemma gc_ok_ResetDelta: "gc_ok c \<Longrightarrow> gc_ok (gc_ResetDelta c)"
  by (simp add: gc_ok_def gc_ResetDelta_def)

interpretation gcounter: replicated_data gc_ok gc_slots gc_Merge
  by unfold_locales
    (auto simp: gc_ok_Merge gc_slots_Merge slot_max_laws(1,3) fun_eq_iff intro: slot_max_laws(2))

definition pn_ok :: "pncounter \<Rightarrow> bool" where
  "pn_ok c \<longleftrightarrow> gc_ok (pn_increments c) \<and> gc_ok (pn_decrements c)"

definition pn_slots :: "pncounter \<Rightarrow> (string \<rightharpoonup> u64) \<times> (string \<rightharpoonup> u64)" where
  "pn_slots c = (gc_slots (pn_increments c), gc_slots (pn_decrements c))"

lemma pn_ok_Merge: "pn_ok a \<Longrightarrow> pn_ok b \<Longrightarrow> pn_ok (pn_Merge a b)"
  by (simp add: pn_ok_def pn_Merge_def gc_ok_Merge)

interpretation pncounter: replicated_data pn_ok pn_slots pn_Merge
proof unfold_locales
  fix a b a' b' :: pncounter
  assume "pn_ok a" "pn_ok b" "pn_ok a'" "pn_ok b'" "pn_slots a = pn_slots a'" "pn_slots b = pn_slots b'"
  then show "pn_slots (pn_Merge a b) = pn_slots (pn_Merge a' b')"
    by (auto simp: pn_ok_def pn_slots_def pn_Merge_def intro: gcounter.merge_cong)
qed (auto simp: pn_ok_def pn_slots_def pn_Merge_def gc_ok_Merge gcounter.merge_assoc
      gcounter.merge_idem intro: gcounter.merge_commute)

lemma pn_ok_ops:
  "pn_ok NewPNCounter"
  "pn_ok c \<Longrightarrow> pn_ok (pn_Increment c n v)"
  "pn_ok c \<Longrightarrow> pn_ok (pn_Decrement c n v)"
  "pn_ok c \<Longrightarrow> pn_ok (pn_ResetDelta c)"
  "pn_ok c \<Longrightarrow> pn_ok (pn_Clone c)"
  "pn_ok (PNCounterFromState i d)"
  by (simp_all add: pn_ok_def NewPNCounter_def pn_Increment_def pn_Decrement_def pn_ResetDelta_def
      pn_Clone_def PNCounterFromState_def gc_ok_New gc_ok_Increment gc_ok_ResetDelta gc_ok_FromState)

subsection \<open>Values\<close>

definition slot_sum :: "(string, u64) gomap \<Rightarrow> u64" where
  "slot_sum m = sum_list (map snd m)"

lemma gc_Value_sum: "gc_Value c = slot_sum (gc_state c)"
proof -
  have "foldr (\<lambda>(_, v) total. total + v) m 0 = slot_sum m" for m :: "(string, u64) gomap"
    by (induction m) (auto simp: slot_sum_def)
  then show ?thesis by (simp add: gc_Value_def)
qed

lemma slot_sum_gset: "keys_ok m \<Longrightarrow> gget0 m k = x \<Longrightarrow> slot_sum (gset k (x + v) m) = slot_sum m + v"
  by (induction m) (auto simp: slot_sum_def gget0_def)

lemma slot_sum_dom: "keys_ok m \<Longrightarrow> slot_sum m = (\<Sum>k \<in> dom (map_of m). gget0 m k)"
proof (induction m)
  case (Cons e m)
  obtain k v where e: "e = (k, v)" by force
  have eq: "(\<Sum>x \<in> dom (map_of m). gget0 (e # m) x) = (\<Sum>x \<in> dom (map_of m). gget0 m x)"
    using Cons.prems e by (intro sum.cong) (auto simp: gget0_def)
  have "k \<notin> dom (map_of m)" and ok: "keys_ok m" using Cons.prems e by auto
  from this(1) have "(\<Sum>x \<in> dom (map_of (e # m)). gget0 (e # m) x) = v + (\<Sum>x \<in> dom (map_of m). gget0 m x)"
    using eq by (simp add: e finite_dom_map_of) (simp add: gget0_def)
  moreover have "slot_sum (e # m) = v + slot_sum m" by (simp add: slot_sum_def e)
  ultimately show ?case using Cons.IH [OF ok] by metis
qed (simp add: slot_sum_def)

text \<open>The value depends on the observable slots only, not on the order of the map.\<close>

lemma gc_Value_slots:
  "gc_ok c \<Longrightarrow> gc_Value c = (\<Sum>n \<in> dom (gc_slots c). the (gc_slots c n))"
proof -
  assume "gc_ok c"
  then have "gc_Value c = (\<Sum>n \<in> dom (gc_slots c). gget0 (gc_state c) n)"
    by (simp add: gc_Value_sum slot_sum_dom gc_ok_def gc_slots_def)
  also have "\<dots> = (\<Sum>n \<in> dom (gc_slots c). the (gc_slots c n))"
    by (intro sum.cong) (auto simp: gget0_def gc_slots_def)
  finally show ?thesis .
qed

lemma gc_Value_Clone: "gc_ok c \<Longrightarrow> gc_Value (gc_Clone c) = gc_Value c"
  by (simp add: gc_Value_slots)

lemma gc_Value_Increment: "gc_ok c \<Longrightarrow> gc_Value (gc_Increment c n v) = gc_Value c + v"
proof -
  assume ok: "gc_ok c"
  have "gc_Value (gc_Increment c n v) = slot_sum (gc_state (gc_Clone c)) + v"
    using ok by (simp add: gc_Value_sum gc_Increment_def Let_def slot_sum_gset gc_Clone_def gc_ok_def)
  also have "slot_sum (gc_state (gc_Clone c)) = gc_Value c"
    using gc_Value_Clone [OF ok] by (simp add: gc_Value_sum)
  finally show ?thesis .
qed

lemma pn_Value_ops:
  assumes "pn_ok c"
  shows "pn_Value (pn_Increment c n v) = sint (word_of_int (pn_Value c) + v)"
    and "pn_Value (pn_Decrement c n v) = sint (word_of_int (pn_Value c) - v)"
  using assms
  by (simp_all add: pn_Value_def pn_Increment_def pn_Decrement_def pn_ok_def gc_Value_Increment
      gc_Value_Clone algebra_simps)

text \<open>Merging never loses counts, as long as the sum of the merged slots does not overflow.\<close>

definition gc_total :: "gcounter \<Rightarrow> nat" where
  "gc_total c = (\<Sum>n \<in> dom (gc_slots c). unat (the (gc_slots c n)))"

lemma unat_sum_words:
  fixes f :: "'a \<Rightarrow> u64"
  shows "finite A \<Longrightarrow> (\<Sum>x \<in> A. unat (f x)) < 2 ^ 64 \<Longrightarrow> unat (\<Sum>x \<in> A. f x) = (\<Sum>x \<in> A. unat (f x))"
proof (induction A rule: finite_induct)
  case (insert x A)
  then have "unat (\<Sum>x \<in> A. f x) = (\<Sum>x \<in> A. unat (f x))" by simp
  with insert show ?case by (simp add: unat_word_ariths)
qed simp

lemma finite_gc_slots [simp]: "finite (dom (gc_slots c))"
  by (simp add: gc_slots_def finite_dom_map_of)

lemma gc_Value_total: "gc_ok c \<Longrightarrow> gc_total c < 2 ^ 64 \<Longrightarrow> unat (gc_Value c) = gc_total c"
  by (simp add: gc_Value_slots gc_total_def unat_sum_words)

lemma dom_gc_Merge: "gc_ok b \<Longrightarrow> dom (gc_slots (gc_Merge a b)) = dom (gc_slots a) \<union> dom (gc_slots b)"
  by (auto simp: gc_slots_Merge slot_max_def dom_def split: option.splits)

lemma gc_total_Merge_ge: "gc_ok b \<Longrightarrow> gc_total a \<le> gc_total (gc_Merge a b)"
proof -
  assume b: "gc_ok b"
  have "gc_total a \<le> (\<Sum>n \<in> dom (gc_slots a). unat (the (gc_slots (gc_Merge a b) n)))"
    unfolding gc_total_def
    by (rule sum_mono)
      (auto simp: gc_slots_Merge [OF b] slot_max_def word_le_nat_alt [symmetric] split: option.splits)
  also have "\<dots> \<le> gc_total (gc_Merge a b)"
    unfolding gc_total_def by (rule sum_mono2) (auto simp: dom_gc_Merge [OF b])
  finally show ?thesis .
qed

subsection \<open>Deltas\<close>

text \<open>
  The slots a counter has not recorded in its delta are those of the state it had when the
  delta was last cleared.
\<close>

definition gc_tracks :: "gcounter \<Rightarrow> gcounter \<Rightarrow> bool" where
  "gc_tracks base c \<longleftrightarrow> (\<forall>n. map_of (gc_delta c) n = None \<longrightarrow> gc_slots c n = gc_slots base n)"

lemma gc_tracks_ops:
  "gc_tracks (gc_ResetDelta c) (gc_ResetDelta c)"
  "gc_tracks base c \<Longrightarrow> gc_tracks base (gc_Clone c)"
  "gc_tracks base c \<Longrightarrow> gc_tracks base (gc_Increment c n v)"
  by (auto simp: gc_tracks_def gc_slots_def gc_Clone_def gc_Increment_def gc_ResetDelta_def Let_def)

lemma gc_Delta_None: "gc_Delta c = None \<longleftrightarrow> gc_delta c = []"
  by (simp add: gc_Delta_def)

lemma gc_Delta_ok: "gc_Delta c = Some d \<Longrightarrow> gc_ok d"
proof -
  have "keys_ok (foldr (\<lambda>(node, _) st. gset node (f node) st) xs [])" for f :: "string \<Rightarrow> u64" and xs :: "(string, u64) gomap"
    by (induction xs) auto
  then show "gc_Delta c = Some d \<Longrightarrow> gc_ok d"
    by (auto simp: gc_Delta_def gc_ok_def split: if_splits)
qed

lemma gc_Delta_slots:
  "gc_Delta c = Some d \<Longrightarrow>
     gc_slots d n = (if map_of (gc_delta c) n = None then None else Some (gget0 (gc_state c) n))"
proof -
  have "map_of (foldr (\<lambda>(node, _) st. gset node (f node) st) xs []) n =
      (if map_of xs n = None then None else Some (f n))" for f :: "string \<Rightarrow> u64" and xs :: "(string, u64) gomap"
    by (induction xs) auto
  then show "gc_Delta c = Some d \<Longrightarrow> ?thesis"
    by (auto simp: gc_Delta_def gc_slots_def split: if_splits)
qed

lemma gc_delta_merge:
  assumes ok: "gc_ok c" "gc_ok base" "gc_ok peer"
    and tracks: "gc_tracks base c" and seen: "gcounter.seen base peer"
  shows "gc_slots (case gc_Delta c of None \<Rightarrow> peer | Some d \<Rightarrow> gc_Merge peer d) = gc_slots (gc_Merge peer c)"
proof -
  have base: "slot_max (gc_slots peer n) (gc_slots base n) = gc_slots peer n" for n
    using seen ok by (metis gcounter.seen_def gc_slots_Merge)
  have slot: "gc_slots c n = Some (gget0 (gc_state c) n)" if "map_of (gc_delta c) n \<noteq> None" for n
    using that ok(1) by (auto simp: gc_ok_def gc_slots_def gget0_def dom_def)
  show ?thesis
  proof (cases "gc_Delta c")
    case None
    then have "gc_slots c = gc_slots base"
      using tracks by (simp add: gc_Delta_None gc_tracks_def fun_eq_iff)
    then show ?thesis using None base by (simp add: gc_slots_Merge ok fun_eq_iff)
  next
    case (Some d)
    have "slot_max (gc_slots peer n) (gc_slots d n) = slot_max (gc_slots peer n) (gc_slots c n)" for n
    proof (cases "map_of (gc_delta c) n = None")
      case True
      then show ?thesis
        using tracks base [of n] by (simp add: gc_Delta_slots [OF Some] gc_tracks_def slot_max_laws)
    next
      case False
      then show ?thesis using slot [OF False] by (auto simp: gc_Delta_slots [OF Some])
    qed
    then show ?thesis using Some by (simp add: gc_slots_Merge gc_Delta_ok [OF Some] ok fun_eq_iff)
  qed
qed

lemma gc_tracks_increments:
  "gc_tracks base c \<Longrightarrow> gc_tracks base (foldl (\<lambda>c (n, v). gc_Increment c n v) c incs)"
  by (induction incs arbitrary: c) (auto simp: gc_tracks_ops)

lemma gc_ok_increments: "gc_ok c \<Longrightarrow> gc_ok (foldl (\<lambda>c (n, v). gc_Increment c n v) c incs)"
  by (induction incs arbitrary: c) (auto simp: gc_ok_Increment)

subsection \<open>Properties\<close>

text \<open>
  C14. Grow-only counters converge: replicas that have received the same states, in any order
  and with repetitions, have the same slots and report the same value.
\<close>

theorem gc_convergence:
  assumes "gc_ok a" "gc_ok b" "\<forall>x \<in> set xs. gc_ok x" "\<forall>y \<in> set ys. gc_ok y"
    and "insert a (set xs) = insert b (set ys)"
  shows "gc_slots (foldl gc_Merge a xs) = gc_slots (foldl gc_Merge b ys) \<and>
    gc_Value (foldl gc_Merge a xs) = gc_Value (foldl gc_Merge b ys)"
proof -
  have "gc_slots (foldl gc_Merge a xs) = gc_slots (foldl gc_Merge b ys)"
    using assms by (rule gcounter.convergence)
  moreover have "gc_ok (foldl gc_Merge a xs)" "gc_ok (foldl gc_Merge b ys)"
    using assms by (auto intro: gcounter.ok_foldl)
  ultimately show ?thesis by (simp add: gc_Value_slots)
qed

theorem gc_convergence_witness:
  "let a = gc_Increment NewGCounter ''A'' 3; b = gc_Increment NewGCounter ''B'' 4
   in gc_slots (foldl gc_Merge a [b, b]) = gc_slots (foldl gc_Merge b [a]) \<and>
      gc_Value (foldl gc_Merge a [b, b]) = gc_Value (foldl gc_Merge b [a])"
  unfolding Let_def by (rule gc_convergence) (auto simp: gc_ok_Increment gc_ok_New)

text \<open>
  C15. Deltas are enough: a peer that has seen the state from which a counter last cleared its
  delta ends up with the same slots whether it merges the counter's delta or its full state,
  after any increments.
\<close>

theorem gc_delta_sync:
  assumes "gc_ok base" "gc_ok peer" "gc_slots (gc_Merge peer base) = gc_slots peer"
  shows "let c = foldl (\<lambda>c (n, v). gc_Increment c n v) (gc_ResetDelta base) incs
    in gc_slots (case gc_Delta c of None \<Rightarrow> peer | Some d \<Rightarrow> gc_Merge peer d) = gc_slots (gc_Merge peer c)"
proof -
  have "gcounter.seen (gc_ResetDelta base) peer"
    using assms by (simp add: gcounter.seen_def gc_slots_Merge gc_ok_ResetDelta)
      (simp add: gc_slots_def gc_ResetDelta_def)
  then show ?thesis
    unfolding Let_def
    using assms(1,2)
    by (intro gc_delta_merge [where base = "gc_ResetDelta base"])
      (auto simp: gc_ok_increments gc_ok_ResetDelta gc_tracks_increments gc_tracks_ops)
qed

theorem gc_delta_sync_witness:
  "let base = gc_Increment NewGCounter ''A'' 3;
       c = foldl (\<lambda>c (n, v). gc_Increment c n v) (gc_ResetDelta base) [(''A'', 2), (''B'', 1)]
   in gc_slots (case gc_Delta c of None \<Rightarrow> base | Some d \<Rightarrow> gc_Merge base d) = gc_slots (gc_Merge base c)"
  using gc_delta_sync [of "gc_Increment NewGCounter ''A'' 3" "gc_Increment NewGCounter ''A'' 3"
      "[(''A'', 2), (''B'', 1)]"]
  by (simp only: gc_ok_Increment gc_ok_New gcounter.merge_idem Let_def simp_thms)

text \<open>
  A merge never lowers a counter: as long as the merged slots add up to less than 2^64,
  the value of the merge is at least the value of either side.
\<close>

lemma gc_merge_monotone:
  assumes "gc_ok a" "gc_ok b" "gc_total (gc_Merge a b) < 2 ^ 64"
  shows "gc_Value a \<le> gc_Value (gc_Merge a b) \<and> gc_Value b \<le> gc_Value (gc_Merge a b)"
proof -
  have "gc_slots (gc_Merge a b) = gc_slots (gc_Merge b a)"
    using assms by (simp add: gcounter.merge_commute)
  then have le: "gc_total a \<le> gc_total (gc_Merge a b)" "gc_total b \<le> gc_total (gc_Merge a b)"
    using gc_total_Merge_ge [OF assms(2), of a] gc_total_Merge_ge [OF assms(1), of b]
    by (simp_all add: gc_total_def)
  then show ?thesis
    using assms by (simp add: word_le_nat_alt gc_Value_total gc_ok_Merge)
qed

text \<open>
  C16. The value of a PN-counter follows its operations: \<^verbatim>\<open>Increment\<close> adds and \<^verbatim>\<open>Decrement\<close> subtracts
  its argument in 64-bit two's complement arithmetic, for any node.
\<close>

theorem pn_value_steps:
  assumes "pn_ok c"
  shows "pn_Value (pn_Increment c n v) = sint (word_of_int (pn_Value c) + v) \<and>
    pn_Value (pn_Decrement c n v) = sint (word_of_int (pn_Value c) - v)"
  using pn_Value_ops [OF assms] by simp

theorem pn_value_steps_witness:
  "let c = pn_Decrement NewPNCounter ''B'' 5
   in pn_Value (pn_Increment c ''A'' 2) = sint (word_of_int (pn_Value c) + 2 :: u64) \<and>
      pn_Value (pn_Decrement c ''A'' 2) = sint (word_of_int (pn_Value c) - 2 :: u64)"
  unfolding Let_def by (rule pn_value_steps) (simp add: pn_ok_ops)

end
