(* ===== verification/Registers.thy ===== *)
theory Registers
  imports Crdt_Spec
begin

section \<open>Flag, LWWRegister and MVRegister\<close>

text \<open>
  \<^verbatim>\<open>src/crdt/flag.go\<close>, \<^verbatim>\<open>src/crdt/lww_register.go\<close> and \<^verbatim>\<open>src/crdt/mv_register.go\<close>. Values of
  type \<^verbatim>\<open>any\<close> are a type parameter; nil, the value of a fresh register, is an argument.
  Timestamps are compared and never computed with, so they are integers.
\<close>

record flag =
  fl_enabled :: bool
  fl_dirty :: bool

definition NewFlag :: flag where
  "NewFlag = \<lparr>fl_enabled = False, fl_dirty = False\<rparr>"

definition fl_Clone :: "flag \<Rightarrow> flag" where
  "fl_Clone x = \<lparr>fl_enabled = fl_enabled x, fl_dirty = fl_dirty x\<rparr>"

definition fl_Enable :: "flag \<Rightarrow> flag" where
  "fl_Enable x = (if fl_enabled x then fl_Clone x else \<lparr>fl_enabled = True, fl_dirty = True\<rparr>)"

definition fl_Merge :: "flag \<Rightarrow> flag \<Rightarrow> flag" where
  "fl_Merge x other = \<lparr>fl_enabled = fl_enabled x \<or> fl_enabled other, fl_dirty = False\<rparr>"

definition fl_Delta :: "flag \<Rightarrow> flag option" where
  "fl_Delta x = (if \<not> fl_dirty x then None else Some (fl_Clone x))"

definition fl_ResetDelta :: "flag \<Rightarrow> flag" where
  "fl_ResetDelta x = x\<lparr>fl_dirty := False\<rparr>"

definition FlagFromState :: "bool \<Rightarrow> flag" where
  "FlagFromState en = \<lparr>fl_enabled = en, fl_dirty = False\<rparr>"

interpretation flag: replicated_data "\<lambda>_. True" fl_enabled fl_Merge
  by unfold_locales (auto simp: fl_Merge_def)

subsection \<open>LWWRegister\<close>

record 'v lww =
  lww_value :: 'v
  lww_timestamp :: int
  lww_nodeID :: string
  lww_dirty :: bool

definition NewLWWRegister :: "'v \<Rightarrow> 'v lww" where
  "NewLWWRegister nil = \<lparr>lww_value = nil, lww_timestamp = 0, lww_nodeID = [], lww_dirty = False\<rparr>"

definition lww_Set :: "'v lww \<Rightarrow> 'v \<Rightarrow> int \<Rightarrow> string \<Rightarrow> 'v lww" where
  "lww_Set r v ts node = \<lparr>lww_value = v, lww_timestamp = ts, lww_nodeID = node, lww_dirty = True\<rparr>"

definition lww_Merge :: "'v lww \<Rightarrow> 'v lww \<Rightarrow> 'v lww" where
  "lww_Merge r other =
     (let winner =
        (if lww_timestamp other > lww_timestamp r \<or>
            (lww_timestamp other = lww_timestamp r \<and> lww_nodeID other > lww_nodeID r)
         then other else r)
      in \<lparr>lww_value = lww_value winner, lww_timestamp = lww_timestamp winner,
          lww_nodeID = lww_nodeID winner, lww_dirty = False\<rparr>)"

definition lww_Clone :: "'v lww \<Rightarrow> 'v lww" where
  "lww_Clone r = \<lparr>lww_value = lww_value r, lww_timestamp = lww_timestamp r,
                  lww_nodeID = lww_nodeID r, lww_dirty = lww_dirty r\<rparr>"

definition lww_Delta :: "'v lww \<Rightarrow> 'v lww option" where
  "lww_Delta r = (if \<not> lww_dirty r then None else Some (lww_Clone r))"

definition lww_ResetDelta :: "'v lww \<Rightarrow> 'v lww" where
  "lww_ResetDelta r = r\<lparr>lww_dirty := False\<rparr>"

definition LWWRegisterFromState :: "'v \<Rightarrow> int \<Rightarrow> string \<Rightarrow> 'v lww" where
  "LWWRegisterFromState v ts node =
     \<lparr>lww_value = v, lww_timestamp = ts, lww_nodeID = node, lww_dirty = False\<rparr>"

text \<open>
  The stamp of a write orders it; \<open>written\<close> says which value carries which stamp. A register is
  consistent with it when its value is the one its stamp was written with.
\<close>

definition lww_stamp :: "'v lww \<Rightarrow> int \<times> string" where
  "lww_stamp r = (lww_timestamp r, lww_nodeID r)"

definition lww_ok :: "(int \<times> string \<Rightarrow> 'v) \<Rightarrow> 'v lww \<Rightarrow> bool" where
  "lww_ok written r \<longleftrightarrow> lww_value r = written (lww_stamp r)"

definition lww_abs :: "'v lww \<Rightarrow> 'v \<times> int \<times> string" where
  "lww_abs r = (lww_value r, lww_stamp r)"

definition stamp_less :: "int \<times> string \<Rightarrow> int \<times> string \<Rightarrow> bool" where
  "stamp_less s t \<longleftrightarrow> fst s < fst t \<or> (fst s = fst t \<and> snd s < snd t)"

lemma stamp_linear: "\<not> stamp_less s t \<Longrightarrow> \<not> stamp_less t s \<Longrightarrow> s = t"
  by (cases s; cases t) (auto simp: stamp_less_def)

lemma stamp_less_trans: "stamp_less s t \<Longrightarrow> stamp_less t u \<Longrightarrow> stamp_less s u"
  by (auto simp: stamp_less_def)

lemma stamp_less_asym: "stamp_less s t \<Longrightarrow> \<not> stamp_less t s"
  by (auto simp: stamp_less_def)

definition stamp_max :: "int \<times> string \<Rightarrow> int \<times> string \<Rightarrow> int \<times> string" where
  "stamp_max s t = (if stamp_less s t then t else s)"

lemma stamp_max_idem: "stamp_max s s = s"
  by (simp add: stamp_max_def)

lemma stamp_max_commute: "stamp_max s t = stamp_max t s"
  using stamp_linear [of s t] stamp_less_asym [of s t] by (auto simp: stamp_max_def)

lemma stamp_max_assoc: "stamp_max (stamp_max s t) u = stamp_max s (stamp_max t u)"
proof -
  have "\<not> stamp_less s u" if "\<not> stamp_less s t" "\<not> stamp_less t u"
    using that by (auto simp: stamp_less_def)
  then show ?thesis
    using stamp_less_trans [of s t u] by (auto simp: stamp_max_def)
qed

lemma lww_Merge_winner:
  "lww_abs (lww_Merge r s) = (if stamp_less (lww_stamp r) (lww_stamp s) then lww_abs s else lww_abs r)"
  by (auto simp: lww_abs_def lww_Merge_def lww_stamp_def stamp_less_def Let_def)

lemma lww_stamp_Merge: "lww_stamp (lww_Merge r s) = stamp_max (lww_stamp r) (lww_stamp s)"
  using lww_Merge_winner [of r s] by (auto simp: lww_abs_def stamp_max_def split: if_splits)

lemma lww_ok_Merge: "lww_ok w r \<Longrightarrow> lww_ok w s \<Longrightarrow> lww_ok w (lww_Merge r s)"
  using lww_Merge_winner [of r s] by (auto simp: lww_abs_def lww_ok_def split: if_splits)

lemma lww_abs_ok: "lww_ok w r \<Longrightarrow> lww_abs r = (w (lww_stamp r), lww_stamp r)"
  by (simp add: lww_abs_def lww_ok_def)

lemma lww_abs_Merge:
  "lww_ok w r \<Longrightarrow> lww_ok w s \<Longrightarrow>
    lww_abs (lww_Merge r s) =
      (w (stamp_max (lww_stamp r) (lww_stamp s)), stamp_max (lww_stamp r) (lww_stamp s))"
  by (simp add: lww_abs_ok [OF lww_ok_Merge] lww_stamp_Merge)

interpretation lww: replicated_data "lww_ok w" lww_abs lww_Merge
  for w :: "int \<times> string \<Rightarrow> 'v"
proof unfold_locales
  fix a b c :: "'v lww"
  assume ok: "lww_ok w a" "lww_ok w b"
  then show "lww_ok w (lww_Merge a b)" by (rule lww_ok_Merge)
  show "lww_abs (lww_Merge a b) = lww_abs (lww_Merge b a)"
    using ok by (simp add: lww_abs_Merge stamp_max_commute)
  show "lww_abs (lww_Merge (lww_Merge a b) c) = lww_abs (lww_Merge a (lww_Merge b c))"
    if "lww_ok w c"
    using ok that by (simp add: lww_abs_Merge [of w] lww_ok_Merge lww_stamp_Merge stamp_max_assoc)
next
  fix a b a' b' :: "'v lww"
  assume "lww_abs a = lww_abs a'" "lww_abs b = lww_abs b'"
  then show "lww_abs (lww_Merge a b) = lww_abs (lww_Merge a' b')"
    by (simp add: lww_Merge_winner) (simp add: lww_abs_def)
next
  fix a :: "'v lww"
  show "lww_abs (lww_Merge a a) = lww_abs a"
    by (simp add: lww_Merge_winner)
qed

subsection \<open>MVRegister\<close>

record 'v mventry =
  mv_value :: 'v
  mv_dot :: dot

record 'v mvregister =
  mv_entries :: "'v mventry list"
  mv_clock :: "(string, u64) gomap"
  mv_dirty :: bool

definition NewMVRegister :: "'v mvregister" where
  "NewMVRegister = \<lparr>mv_entries = [], mv_clock = [], mv_dirty = False\<rparr>"

definition mv_cloneInternal :: "'v mvregister \<Rightarrow> 'v mvregister" where
  "mv_cloneInternal r =
     \<lparr>mv_entries = mv_entries r, mv_clock = gcopy [] (mv_clock r), mv_dirty = mv_dirty r\<rparr>"

definition mv_Set :: "'v mvregister \<Rightarrow> string \<Rightarrow> 'v \<Rightarrow> 'v mvregister" where
  "mv_Set r node v =
     (let out = mv_cloneInternal r;
          clk = gset node (gget0 (mv_clock out) node + 1) (mv_clock out);
          d = \<lparr>nodeID = node, counter = gget0 clk node\<rparr>
      in \<lparr>mv_entries = [\<lparr>mv_value = v, mv_dot = d\<rparr>], mv_clock = clk, mv_dirty = True\<rparr>)"

definition mv_Values :: "'v mvregister \<Rightarrow> 'v list" where
  "mv_Values r = map mv_value (mv_entries r)"

fun containsMVDot :: "'v mventry list \<Rightarrow> dot \<Rightarrow> bool" where
  "containsMVDot [] d = False"
| "containsMVDot (e # es) d =
     (if nodeID (mv_dot e) = nodeID d \<and> counter (mv_dot e) = counter d then True else containsMVDot es d)"

definition appendMVEntryUnique :: "'v mventry list \<Rightarrow> 'v mventry \<Rightarrow> 'v mventry list" where
  "appendMVEntryUnique es e = (if containsMVDot es (mv_dot e) then es else es @ [e])"

definition mv_keep ::
  "'v mventry list \<Rightarrow> (string, u64) gomap \<Rightarrow> 'v mventry list \<Rightarrow> 'v mventry list \<Rightarrow> 'v mventry list" where
  "mv_keep otherEntries otherClock es acc =
     foldl (\<lambda>merged e.
        if \<not> isDominated (mv_dot e) otherClock \<or> containsMVDot otherEntries (mv_dot e)
        then appendMVEntryUnique merged e else merged) acc es"

definition mv_Merge :: "'v mvregister \<Rightarrow> 'v mvregister \<Rightarrow> 'v mvregister" where
  "mv_Merge r other =
     \<lparr>mv_entries =
        mv_keep (mv_entries r) (mv_clock r) (mv_entries other)
          (mv_keep (mv_entries other) (mv_clock other) (mv_entries r) []),
      mv_clock = merge_clock (mv_clock other) (gcopy [] (mv_clock r)),
      mv_dirty = False\<rparr>"

definition mv_Delta :: "'v mvregister \<Rightarrow> 'v mvregister option" where
  "mv_Delta r = (if \<not> mv_dirty r then None else Some (mv_cloneInternal r))"

definition mv_ResetDelta :: "'v mvregister \<Rightarrow> 'v mvregister" where
  "mv_ResetDelta r = r\<lparr>mv_dirty := False\<rparr>"

definition mv_RawState :: "'v mvregister \<Rightarrow> 'v mventry list \<times> (string, u64) gomap" where
  "mv_RawState r =
     (map (\<lambda>e. \<lparr>mv_value = mv_value e,
                mv_dot = \<lparr>nodeID = nodeID (mv_dot e), counter = counter (mv_dot e)\<rparr>\<rparr>) (mv_entries r),
      gcopy [] (mv_clock r))"

definition MVRegisterFromRawState :: "'v mventry list \<Rightarrow> (string, u64) gomap \<Rightarrow> 'v mvregister" where
  "MVRegisterFromRawState es clock =
     \<lparr>mv_entries =
        map (\<lambda>e. \<lparr>mv_value = mv_value e,
                   mv_dot = \<lparr>nodeID = nodeID (mv_dot e), counter = counter (mv_dot e)\<rparr>\<rparr>) es,
      mv_clock = gcopy [] clock, mv_dirty = False\<rparr>"

text \<open>
  The register refines the dot store of the contract theory. \<open>written\<close> says which value each
  dot was written with; dots identify writes, so all replicas agree on it.
\<close>

definition mv_store :: "'v mvregister \<Rightarrow> 'v store" where
  "mv_store r = ((\<lambda>e. (mv_value e, mv_dot e)) ` set (mv_entries r), gget0 (mv_clock r))"

definition mv_ok :: "(dot \<Rightarrow> 'v) \<Rightarrow> 'v mvregister \<Rightarrow> bool" where
  "mv_ok written r \<longleftrightarrow>
     keys_ok (mv_clock r) \<and> distinct (map mv_dot (mv_entries r)) \<and> store_ok (mv_store r) \<and>
     (\<forall>e \<in> set (mv_entries r). mv_value e = written (mv_dot e))"

lemma containsMVDot_iff [simp]: "containsMVDot es d \<longleftrightarrow> d \<in> mv_dot ` set es"
  by (induction es) auto

lemma mv_keep_dots:
  "mv_dot ` set (mv_keep oe oc es acc) =
     mv_dot ` set acc \<union> {d \<in> mv_dot ` set es. \<not> isDominated d oc \<or> d \<in> mv_dot ` set oe}"
  by (induction es arbitrary: acc) (auto simp: mv_keep_def appendMVEntryUnique_def)

lemma mv_keep_subset: "set (mv_keep oe oc es acc) \<subseteq> set acc \<union> set es"
proof (induction es arbitrary: acc)
  case (Cons e es)
  have "set (mv_keep oe oc (e # es) acc) \<subseteq> set (appendMVEntryUnique acc e) \<union> set acc \<union> set es"
    using Cons [of acc] Cons [of "appendMVEntryUnique acc e"] by (auto simp: mv_keep_def)
  then show ?case by (auto simp: appendMVEntryUnique_def split: if_splits)
qed (simp add: mv_keep_def)

lemma mv_keep_distinct: "distinct (map mv_dot acc) \<Longrightarrow> distinct (map mv_dot (mv_keep oe oc es acc))"
  by (induction es arbitrary: acc) (auto simp: mv_keep_def appendMVEntryUnique_def)

lemma mv_entries_Merge: "set (mv_entries (mv_Merge r s)) \<subseteq> set (mv_entries r) \<union> set (mv_entries s)"
  using mv_keep_subset [of "mv_entries s" "mv_clock s" "mv_entries r" "[]"]
    mv_keep_subset [of "mv_entries r" "mv_clock r" "mv_entries s"]
  by (fastforce simp: mv_Merge_def)

lemma mv_written_Merge:
  "mv_ok w r \<Longrightarrow> mv_ok w s \<Longrightarrow> e \<in> set (mv_entries (mv_Merge r s)) \<Longrightarrow> mv_value e = w (mv_dot e)"
  using mv_entries_Merge [of r s] by (auto simp: mv_ok_def)

text \<open>With the written values known, the pairs of a store are determined by its dots.\<close>

lemma mv_store_dots:
  "\<forall>e \<in> set (mv_entries r). mv_value e = w (mv_dot e) \<Longrightarrow>
     mv_store r = ((\<lambda>d. (w d, d)) ` mv_dot ` set (mv_entries r), gget0 (mv_clock r))"
  by (force simp: mv_store_def image_image)

lemma mv_store_Merge:
  assumes "mv_ok w r" "mv_ok w s"
  shows "mv_store (mv_Merge r s) = store_join (mv_store r) (mv_store s)"
proof -
  let ?p = "\<lambda>d. (w d, d)"
  have dots: "mv_dot ` set (mv_entries (mv_Merge r s)) =
      {d \<in> mv_dot ` set (mv_entries r). \<not> covers (gget0 (mv_clock s)) d \<or> d \<in> mv_dot ` set (mv_entries s)} \<union>
      {d \<in> mv_dot ` set (mv_entries s). \<not> covers (gget0 (mv_clock r)) d \<or> d \<in> mv_dot ` set (mv_entries r)}"
    by (auto simp: mv_Merge_def mv_keep_dots isDominated_covers)
  have clk: "gget0 (mv_clock (mv_Merge r s)) = clock_join (gget0 (mv_clock r)) (gget0 (mv_clock s))"
    using assms by (simp add: mv_Merge_def gget0_merge_clock mv_ok_def)
  have inj: "inj ?p" by (simp add: inj_def)
  have "mv_store (mv_Merge r s) =
      (?p ` mv_dot ` set (mv_entries (mv_Merge r s)), gget0 (mv_clock (mv_Merge r s)))"
    using assms by (intro mv_store_dots) (auto intro: mv_written_Merge)
  also have "\<dots> = store_join (?p ` mv_dot ` set (mv_entries r), gget0 (mv_clock r))
                           (?p ` mv_dot ` set (mv_entries s), gget0 (mv_clock s))"
    unfolding dots clk store_join_def by (auto simp: inj_image_mem_iff [OF inj])
  finally show ?thesis
    using assms by (simp add: mv_ok_def mv_store_dots [of _ w])
qed

lemma mv_ok_Merge:
  assumes "mv_ok w r" "mv_ok w s"
  shows "mv_ok w (mv_Merge r s)"
proof -
  have "keys_ok (mv_clock (mv_Merge r s))" "distinct (map mv_dot (mv_entries (mv_Merge r s)))"
    by (simp_all add: mv_Merge_def keys_ok_merge_clock mv_keep_distinct)
  moreover have "store_ok (mv_store (mv_Merge r s))"
    using assms store_ok_join by (metis mv_store_Merge mv_ok_def)
  ultimately show ?thesis
    using mv_written_Merge [OF assms] by (simp add: mv_ok_def)
qed

interpretation mvregister: replicated_data "mv_ok w" mv_store mv_Merge
  for w :: "dot \<Rightarrow> 'v"
proof unfold_locales
  fix a b c :: "'v mvregister"
  assume ok: "mv_ok w a" "mv_ok w b"
  then show "mv_ok w (mv_Merge a b)" by (rule mv_ok_Merge)
  show "mv_store (mv_Merge a b) = mv_store (mv_Merge b a)"
    using ok by (simp add: mv_store_Merge store_join_commute)
  show "mv_store (mv_Merge (mv_Merge a b) c) = mv_store (mv_Merge a (mv_Merge b c))" if "mv_ok w c"
  proof -
    have "store_ok (mv_store a)" "store_ok (mv_store b)" "store_ok (mv_store c)"
      using ok that by (auto simp: mv_ok_def)
    then show ?thesis
      using ok that by (simp add: mv_store_Merge [of w] mv_ok_Merge store_join_assoc)
  qed
qed (auto simp: mv_store_Merge store_join_idem)

subsection \<open>Writes to a multi-value register\<close>

abbreviation mv_seen :: "'v mvregister \<Rightarrow> string \<Rightarrow> u64" where
  "mv_seen r \<equiv> gget0 (mv_clock r)"

definition mv_newdot :: "'v mvregister \<Rightarrow> string \<Rightarrow> dot" where
  "mv_newdot r n = \<lparr>nodeID = n, counter = mv_seen r n + 1\<rparr>"

lemma mv_store_Set:
  "mv_store (mv_Set r n v) = ({(v, mv_newdot r n)}, (mv_seen r)(n := mv_seen r n + 1))"
  by (auto simp: mv_store_def mv_Set_def mv_cloneInternal_def mv_newdot_def Let_def gget0_gset fun_eq_iff)

lemma mv_ok_New: "mv_ok w NewMVRegister"
  by (simp add: mv_ok_def NewMVRegister_def mv_store_def store_ok_def)

lemma mv_ok_clone: "mv_ok w r \<Longrightarrow> mv_ok w (mv_cloneInternal r)"
  by (auto simp: mv_ok_def mv_cloneInternal_def mv_store_def store_ok_def)

lemma mv_ok_ResetDelta: "mv_ok w r \<Longrightarrow> mv_ok w (mv_ResetDelta r)"
  by (auto simp: mv_ok_def mv_ResetDelta_def mv_store_def store_ok_def)

lemma mv_ok_Set:
  "mv_ok w r \<Longrightarrow> w (mv_newdot r n) = v \<Longrightarrow> mv_ok w (mv_Set r n v)"
  using mv_store_Set [of r n v]
  by (auto simp: mv_ok_def store_ok_def covers_def mv_newdot_def mv_Set_def mv_cloneInternal_def
      Let_def gget0_gset)

lemma mv_Values_store: "set (mv_Values r) = fst ` fst (mv_store r)"
  by (simp add: mv_Values_def mv_store_def image_image)

lemma mv_length_Values: "mv_ok w r \<Longrightarrow> length (mv_Values r) = card (fst (mv_store r))"
proof -
  assume ok: "mv_ok w r"
  have "distinct (map (\<lambda>e. (mv_value e, mv_dot e)) (mv_entries r))"
    using ok by (auto simp: mv_ok_def distinct_map inj_on_def)
  then have "card (set (map (\<lambda>e. (mv_value e, mv_dot e)) (mv_entries r))) = length (mv_entries r)"
    by (metis distinct_card length_map)
  then show ?thesis by (simp add: mv_store_def mv_Values_def)
qed

lemma mv_store_covered: "mv_ok w r \<Longrightarrow> p \<in> fst (mv_store r) \<Longrightarrow> covers (mv_seen r) (snd p)"
  by (auto simp: mv_ok_def store_ok_def mv_store_def)

lemma mv_seen_Set: "mv_seen (mv_Set r n v) = (mv_seen r)(n := mv_seen r n + 1)"
  using arg_cong [OF mv_store_Set, of snd r n v] by (simp add: mv_store_def)

lemma mv_seen_New: "mv_seen NewMVRegister n = 0"
  by (simp add: NewMVRegister_def)

subsection \<open>Properties\<close>

text \<open>
  C17. Last writer wins: after merging any states, a register holds the value of one of them,
  and none of the merged writes has a later timestamp, or the same timestamp and a higher node.
\<close>

theorem lww_last_writer:
  "\<exists>r \<in> insert a (set xs). lww_abs (foldl lww_Merge a xs) = lww_abs r \<and>
     (\<forall>r' \<in> insert a (set xs). \<not> stamp_less (lww_stamp r) (lww_stamp r'))"
proof (induction xs arbitrary: a)
  case Nil
  then show ?case by (simp add: stamp_less_def)
next
  case (Cons x xs)
  let ?m = "lww_Merge a x"
  have top: "\<not> stamp_less (lww_stamp ?m) (lww_stamp a)" "\<not> stamp_less (lww_stamp ?m) (lww_stamp x)"
    by (auto simp: lww_stamp_Merge stamp_max_def dest: stamp_less_asym)
  obtain r where r: "r \<in> insert ?m (set xs)" "lww_abs (foldl lww_Merge ?m xs) = lww_abs r"
      "\<forall>r' \<in> insert ?m (set xs). \<not> stamp_less (lww_stamp r) (lww_stamp r')"
    using Cons.IH by blast
  have max: "\<not> stamp_less (lww_stamp r) (lww_stamp y)" if "y \<in> insert a (insert x (set xs))" for y
    using that r(3) top by (auto simp: stamp_less_def)
  show ?case
  proof (cases "r = ?m")
    case True
    then obtain r0 where "r0 \<in> {a, x}" "lww_abs r = lww_abs r0"
      using lww_Merge_winner [of a x] by (auto split: if_splits)
    moreover from this have "lww_stamp r0 = lww_stamp r" by (simp add: lww_abs_def)
    ultimately show ?thesis using r(2) max by (intro bexI [of _ r0]) auto
  next
    case False
    then show ?thesis using r max by (intro bexI [of _ r]) auto
  qed
qed

theorem lww_last_writer_witness:
  "let a = lww_Set (NewLWWRegister 0) (1::nat) 5 ''A''; b = lww_Set (NewLWWRegister 0) 2 9 ''A''
   in \<exists>r. r \<in> {a, b} \<and> lww_abs (foldl lww_Merge a [b]) = lww_abs r \<and> \<not> stamp_less (lww_stamp r) (lww_stamp b)"
  using lww_last_writer [of "lww_Set (NewLWWRegister 0) (1::nat) 5 ''A''"
      "[lww_Set (NewLWWRegister 0) 2 9 ''A'']"]
  by (auto simp: Let_def)

text \<open>
  C18. Last-writer-wins registers converge when a stamp (timestamp and node) identifies the
  written value.
\<close>

theorem lww_convergence:
  assumes "lww_ok w a" "lww_ok w b" "\<forall>x \<in> set xs. lww_ok w x" "\<forall>y \<in> set ys. lww_ok w y"
    and "insert a (set xs) = insert b (set ys)"
  shows "lww_abs (foldl lww_Merge a xs) = lww_abs (foldl lww_Merge b ys)"
  using assms by (rule lww.convergence)

theorem lww_convergence_witness:
  "let a = lww_Set (NewLWWRegister 0) (1::nat) 5 ''A''; b = lww_Set (NewLWWRegister 0) 2 5 ''B''
   in lww_abs (foldl lww_Merge a [b, a]) = lww_abs (foldl lww_Merge b [a])"
  unfolding Let_def
  by (rule lww_convergence [where w = "\<lambda>s. if snd s = ''A'' then 1 else 2"])
    (auto simp: lww_ok_def lww_stamp_def lww_Set_def)

text \<open>
  C19. A write to a multi-value register supersedes everything the register has observed:
  merging the written register with a replica that is not ahead of it leaves the new value only.
\<close>

theorem mv_set_supersedes:
  assumes "mv_ok w (mv_Set r n v)" "mv_ok w p" "mv_seen r n < max_u64" "\<forall>m. mv_seen p m \<le> mv_seen r m"
  shows "mv_Values (mv_Merge (mv_Set r n v) p) = [v]"
proof -
  let ?s = "mv_Set r n v" and ?d = "mv_newdot r n"
  have lt: "mv_seen r n < mv_seen r n + 1" by (rule u64_less_Suc) fact
  have new: "\<not> covers (mv_seen p) ?d"
    using assms(4) lt by (auto simp: covers_def mv_newdot_def not_le intro: le_less_trans)
  have old: "covers (snd (mv_store ?s)) (snd q)" "snd q \<noteq> ?d" if "q \<in> fst (mv_store p)" for q
  proof -
    have "covers (mv_seen p) (snd q)" using assms(2) that by (rule mv_store_covered)
    then have "covers (mv_seen r) (snd q)"
      using assms(4) by (auto simp: covers_def intro: order_trans)
    then show "covers (snd (mv_store ?s)) (snd q)" "snd q \<noteq> ?d"
      using covers_fresh [where c = "mv_seen r" and n = n, OF assms(3)]
      by (auto simp: mv_store_Set mv_newdot_def)
  qed
  have "fst (mv_store (mv_Merge ?s p)) = {(v, ?d)}"
    unfolding mv_store_Merge [OF assms(1,2)] store_join_def
    using new old by (auto simp: mv_store_Set) (auto simp: mv_store_def)
  then show ?thesis
    using mv_length_Values [OF mv_ok_Merge [OF assms(1,2)]] mv_Values_store [of "mv_Merge ?s p"]
    by (auto simp: length_Suc_conv)
qed

theorem mv_set_supersedes_witness:
  "let r = mv_Set NewMVRegister ''A'' (1::nat) in mv_Values (mv_Merge (mv_Set r ''A'' 2) r) = [2]"
  unfolding Let_def
  by (rule mv_set_supersedes [where w = "\<lambda>d. unat (counter d)"])
    (auto intro!: mv_ok_Set mv_ok_New simp: mv_newdot_def mv_seen_Set mv_seen_New)

text \<open>
  C20. Concurrent writes are all kept: two replicas of the same state on different nodes each
  write a value, and the merge holds exactly the two values.
\<close>

theorem mv_concurrent_kept:
  assumes "mv_ok w (mv_Set r n v)" "mv_ok w (mv_Set r m u)" "n \<noteq> m"
    "mv_seen r n < max_u64" "mv_seen r m < max_u64"
  shows "set (mv_Values (mv_Merge (mv_Set r n v) (mv_Set r m u))) = {v, u} \<and>
    length (mv_Values (mv_Merge (mv_Set r n v) (mv_Set r m u))) = 2"
proof -
  have "\<not> covers ((mv_seen r)(m := mv_seen r m + 1)) (mv_newdot r n)"
    "\<not> covers ((mv_seen r)(n := mv_seen r n + 1)) (mv_newdot r m)"
    using assms(3) u64_less_Suc [OF assms(4)] u64_less_Suc [OF assms(5)]
    by (auto simp: covers_def mv_newdot_def)
  then have "fst (mv_store (mv_Merge (mv_Set r n v) (mv_Set r m u))) =
      {(v, mv_newdot r n), (u, mv_newdot r m)}"
    unfolding mv_store_Merge [OF assms(1,2)] by (auto simp: store_join_def mv_store_Set)
  moreover have "mv_newdot r n \<noteq> mv_newdot r m" using assms(3) by (simp add: mv_newdot_def)
  ultimately show ?thesis
    using mv_length_Values [OF mv_ok_Merge [OF assms(1,2)]]
    by (simp add: mv_Values_store)
qed

theorem mv_concurrent_kept_witness:
  "set (mv_Values (mv_Merge (mv_Set NewMVRegister ''A'' (1::nat)) (mv_Set NewMVRegister ''B'' 2))) = {1, 2} \<and>
   length (mv_Values (mv_Merge (mv_Set NewMVRegister ''A'' (1::nat)) (mv_Set NewMVRegister ''B'' 2))) = 2"
  by (rule mv_concurrent_kept [where w = "\<lambda>d. if nodeID d = ''A'' then 1 else 2"])
    (auto intro!: mv_ok_Set mv_ok_New simp: mv_newdot_def mv_seen_New)

text \<open>
  C21. Multi-value registers converge when a dot identifies the write: replicas that received
  the same states hold the same values with the same dots, and the same clock.
\<close>

theorem mv_convergence:
  assumes "mv_ok w a" "mv_ok w b" "\<forall>x \<in> set xs. mv_ok w x" "\<forall>y \<in> set ys. mv_ok w y"
    and "insert a (set xs) = insert b (set ys)"
  shows "mv_store (foldl mv_Merge a xs) = mv_store (foldl mv_Merge b ys) \<and>
    set (mv_Values (foldl mv_Merge a xs)) = set (mv_Values (foldl mv_Merge b ys))"
  using mvregister.convergence [OF assms] by (simp add: mv_Values_store)

theorem mv_convergence_witness:
  "let a = mv_Set NewMVRegister ''A'' (1::nat); b = mv_Set NewMVRegister ''B'' 2
   in mv_store (foldl mv_Merge a [b, a]) = mv_store (foldl mv_Merge b [a]) \<and>
      set (mv_Values (foldl mv_Merge a [b, a])) = set (mv_Values (foldl mv_Merge b [a]))"
  unfolding Let_def
  by (rule mv_convergence [where w = "\<lambda>d. if nodeID d = ''A'' then 1 else 2"])
    (auto intro!: mv_ok_Set mv_ok_New simp: mv_newdot_def)

end
