(* ===== verification/Or_Set.thy ===== *)
theory Or_Set
  imports Crdt_Spec
begin

section \<open>ORSet\<close>

text \<open>
  \<^verbatim>\<open>src/crdt/or_set.go\<close>: the observed-remove set. Elements are a type parameter. A slice of
  dots is a list; copying a slice has no effect on values that are never updated in place.
\<close>

record 'e orset_delta =
  od_added :: "('e, dot list) gomap"
  od_removed :: "('e, dot list) gomap"

record 'e orset =
  os_entries :: "('e, dot list) gomap"
  os_clock :: "(string, u64) gomap"
  os_delta :: "'e orset_delta"

record 'e os_entry =
  Element :: 'e
  Dots :: "dot list"

definition newORSetDelta :: "'e orset_delta" where
  "newORSetDelta = \<lparr>od_added = [], od_removed = []\<rparr>"

definition cloneDots :: "dot list \<Rightarrow> dot list" where
  "cloneDots dots = map (\<lambda>d. \<lparr>nodeID = nodeID d, counter = counter d\<rparr>) dots"

definition clone_dot_map :: "('e, dot list) gomap \<Rightarrow> ('e, dot list) gomap" where
  "clone_dot_map m = foldr (\<lambda>(e, dots) out. gset e (cloneDots dots) out) m []"

definition orSetDelta_clone :: "'e orset_delta \<Rightarrow> 'e orset_delta" where
  "orSetDelta_clone d = \<lparr>od_added = clone_dot_map (od_added d), od_removed = clone_dot_map (od_removed d)\<rparr>"

definition NewORSet :: "'e orset" where
  "NewORSet = \<lparr>os_entries = [], os_clock = [], os_delta = newORSetDelta\<rparr>"

definition os_shallowCopy :: "'e orset \<Rightarrow> 'e orset" where
  "os_shallowCopy s =
     \<lparr>os_entries = gcopy [] (os_entries s), os_clock = gcopy [] (os_clock s),
      os_delta = orSetDelta_clone (os_delta s)\<rparr>"

definition os_cloneInternal :: "'e orset \<Rightarrow> 'e orset" where
  "os_cloneInternal s =
     \<lparr>os_entries = clone_dot_map (os_entries s), os_clock = gcopy [] (os_clock s),
      os_delta = orSetDelta_clone (os_delta s)\<rparr>"

definition os_Add :: "'e orset \<Rightarrow> string \<Rightarrow> 'e \<Rightarrow> 'e orset" where
  "os_Add s node el =
     (let out = os_shallowCopy s;
          clk = gset node (gget0 (os_clock out) node + 1) (os_clock out);
          d = \<lparr>nodeID = node, counter = gget0 clk node\<rparr>;
          newDots = ggetl (os_entries out) el @ [d];
          added = od_added (os_delta out)
      in out\<lparr>os_clock := clk,
             os_entries := gset el newDots (os_entries out),
             os_delta := (os_delta out)\<lparr>od_added := gset el (ggetl added el @ [d]) added\<rparr>\<rparr>)"

definition os_Remove :: "'e orset \<Rightarrow> 'e \<Rightarrow> 'e orset" where
  "os_Remove s el =
     (case map_of (os_entries s) el of
        None \<Rightarrow> s
      | Some dots \<Rightarrow>
          (let out = os_shallowCopy s; removed = od_removed (os_delta out)
           in out\<lparr>os_delta := (os_delta out)\<lparr>od_removed := gset el (ggetl removed el @ dots) removed\<rparr>,
                  os_entries := gdel el (os_entries out)\<rparr>))"

definition os_Contains :: "'e orset \<Rightarrow> 'e \<Rightarrow> bool" where
  "os_Contains s el = (case map_of (os_entries s) el of None \<Rightarrow> False | Some dots \<Rightarrow> length dots > 0)"

definition os_Elements :: "'e orset \<Rightarrow> 'e list" where
  "os_Elements s =
     foldl (\<lambda>result (el, dots). if length dots > 0 then result @ [el] else result) [] (os_entries s)"

definition os_Len :: "'e orset \<Rightarrow> nat" where
  "os_Len s = foldl (\<lambda>cnt (_, dots). if length dots > 0 then cnt + 1 else cnt) 0 (os_entries s)"

fun containsDot :: "dot list \<Rightarrow> dot \<Rightarrow> bool" where
  "containsDot [] target = False"
| "containsDot (d # ds) target =
     (if nodeID d = nodeID target \<and> counter d = counter target then True else containsDot ds target)"

definition appendDotUnique :: "dot list \<Rightarrow> dot \<Rightarrow> dot list" where
  "appendDotUnique dots d = (if containsDot dots d then dots else dots @ [d])"

definition keep_dots :: "dot list \<Rightarrow> (string, u64) gomap \<Rightarrow> dot list \<Rightarrow> dot list \<Rightarrow> dot list" where
  "keep_dots otherDots otherClock dots kept =
     foldl (\<lambda>kept d.
        if \<not> isDominated d otherClock \<or> containsDot otherDots d then appendDotUnique kept d else kept)
       kept dots"

definition os_kept :: "'e orset \<Rightarrow> 'e orset \<Rightarrow> 'e \<Rightarrow> dot list" where
  "os_kept s other el =
     keep_dots (ggetl (os_entries s) el) (os_clock s) (ggetl (os_entries other) el)
       (keep_dots (ggetl (os_entries other) el) (os_clock other) (ggetl (os_entries s) el) [])"

definition os_Merge :: "'e orset \<Rightarrow> 'e orset \<Rightarrow> 'e orset" where
  "os_Merge s other =
     (let mergedClock = merge_clock (os_clock other) (gcopy [] (os_clock s));
          allElements = foldr (\<lambda>(el, _) m. gset el () m) (os_entries other)
                          (foldr (\<lambda>(el, _) m. gset el () m) (os_entries s) [])
      in \<lparr>os_entries =
            foldr (\<lambda>(el, _) m. let kept = os_kept s other el
                              in if length kept > 0 then gset el kept m else m) allElements [],
          os_clock = mergedClock,
          os_delta = newORSetDelta\<rparr>)"

definition raise_clock :: "(string, u64) gomap \<Rightarrow> string \<Rightarrow> u64 \<Rightarrow> (string, u64) gomap" where
  "raise_clock clk node c = (if c > gget0 clk node then gset node c clk else clk)"

definition os_Delta :: "'e orset \<Rightarrow> 'e orset option" where
  "os_Delta s =
     (if od_added (os_delta s) = [] \<and> od_removed (os_delta s) = [] then None
      else
        let added = od_added (os_delta s);
            clk1 = foldr (\<lambda>(_, dots) clk.
                     foldl (\<lambda>clk dt.
                        case map_of (os_clock s) (nodeID dt) of
                          None \<Rightarrow> clk
                        | Some c \<Rightarrow> raise_clock clk (nodeID dt) c) clk (cloneDots dots)) added [];
            clk2 = foldr (\<lambda>(_, dots) clk. foldl (\<lambda>clk dt. raise_clock clk (nodeID dt) (counter dt)) clk dots)
                     (od_removed (os_delta s)) clk1
        in Some \<lparr>os_entries = clone_dot_map added, os_clock = clk2, os_delta = newORSetDelta\<rparr>)"

definition os_ResetDelta :: "'e orset \<Rightarrow> 'e orset" where
  "os_ResetDelta s = s\<lparr>os_delta := newORSetDelta\<rparr>"

definition os_RawState :: "'e orset \<Rightarrow> 'e os_entry list \<times> (string, u64) gomap" where
  "os_RawState s =
     (foldl (\<lambda>result (el, dots).
         if length dots = 0 then result
         else result @ [\<lparr>Element = el, Dots = map (\<lambda>d. \<lparr>nodeID = nodeID d, counter = counter d\<rparr>) dots\<rparr>])
        [] (os_entries s),
      gcopy [] (os_clock s))"

definition ORSetFromRawState :: "'e os_entry list \<Rightarrow> (string, u64) gomap \<Rightarrow> 'e orset" where
  "ORSetFromRawState es clock =
     \<lparr>os_entries = foldl (\<lambda>m e. gset (Element e)
                         (map (\<lambda>d. \<lparr>nodeID = nodeID d, counter = counter d\<rparr>) (Dots e)) m) [] es,
      os_clock = gcopy [] clock,
      os_delta = newORSetDelta\<rparr>"

definition highest_dots :: "dot list \<Rightarrow> (string, dot) gomap" where
  "highest_dots dots =
     foldl (\<lambda>highest d.
        case map_of highest (nodeID d) of
          None \<Rightarrow> gset (nodeID d) d highest
        | Some existing \<Rightarrow> if counter d > counter existing then gset (nodeID d) d highest else highest)
       [] dots"

definition os_Compact :: "'e orset \<Rightarrow> 'e orset" where
  "os_Compact s =
     \<lparr>os_entries =
        foldr (\<lambda>(el, dots) m.
           if length dots = 0 then m
           else gset el (foldl (\<lambda>compacted (_, d). compacted @ [d]) [] (highest_dots dots)) m)
          (os_entries s) [],
      os_clock = gcopy [] (os_clock s),
      os_delta = newORSetDelta\<rparr>"

subsection \<open>The set as a dot store\<close>

definition os_store :: "'e orset \<Rightarrow> 'e store" where
  "os_store s = ({(e, d). d \<in> set (ggetl (os_entries s) e)}, gget0 (os_clock s))"

definition os_ok :: "'e orset \<Rightarrow> bool" where
  "os_ok s \<longleftrightarrow> keys_ok (os_entries s) \<and> keys_ok (os_clock s) \<and> store_ok (os_store s)"

lemma dot_eta [simp]: "\<lparr>nodeID = nodeID d, counter = counter d\<rparr> = d"
  by simp

lemma cloneDots_id [simp]: "cloneDots ds = ds"
  by (simp add: cloneDots_def)

lemma clone_dot_map_copy: "clone_dot_map m = gcopy [] m"
  by (simp add: clone_dot_map_def gcopy_def)

lemma containsDot_iff [simp]: "containsDot ds d \<longleftrightarrow> d \<in> set ds"
  by (induction ds) auto

lemma os_store_pair: "(e, d) \<in> fst (os_store s) \<longleftrightarrow> d \<in> set (ggetl (os_entries s) e)"
  by (simp add: os_store_def)

lemma snd_os_store [simp]: "snd (os_store s) = gget0 (os_clock s)"
  by (simp add: os_store_def)

lemma set_keep_dots:
  "set (keep_dots od oc ds kept) = set kept \<union> {d \<in> set ds. \<not> covers (gget0 oc) d \<or> d \<in> set od}"
  by (induction ds arbitrary: kept)
    (auto simp: keep_dots_def appendDotUnique_def isDominated_covers)

lemma set_os_kept:
  "set (os_kept s t el) = {d. (el, d) \<in> fst (store_join (os_store s) (os_store t))}"
  by (auto simp: os_kept_def set_keep_dots store_join_def os_store_def)

text \<open>The loop over all elements: an element gets its kept dots, and an empty list is never stored.\<close>

lemma map_of_fill:
  "map_of (foldr (\<lambda>(el, _) m. if f el \<noteq> [] then gset el (f el) m else m) xs []) e =
     (if map_of xs e \<noteq> None \<and> f e \<noteq> [] then Some (f e) else None)"
  by (induction xs) auto

lemma keys_ok_fill:
  "keys_ok (foldr (\<lambda>(el, _) m. if f el \<noteq> [] then gset el (f el) m else m) xs [])"
  by (induction xs) auto

lemma map_of_all_elements:
  "map_of (foldr (\<lambda>(el, _) m. gset el () m) xs ys) e = (if map_of xs e = None then map_of ys e else Some ())"
  by (induction xs) auto

lemma ggetl_None: "map_of m e = None \<Longrightarrow> ggetl m e = []"
  by (simp add: ggetl_def)

lemma os_kept_absent:
  "map_of (os_entries s) e = None \<Longrightarrow> map_of (os_entries t) e = None \<Longrightarrow> os_kept s t e = []"
  by (simp add: os_kept_def keep_dots_def ggetl_None)

lemma ggetl_Merge: "ggetl (os_entries (os_Merge s t)) e = os_kept s t e"
  using os_kept_absent [of s e t]
  by (auto simp: os_Merge_def Let_def ggetl_def map_of_fill map_of_all_elements
      split: option.splits)

lemma os_Merge_nonempty: "map_of (os_entries (os_Merge s t)) e = Some ds \<Longrightarrow> ds \<noteq> []"
  by (auto simp: os_Merge_def Let_def map_of_fill split: if_splits)

lemma os_store_Merge:
  assumes "keys_ok (os_clock t)"
  shows "os_store (os_Merge s t) = store_join (os_store s) (os_store t)"
proof (rule prod_eqI)
  show "fst (os_store (os_Merge s t)) = fst (store_join (os_store s) (os_store t))"
    by (auto simp: os_store_def ggetl_Merge set_os_kept [unfolded os_store_def])
  show "snd (os_store (os_Merge s t)) = snd (store_join (os_store s) (os_store t))"
    using assms by (simp add: os_store_def os_Merge_def Let_def gget0_merge_clock store_join_def)
qed

lemma os_ok_Merge: "os_ok s \<Longrightarrow> os_ok t \<Longrightarrow> os_ok (os_Merge s t)"
proof -
  assume ok: "os_ok s" "os_ok t"
  have "keys_ok (os_entries (os_Merge s t))" "keys_ok (os_clock (os_Merge s t))"
    by (simp_all add: os_Merge_def Let_def keys_ok_fill keys_ok_merge_clock)
  moreover have "store_ok (os_store (os_Merge s t))"
    using ok os_store_Merge [of t s] by (simp add: os_ok_def store_ok_join)
  ultimately show ?thesis by (simp add: os_ok_def)
qed

interpretation orset: replicated_data os_ok os_store os_Merge
proof unfold_locales
  fix a b c :: "'e orset"
  assume ok: "os_ok a" "os_ok b"
  then show "os_ok (os_Merge a b)" by (rule os_ok_Merge)
  show "os_store (os_Merge a b) = os_store (os_Merge b a)"
    using ok by (simp add: os_store_Merge os_ok_def store_join_commute)
  show "os_store (os_Merge (os_Merge a b) c) = os_store (os_Merge a (os_Merge b c))" if "os_ok c"
    using ok that os_ok_Merge [of b c] by (simp add: os_store_Merge os_ok_def store_join_assoc)
qed (auto simp: os_store_Merge os_ok_def store_join_idem)

text \<open>Membership is membership of some live dot.\<close>

lemma os_Contains_store: "os_Contains s e \<longleftrightarrow> (\<exists>d. (e, d) \<in> fst (os_store s))"
proof -
  have "ds \<noteq> [] \<longleftrightarrow> (\<exists>d. d \<in> set ds)" for ds :: "dot list"
    by (simp add: ex_in_conv)
  then show ?thesis
    by (auto simp: os_Contains_def os_store_def ggetl_def split: option.splits)
qed

lemma os_Elements_filter: "os_Elements s = map fst (filter (\<lambda>(_, ds). ds \<noteq> []) (os_entries s))"
proof -
  have "foldl (\<lambda>result (el, dots). if length dots > 0 then result @ [el] else result) acc xs =
      acc @ map fst (filter (\<lambda>(_, ds). ds \<noteq> []) xs)" for acc :: "'a list" and xs :: "('a, dot list) gomap"
    by (induction xs arbitrary: acc) auto
  then show ?thesis by (simp add: os_Elements_def)
qed

lemma os_Len_filter: "os_Len s = length (filter (\<lambda>(_, ds). ds \<noteq> []) (os_entries s))"
proof -
  have "foldl (\<lambda>cnt (_, dots). if length dots > 0 then cnt + 1 else cnt) acc xs =
      acc + length (filter (\<lambda>(_, ds). ds \<noteq> []) xs)" for acc :: nat and xs :: "('a, dot list) gomap"
    by (induction xs arbitrary: acc) auto
  then show ?thesis by (simp add: os_Len_def)
qed

lemma set_os_Elements: "os_ok s \<Longrightarrow> set (os_Elements s) = {e. os_Contains s e}"
  by (force simp: os_Elements_filter os_Contains_def os_ok_def keys_ok_map_of split: option.splits)

lemma distinct_os_Elements: "os_ok s \<Longrightarrow> distinct (os_Elements s)"
  by (simp add: os_Elements_filter os_ok_def keys_ok_def distinct_map_filter)

lemma os_Len_Elements: "os_Len s = length (os_Elements s)"
  by (simp add: os_Len_filter os_Elements_filter)

subsection \<open>Operations on the store\<close>

definition os_newdot :: "'e orset \<Rightarrow> string \<Rightarrow> dot" where
  "os_newdot s n = \<lparr>nodeID = n, counter = gget0 (os_clock s) n + 1\<rparr>"

lemma os_store_Add:
  "os_store (os_Add s n el) =
     (insert (el, os_newdot s n) (fst (os_store s)), (gget0 (os_clock s))(n := gget0 (os_clock s) n + 1))"
  by (auto simp: os_store_def os_Add_def os_shallowCopy_def os_newdot_def Let_def gomap_simps fun_eq_iff
      split: if_splits)

lemma os_store_Remove:
  "os_store (os_Remove s el) = ({p \<in> fst (os_store s). fst p \<noteq> el}, gget0 (os_clock s))"
  by (auto simp: os_store_def os_Remove_def os_shallowCopy_def Let_def gomap_simps ggetl_None
      split: option.splits if_splits)

lemma os_clock_ops [simp]:
  "gget0 (os_clock NewORSet) = (\<lambda>_. 0)"
  "gget0 (os_clock (os_Add s n el)) = (gget0 (os_clock s))(n := gget0 (os_clock s) n + 1)"
  "gget0 (os_clock (os_Remove s el)) = gget0 (os_clock s)"
  using arg_cong [OF os_store_Add, of snd s n el] arg_cong [OF os_store_Remove, of snd s el]
  by (simp_all add: NewORSet_def fun_eq_iff)

lemma os_store_copies [simp]:
  "os_store (os_shallowCopy s) = os_store s"
  "os_store (os_cloneInternal s) = os_store s"
  "os_store (os_ResetDelta s) = os_store s"
  "os_store (os_delta_update f s) = os_store s"
  by (simp_all add: os_store_def os_shallowCopy_def os_cloneInternal_def os_ResetDelta_def clone_dot_map_copy)

lemma os_ok_New: "os_ok NewORSet"
  by (simp add: os_ok_def NewORSet_def os_store_def store_ok_def)

lemma os_ok_copies:
  "os_ok s \<Longrightarrow> os_ok (os_shallowCopy s)"
  "os_ok s \<Longrightarrow> os_ok (os_cloneInternal s)"
  "os_ok s \<Longrightarrow> os_ok (os_ResetDelta s)"
  by (auto simp: os_ok_def)
    (auto simp: os_shallowCopy_def os_cloneInternal_def os_ResetDelta_def clone_dot_map_copy)

lemma os_ok_Remove: "os_ok s \<Longrightarrow> os_ok (os_Remove s el)"
proof -
  assume ok: "os_ok s"
  then have "store_ok (os_store s)" by (simp add: os_ok_def)
  then have "store_ok (os_store (os_Remove s el))"
    unfolding os_store_Remove by (auto simp: store_ok_def os_store_def)
  moreover have "keys_ok (os_entries (os_Remove s el)) \<and> keys_ok (os_clock (os_Remove s el))"
    using ok by (auto simp: os_ok_def os_Remove_def os_shallowCopy_def Let_def split: option.splits)
  ultimately show ?thesis by (simp add: os_ok_def)
qed

lemma os_ok_Add: "os_ok s \<Longrightarrow> gget0 (os_clock s) n < max_u64 \<Longrightarrow> os_ok (os_Add s n el)"
proof -
  assume ok: "os_ok s" and lt: "gget0 (os_clock s) n < max_u64"
  from ok have "store_ok (os_store s)" by (simp add: os_ok_def)
  then have "store_ok (os_store (os_Add s n el))"
    unfolding os_store_Add
    using covers_fresh(2) [where c = "gget0 (os_clock s)" and n = n, OF lt]
    by (auto simp: store_ok_def os_newdot_def os_store_def) (simp add: covers_def)
  moreover have "keys_ok (os_entries (os_Add s n el)) \<and> keys_ok (os_clock (os_Add s n el))"
    by (simp add: os_Add_def os_shallowCopy_def Let_def)
  ultimately show ?thesis by (simp add: os_ok_def)
qed

subsection \<open>Compaction\<close>

lemma highest_dots_snoc:
  "highest_dots (ds @ [d]) =
     (case map_of (highest_dots ds) (nodeID d) of
        None \<Rightarrow> gset (nodeID d) d (highest_dots ds)
      | Some x \<Rightarrow> if counter d > counter x then gset (nodeID d) d (highest_dots ds) else highest_dots ds)"
  unfolding highest_dots_def by simp

lemma highest_dots_defined: "d \<in> set ds \<Longrightarrow> map_of (highest_dots ds) (nodeID d) \<noteq> None"
  by (induction ds rule: rev_induct) (auto simp: highest_dots_snoc split: option.splits)

lemma highest_dots_spec:
  "map_of (highest_dots ds) n = Some d \<Longrightarrow>
     d \<in> set ds \<and> nodeID d = n \<and> (\<forall>d' \<in> set ds. nodeID d' = n \<longrightarrow> counter d' \<le> counter d)"
proof (induction ds arbitrary: d rule: rev_induct)
  case Nil
  then show ?case by (simp add: highest_dots_def)
next
  case (snoc x ds)
  show ?case
  proof (cases "nodeID x = n")
    case False
    then show ?thesis
      using snoc by (auto simp: highest_dots_snoc split: option.splits if_splits)
  next
    case n: True
    show ?thesis
    proof (cases "map_of (highest_dots ds) n")
      case None
      then have "\<forall>d' \<in> set ds. nodeID d' \<noteq> n" using highest_dots_defined by blast
      then show ?thesis using snoc.prems n None by (auto simp: highest_dots_snoc)
    next
      case (Some y)
      then show ?thesis
        using snoc.prems snoc.IH [OF Some] n
        by (auto simp: highest_dots_snoc split: if_splits)
    qed
  qed
qed

lemma keys_ok_highest_dots: "keys_ok (highest_dots ds)"
  by (induction ds rule: rev_induct)
    (auto simp: highest_dots_def [of "[]"] highest_dots_snoc split: option.splits)

lemma foldl_snd: "foldl (\<lambda>acc (_, d). acc @ [d]) acc xs = acc @ map snd xs"
  by (induction xs arbitrary: acc) auto

lemma map_of_Compact:
  "keys_ok (os_entries s) \<Longrightarrow> map_of (os_entries (os_Compact s)) e =
     (case map_of (os_entries s) e of
        None \<Rightarrow> None
      | Some ds \<Rightarrow> if ds = [] then None else Some (map snd (highest_dots ds)))"
proof -
  have "keys_ok xs \<Longrightarrow> map_of (foldr (\<lambda>(el, dots) m. if dots = [] then m
             else gset el (map snd (highest_dots dots)) m) xs []) e =
      (case map_of xs e of None \<Rightarrow> None | Some ds \<Rightarrow> if ds = [] then None else Some (map snd (highest_dots ds)))"
    for xs :: "('a, dot list) gomap"
    by (induction xs) (auto split: option.splits)
  then show "keys_ok (os_entries s) \<Longrightarrow> ?thesis" unfolding os_Compact_def foldl_snd append_Nil by simp
qed

text \<open>A pair survives compaction when no live dot of the same element and node is higher.\<close>

lemma os_store_Compact:
  assumes "keys_ok (os_entries s)"
  shows "os_store (os_Compact s) =
    ({(e, d). (e, d) \<in> fst (os_store s) \<and>
       (\<forall>d'. (e, d') \<in> fst (os_store s) \<and> nodeID d' = nodeID d \<longrightarrow> counter d' \<le> counter d)},
     snd (os_store s))"
proof -
  have top: "d \<in> snd ` set (highest_dots ds) \<longleftrightarrow>
      d \<in> set ds \<and> (\<forall>d' \<in> set ds. nodeID d' = nodeID d \<longrightarrow> counter d' \<le> counter d)" (is "?L \<longleftrightarrow> ?R") for d ds
  proof
    assume ?L
    then obtain n where "(n, d) \<in> set (highest_dots ds)" by force
    then show ?R
      using highest_dots_spec [of ds n d] by (simp add: keys_ok_map_of [OF keys_ok_highest_dots])
  next
    assume R: ?R
    then obtain x where x: "map_of (highest_dots ds) (nodeID d) = Some x"
      using highest_dots_defined [of d ds] by auto
    with R highest_dots_spec [OF x] have "x = d" by (auto intro!: dot.equality antisym)
    with x show ?L by (force dest: map_of_SomeD)
  qed
  have "set (ggetl (os_entries (os_Compact s)) e) = snd ` set (highest_dots (ggetl (os_entries s) e))" for e
    using map_of_Compact [OF assms, of e]
    by (auto simp: ggetl_def highest_dots_def split: option.splits)
  then show ?thesis
    by (auto simp: os_store_def top) (auto simp: os_Compact_def)
qed

lemma os_ok_Compact: "os_ok s \<Longrightarrow> os_ok (os_Compact s)"
proof -
  assume ok: "os_ok s"
  have "keys_ok (foldr (\<lambda>(el, dots) m. if dots = [] then m else gset el (f dots) m) xs [])"
    for f :: "dot list \<Rightarrow> dot list" and xs :: "('a, dot list) gomap"
    by (induction xs) auto
  then have "keys_ok (os_entries (os_Compact s))" "keys_ok (os_clock (os_Compact s))"
    unfolding os_Compact_def foldl_snd append_Nil by simp_all
  moreover have "store_ok (os_store (os_Compact s))"
    using ok by (auto simp: os_store_Compact os_ok_def store_ok_def)
  ultimately show ?thesis by (simp add: os_ok_def)
qed

lemma finite_os_dots: "finite {d. (e, d) \<in> fst (os_store s)}"
  by (simp add: os_store_def)

lemma os_Compact_top:
  assumes "keys_ok (os_entries s)" "(e, d) \<in> fst (os_store s)"
  obtains d' where "(e, d') \<in> fst (os_store (os_Compact s))" "nodeID d' = nodeID d" "counter d \<le> counter d'"
proof -
  let ?D = "{d'. (e, d') \<in> fst (os_store s) \<and> nodeID d' = nodeID d}"
  have fin: "finite (counter ` ?D)"
    using finite_os_dots [of e s] by (intro finite_imageI) (auto elim: rev_finite_subset)
  then have "Max (counter ` ?D) \<in> counter ` ?D" using assms(2) by (intro Max_in) auto
  then obtain d' where d': "d' \<in> ?D" "counter d' = Max (counter ` ?D)" by auto
  have "\<forall>x \<in> ?D. counter x \<le> counter d'" using fin d' by simp
  then show thesis
    using d' assms by (intro that [of d']) (auto simp: os_store_Compact)
qed

subsection \<open>Raw state\<close>

lemma os_RawState_filter:
  "os_RawState s = (map (\<lambda>(el, ds). \<lparr>Element = el, Dots = ds\<rparr>) (filter (\<lambda>(_, ds). ds \<noteq> []) (os_entries s)),
                    gcopy [] (os_clock s))"
proof -
  have "foldl (\<lambda>result (el, dots). if length dots = 0 then result
             else result @ [\<lparr>Element = el, Dots = map (\<lambda>d. \<lparr>nodeID = nodeID d, counter = counter d\<rparr>) dots\<rparr>]) acc xs =
      acc @ map (\<lambda>(el, ds). \<lparr>Element = el, Dots = ds\<rparr>) (filter (\<lambda>(_, ds). ds \<noteq> []) xs)"
    for acc :: "'a os_entry list" and xs :: "('a, dot list) gomap"
    by (induction xs arbitrary: acc) auto
  then show ?thesis by (simp add: os_RawState_def)
qed

lemma map_of_FromRaw:
  "keys_ok xs \<Longrightarrow>
     map_of (foldl (\<lambda>m e. gset (Element e) (Dots e) m) acc (map (\<lambda>(el, ds). \<lparr>Element = el, Dots = ds\<rparr>) xs)) =
     map_of acc ++ map_of xs"
proof (induction xs arbitrary: acc)
  case (Cons x xs)
  obtain el ds where x: "x = (el, ds)" by force
  with Cons show ?case by (auto simp: fun_eq_iff map_add_def split: option.splits)
qed simp

lemma keys_ok_FromRaw: "keys_ok acc \<Longrightarrow> keys_ok (foldl (\<lambda>m e. gset (Element e) (f e) m) acc es)"
  by (induction es arbitrary: acc) auto

lemma os_store_FromRaw:
  "keys_ok (os_entries s) \<Longrightarrow>
     os_store (ORSetFromRawState (fst (os_RawState s)) (snd (os_RawState s))) = os_store s"
proof -
  assume ok: "keys_ok (os_entries s)"
  let ?r = "ORSetFromRawState (fst (os_RawState s)) (snd (os_RawState s))"
  have "map_of (os_entries ?r) e =
      (case map_of (os_entries s) e of None \<Rightarrow> None | Some ds \<Rightarrow> if ds = [] then None else Some ds)" for e
    using ok by (simp add: ORSetFromRawState_def os_RawState_filter map_of_FromRaw map_of_filter_keys_ok
        split: option.split)
  then have "ggetl (os_entries ?r) = ggetl (os_entries s)"
    by (simp add: ggetl_def fun_eq_iff split: option.split)
  moreover have "gget0 (os_clock ?r) = gget0 (os_clock s)"
    by (simp add: ORSetFromRawState_def os_RawState_def)
  ultimately show ?thesis by (simp add: os_store_def)
qed

lemma os_ok_FromRaw:
  "os_ok s \<Longrightarrow> os_ok (ORSetFromRawState (fst (os_RawState s)) (snd (os_RawState s)))"
  using os_store_FromRaw [of s]
  by (simp add: os_ok_def) (simp add: ORSetFromRawState_def keys_ok_FromRaw)

subsection \<open>Properties\<close>

text \<open>
  C1. Replicas of an OR-Set converge: two replicas that have received the same states, whatever
  the order and the repetitions of the merges, hold the same live dots, the same clock and so
  the same elements.
\<close>

theorem os_convergence:
  assumes "os_ok a" "os_ok b" "\<forall>x \<in> set xs. os_ok x" "\<forall>y \<in> set ys. os_ok y"
    and "insert a (set xs) = insert b (set ys)"
  shows "os_store (foldl os_Merge a xs) = os_store (foldl os_Merge b ys) \<and>
    set (os_Elements (foldl os_Merge a xs)) = set (os_Elements (foldl os_Merge b ys))"
proof -
  have eq: "os_store (foldl os_Merge a xs) = os_store (foldl os_Merge b ys)"
    using assms by (rule orset.convergence)
  have "os_ok (foldl os_Merge a xs)" "os_ok (foldl os_Merge b ys)"
    using assms by (auto intro: orset.ok_foldl)
  then show ?thesis using eq by (simp add: set_os_Elements os_Contains_store)
qed

theorem os_convergence_witness:
  "let a = os_Add NewORSet ''A'' (1::nat); b = os_Remove (os_Add NewORSet ''B'' 2) 2
   in os_store (foldl os_Merge a [b, a]) = os_store (foldl os_Merge b [a]) \<and>
      set (os_Elements (foldl os_Merge a [b, a])) = set (os_Elements (foldl os_Merge b [a]))"
  unfolding Let_def
  by (rule os_convergence)
    (auto intro!: os_ok_Remove os_ok_Add os_ok_New)

text \<open>
  C10. Add wins: an element a node has just added survives the merge with any replica that has
  not seen that add, in particular with one that removed the element at the same time.
\<close>

theorem os_add_wins:
  assumes "os_ok s" "os_ok t" "gget0 (os_clock s) n < max_u64" "gget0 (os_clock t) n \<le> gget0 (os_clock s) n"
  shows "os_Contains (os_Merge (os_Add s n e) t) e \<and> os_Contains (os_Merge t (os_Add s n e)) e"
proof -
  let ?d = "os_newdot s n" and ?a = "os_Add s n e"
  have ok: "os_ok ?a" using assms by (simp add: os_ok_Add)
  have "gget0 (os_clock t) n < gget0 (os_clock s) n + 1"
    using assms(4) u64_less_Suc [OF assms(3)] by order
  then have "\<not> covers (snd (os_store t)) ?d"
    by (simp add: os_store_def covers_def os_newdot_def not_le)
  then have "(e, ?d) \<in> fst (store_join (os_store ?a) (os_store t))"
    by (simp add: store_join_def os_store_Add)
  then have "(e, ?d) \<in> fst (os_store (os_Merge ?a t)) \<and> (e, ?d) \<in> fst (os_store (os_Merge t ?a))"
    using assms(2) ok store_join_commute by (metis os_ok_def os_store_Merge)
  then show ?thesis by (auto simp: os_Contains_store)
qed

theorem os_add_wins_witness:
  "let s = os_Add NewORSet ''A'' (7::nat)
   in os_Contains (os_Merge (os_Add s ''A'' 7) (os_Remove s 7)) 7 \<and>
      os_Contains (os_Merge (os_Remove s 7) (os_Add s ''A'' 7)) 7"
  unfolding Let_def
  by (rule os_add_wins)
    (auto intro!: os_ok_Remove os_ok_Add os_ok_New)

text \<open>
  C11. A remove takes out every add it has observed: an element is gone from the merge with a
  replica whose dots for it the remover had all seen.
\<close>

theorem os_remove_observed:
  assumes "os_ok s" "os_ok t" "\<forall>d \<in> set (ggetl (os_entries t) e). isDominated d (os_clock s)"
  shows "\<not> os_Contains (os_Merge (os_Remove s e) t) e \<and> \<not> os_Contains (os_Merge t (os_Remove s e)) e"
proof -
  have "(e, d) \<notin> fst (store_join (os_store (os_Remove s e)) (os_store t))" for d
    using assms(3) by (auto simp: store_join_def os_store_Remove os_store_pair isDominated_covers)
  then show ?thesis
    using assms(1,2) os_ok_Remove [OF assms(1)] store_join_commute
    by (metis os_Contains_store os_ok_def os_store_Merge)
qed

lemma os_Add_New: "ggetl (os_entries (os_Add NewORSet n e)) e = [\<lparr>nodeID = n, counter = 1\<rparr>]"
  by (simp add: os_Add_def NewORSet_def os_shallowCopy_def gcopy_def Let_def gomap_simps ggetl_def)

theorem os_remove_observed_witness:
  "let s = os_Add NewORSet ''A'' (7::nat)
   in \<not> os_Contains (os_Merge (os_Remove s 7) s) 7 \<and> \<not> os_Contains (os_Merge s (os_Remove s 7)) 7"
  unfolding Let_def
  by (rule os_remove_observed)
    (auto intro!: os_ok_Add os_ok_New simp: os_Add_New isDominated_def)



text \<open>
  \<^verbatim>\<open>ORSetFromRawState\<close> rebuilds from \<^verbatim>\<open>RawState\<close> a set with the same live dots and clock,
  hence the same elements.
\<close>

lemma os_raw_roundtrip:
  assumes "os_ok s"
  shows "let r = ORSetFromRawState (fst (os_RawState s)) (snd (os_RawState s))
    in os_ok r \<and> os_store r = os_store s \<and> set (os_Elements r) = set (os_Elements s)"
  using assms os_ok_FromRaw [OF assms] os_store_FromRaw [of s]
  by (auto simp: Let_def os_ok_def set_os_Elements os_Contains_store)


end
