(* ===== verification/Or_Map.thy ===== *)
theory Or_Map
  imports Counters Registers Or_Set
begin

section \<open>ReplicatedData and ORMap\<close>

text \<open>
  The interface type \<^verbatim>\<open>ReplicatedData\<close> as the sum of its implementations, its methods by
  dispatch on the dynamic type, and \<^verbatim>\<open>src/crdt/or_map.go\<close>. An ORMap holds further replicated
  values, so the sum type is recursive. A failed type assertion in \<^verbatim>\<open>Merge\<close> returns the receiver.
\<close>

datatype 'a rdata =
    RGCounter gcounter
  | RPNCounter pncounter
  | RFlag flag
  | RLWW "'a lww"
  | RMV "'a mvregister"
  | RORSet "'a orset"
  | RORMap "'a orset" "('a \<times> 'a rdata) list" bool

lemma size_value: "map_of vs k = Some v \<Longrightarrow> size v < size (RORMap ks vs d)"
  by (induction vs) (auto split: if_splits)

lemma size_value_in: "(k, v) \<in> set vs \<Longrightarrow> size v < size (RORMap ks vs d)"
  by (induction vs) auto

function rd_Clone :: "'a rdata \<Rightarrow> 'a rdata" where
  "rd_Clone (RGCounter c) = RGCounter (gc_Clone c)"
| "rd_Clone (RPNCounter c) = RPNCounter (pn_Clone c)"
| "rd_Clone (RFlag x) = RFlag (fl_Clone x)"
| "rd_Clone (RLWW r) = RLWW (lww_Clone r)"
| "rd_Clone (RMV r) = RMV (mv_cloneInternal r)"
| "rd_Clone (RORSet s) = RORSet (os_cloneInternal s)"
| "rd_Clone (RORMap ks vs dirty) =
     RORMap (os_cloneInternal ks) (foldr (\<lambda>(k, v) out. gset k (rd_Clone v) out) vs []) dirty"
  by pat_completeness auto
termination
  by (relation "measure size") (auto dest: size_value_in)

function rd_Merge :: "'a rdata \<Rightarrow> 'a rdata \<Rightarrow> 'a rdata" where
  "rd_Merge a b =
     (case (a, b) of
        (RGCounter x, RGCounter y) \<Rightarrow> RGCounter (gc_Merge x y)
      | (RPNCounter x, RPNCounter y) \<Rightarrow> RPNCounter (pn_Merge x y)
      | (RFlag x, RFlag y) \<Rightarrow> RFlag (fl_Merge x y)
      | (RLWW x, RLWW y) \<Rightarrow> RLWW (lww_Merge x y)
      | (RMV x, RMV y) \<Rightarrow> RMV (mv_Merge x y)
      | (RORSet x, RORSet y) \<Rightarrow> RORSet (os_Merge x y)
      | (RORMap ks vs _, RORMap ks' vs' _) \<Rightarrow>
          (let merged = os_Merge ks ks'
           in RORMap merged
                (foldl (\<lambda>out key.
                   case map_of vs key of
                     Some lv \<Rightarrow>
                       (case map_of vs' key of
                          Some rv \<Rightarrow> gset key (rd_Merge lv rv) out
                        | None \<Rightarrow> gset key (rd_Clone lv) out)
                   | None \<Rightarrow>
                       (case map_of vs' key of
                          Some rv \<Rightarrow> gset key (rd_Clone rv) out
                        | None \<Rightarrow> out)) [] (os_Elements merged)) False)
      | _ \<Rightarrow> a)"
  by pat_completeness auto
termination
  by (relation "measure (\<lambda>(a, b). size a)") (auto dest: size_value)

declare rd_Merge.simps [simp del]

record 'a ormap =
  om_keys :: "'a orset"
  om_values :: "('a, 'a rdata) gomap"
  om_dirty :: bool

definition om_rd :: "'a ormap \<Rightarrow> 'a rdata" where
  "om_rd m = RORMap (om_keys m) (om_values m) (om_dirty m)"

definition NewORMap :: "'a ormap" where
  "NewORMap = \<lparr>om_keys = NewORSet, om_values = [], om_dirty = False\<rparr>"

definition om_cloneInternal :: "'a ormap \<Rightarrow> 'a ormap" where
  "om_cloneInternal m =
     \<lparr>om_keys = os_cloneInternal (om_keys m),
      om_values = foldr (\<lambda>(k, v) out. gset k (rd_Clone v) out) (om_values m) [],
      om_dirty = om_dirty m\<rparr>"

definition om_Set :: "'a ormap \<Rightarrow> string \<Rightarrow> 'a \<Rightarrow> 'a rdata \<Rightarrow> 'a ormap" where
  "om_Set m node key v =
     (let out = om_cloneInternal m;
          vs = (case map_of (om_values out) key of
                  Some existing \<Rightarrow> gset key (rd_Merge existing v) (om_values out)
                | None \<Rightarrow> gset key (rd_Clone v) (om_values out))
      in \<lparr>om_keys = os_Add (om_keys out) node key, om_values = vs, om_dirty = True\<rparr>)"

definition om_Remove :: "'a ormap \<Rightarrow> 'a \<Rightarrow> 'a ormap" where
  "om_Remove m key =
     (if \<not> os_Contains (om_keys m) key then m
      else
        let out = om_cloneInternal m
        in \<lparr>om_keys = os_Remove (om_keys out) key, om_values = gdel key (om_values out), om_dirty = True\<rparr>)"

definition om_Get :: "'a ormap \<Rightarrow> 'a \<Rightarrow> 'a rdata option" where
  "om_Get m key = (if \<not> os_Contains (om_keys m) key then None else map_of (om_values m) key)"

definition om_Keys :: "'a ormap \<Rightarrow> 'a list" where
  "om_Keys m = os_Elements (om_keys m)"

definition om_Len :: "'a ormap \<Rightarrow> nat" where
  "om_Len m = os_Len (om_keys m)"

definition om_Entries :: "'a ormap \<Rightarrow> ('a, 'a rdata) gomap" where
  "om_Entries m =
     foldl (\<lambda>result k. case map_of (om_values m) k of None \<Rightarrow> result | Some v \<Rightarrow> gset k v result)
       [] (os_Elements (om_keys m))"

definition om_Merge :: "'a ormap \<Rightarrow> 'a ormap \<Rightarrow> 'a ormap" where
  "om_Merge m other =
     (let merged = os_Merge (om_keys m) (om_keys other)
      in \<lparr>om_keys = merged,
          om_values =
            foldl (\<lambda>out key.
              case map_of (om_values m) key of
                Some lv \<Rightarrow>
                  (case map_of (om_values other) key of
                     Some rv \<Rightarrow> gset key (rd_Merge lv rv) out
                   | None \<Rightarrow> gset key (rd_Clone lv) out)
              | None \<Rightarrow>
                  (case map_of (om_values other) key of
                     Some rv \<Rightarrow> gset key (rd_Clone rv) out
                   | None \<Rightarrow> out)) [] (os_Elements merged),
          om_dirty = False\<rparr>)"

definition om_Delta :: "'a ormap \<Rightarrow> 'a ormap option" where
  "om_Delta m = (if \<not> om_dirty m then None else Some (om_cloneInternal m))"

definition om_ResetDelta :: "'a ormap \<Rightarrow> 'a ormap" where
  "om_ResetDelta m = m\<lparr>om_dirty := False, om_keys := os_ResetDelta (om_keys m)\<rparr>"

definition om_Compact :: "'a ormap \<Rightarrow> 'a ormap" where
  "om_Compact m =
     (let compactedKeys = os_Compact (om_keys m)
      in \<lparr>om_keys = compactedKeys,
          om_values =
            foldl (\<lambda>out key. case map_of (om_values m) key of None \<Rightarrow> out | Some v \<Rightarrow> gset key (rd_Clone v) out)
              [] (os_Elements compactedKeys),
          om_dirty = False\<rparr>)"

record 'a ormap_raw =
  KeyEntries :: "'a os_entry list"
  KeyClock :: "(string, u64) gomap"
  Values :: "('a, 'a rdata) gomap"

definition om_RawState :: "'a ormap \<Rightarrow> 'a ormap_raw" where
  "om_RawState m =
     \<lparr>KeyEntries = fst (os_RawState (om_keys m)), KeyClock = snd (os_RawState (om_keys m)),
      Values = foldr (\<lambda>(k, v) vals. gset k (rd_Clone v) vals) (om_values m) []\<rparr>"

definition ORMapFromRawState :: "'a ormap_raw \<Rightarrow> 'a ormap" where
  "ORMapFromRawState st =
     \<lparr>om_keys = ORSetFromRawState (KeyEntries st) (KeyClock st),
      om_values = gcopy [] (Values st), om_dirty = False\<rparr>"

text \<open>\<^verbatim>\<open>Delta\<close> and \<^verbatim>\<open>ResetDelta\<close> of the interface.\<close>

fun rd_Delta :: "'a rdata \<Rightarrow> 'a rdata option" where
  "rd_Delta (RGCounter c) = map_option RGCounter (gc_Delta c)"
| "rd_Delta (RPNCounter c) = map_option RPNCounter (pn_Delta c)"
| "rd_Delta (RFlag x) = map_option RFlag (fl_Delta x)"
| "rd_Delta (RLWW r) = map_option RLWW (lww_Delta r)"
| "rd_Delta (RMV r) = map_option RMV (mv_Delta r)"
| "rd_Delta (RORSet s) = map_option RORSet (os_Delta s)"
| "rd_Delta (RORMap ks vs dirty) =
     map_option om_rd (om_Delta \<lparr>om_keys = ks, om_values = vs, om_dirty = dirty\<rparr>)"

fun rd_ResetDelta :: "'a rdata \<Rightarrow> 'a rdata" where
  "rd_ResetDelta (RGCounter c) = RGCounter (gc_ResetDelta c)"
| "rd_ResetDelta (RPNCounter c) = RPNCounter (pn_ResetDelta c)"
| "rd_ResetDelta (RFlag x) = RFlag (fl_ResetDelta x)"
| "rd_ResetDelta (RLWW r) = RLWW (lww_ResetDelta r)"
| "rd_ResetDelta (RMV r) = RMV (mv_ResetDelta r)"
| "rd_ResetDelta (RORSet s) = RORSet (os_ResetDelta s)"
| "rd_ResetDelta (RORMap ks vs dirty) =
     om_rd (om_ResetDelta \<lparr>om_keys = ks, om_values = vs, om_dirty = dirty\<rparr>)"

subsection \<open>Values follow the keys\<close>

definition om_ok :: "'a ormap \<Rightarrow> bool" where
  "om_ok m \<longleftrightarrow> os_ok (om_keys m) \<and> keys_ok (om_values m) \<and>
     (\<forall>k. os_Contains (om_keys m) k \<longleftrightarrow> map_of (om_values m) k \<noteq> None)"

definition om_pick :: "'a rdata option \<Rightarrow> 'a rdata option \<Rightarrow> 'a rdata option" where
  "om_pick l r =
     (case l of
        Some lv \<Rightarrow> (case r of Some rv \<Rightarrow> Some (rd_Merge lv rv) | None \<Rightarrow> Some (rd_Clone lv))
      | None \<Rightarrow> map_option rd_Clone r)"

lemma map_of_foldr_snd:
  "map_of (foldr (\<lambda>(k, v) out. gset k (f v) out) vs []) k = map_option f (map_of vs k)"
  by (induction vs) auto

lemma keys_ok_foldr_snd: "keys_ok (foldr (\<lambda>(k, v) out. gset k (f v) out) vs [])"
  by (induction vs) auto

lemma map_of_foldl_pick:
  "map_of (foldl (\<lambda>out k. case g k of None \<Rightarrow> out | Some v \<Rightarrow> gset k v out) acc ks) x =
     (if x \<in> set ks \<and> g x \<noteq> None then g x else map_of acc x)"
  by (induction ks arbitrary: acc) (auto split: option.splits)

lemma keys_ok_foldl_pick:
  "keys_ok acc \<Longrightarrow> keys_ok (foldl (\<lambda>out k. case g k of None \<Rightarrow> out | Some v \<Rightarrow> gset k v out) acc ks)"
  by (induction ks arbitrary: acc) (auto split: option.splits)

lemma om_Merge_pick:
  "om_values (om_Merge m other) =
     foldl (\<lambda>out k. case om_pick (map_of (om_values m) k) (map_of (om_values other) k) of
        None \<Rightarrow> out | Some v \<Rightarrow> gset k v out) [] (os_Elements (os_Merge (om_keys m) (om_keys other)))"
proof -
  have "(\<lambda>out key. case map_of (om_values m) key of
           Some lv \<Rightarrow> (case map_of (om_values other) key of
                Some rv \<Rightarrow> gset key (rd_Merge lv rv) out | None \<Rightarrow> gset key (rd_Clone lv) out)
         | None \<Rightarrow> (case map_of (om_values other) key of
                Some rv \<Rightarrow> gset key (rd_Clone rv) out | None \<Rightarrow> out)) =
      (\<lambda>out k. case om_pick (map_of (om_values m) k) (map_of (om_values other) k) of
        None \<Rightarrow> out | Some v \<Rightarrow> gset k v out)"
    by (simp add: om_pick_def fun_eq_iff split: option.split)
  then show ?thesis by (simp add: om_Merge_def Let_def)
qed

lemma om_keys_Merge [simp]: "om_keys (om_Merge m other) = os_Merge (om_keys m) (om_keys other)"
  by (simp add: om_Merge_def Let_def)

lemma rd_Merge_om: "rd_Merge (om_rd m) (om_rd other) = om_rd (om_Merge m other)"
  by (subst rd_Merge.simps) (simp add: om_rd_def om_Merge_def Let_def)

lemma os_Contains_Merge:
  "os_ok s \<Longrightarrow> os_ok t \<Longrightarrow> os_Contains (os_Merge s t) k \<Longrightarrow> os_Contains s k \<or> os_Contains t k"
  by (auto simp: os_Contains_store os_store_Merge os_ok_def store_join_def)

lemma om_pick_None: "om_pick l r = None \<longleftrightarrow> l = None \<and> r = None"
  by (auto simp: om_pick_def split: option.splits)

lemma map_of_om_Merge:
  assumes "om_ok m" "om_ok other"
  shows "map_of (om_values (om_Merge m other)) k =
    (if os_Contains (os_Merge (om_keys m) (om_keys other)) k
     then om_pick (map_of (om_values m) k) (map_of (om_values other) k) else None)"
proof -
  have ok: "os_ok (om_keys m)" "os_ok (om_keys other)" using assms by (auto simp: om_ok_def)
  then have "set (os_Elements (os_Merge (om_keys m) (om_keys other))) =
      {k. os_Contains (os_Merge (om_keys m) (om_keys other)) k}"
    by (simp add: set_os_Elements os_ok_Merge)
  then show ?thesis by (auto simp: om_Merge_pick map_of_foldl_pick)
qed

lemma om_ok_Merge:
  assumes "om_ok m" "om_ok other"
  shows "om_ok (om_Merge m other)"
proof -
  have ok: "os_ok (om_keys m)" "os_ok (om_keys other)" using assms by (auto simp: om_ok_def)
  have "keys_ok (om_values (om_Merge m other))"
    by (simp add: om_Merge_pick keys_ok_foldl_pick)
  moreover have "os_Contains (os_Merge (om_keys m) (om_keys other)) k \<longleftrightarrow>
      map_of (om_values (om_Merge m other)) k \<noteq> None" for k
    using assms os_Contains_Merge [OF ok, of k]
    by (auto simp: map_of_om_Merge [OF assms] om_pick_def om_ok_def split: option.splits)
  ultimately show ?thesis using ok by (simp add: om_ok_def os_ok_Merge)
qed

lemma os_Contains_ops:
  "os_Contains (os_Add s n el) k \<longleftrightarrow> k = el \<or> os_Contains s k"
  "os_Contains (os_Remove s el) k \<longleftrightarrow> k \<noteq> el \<and> os_Contains s k"
  "os_Contains (os_cloneInternal s) k = os_Contains s k"
  "os_Contains (os_ResetDelta s) k = os_Contains s k"
  by (auto simp: os_Contains_store os_store_Add os_store_Remove)

lemma om_ok_New: "om_ok NewORMap"
  by (simp add: om_ok_def NewORMap_def os_ok_New) (simp add: NewORSet_def os_Contains_def)

lemma om_clock_New [simp]: "gget0 (os_clock (om_keys NewORMap)) = (\<lambda>_. 0)"
  by (simp add: NewORMap_def)

lemma om_clone_simps:
  "om_keys (om_cloneInternal m) = os_cloneInternal (om_keys m)"
  "map_of (om_values (om_cloneInternal m)) k = map_option rd_Clone (map_of (om_values m) k)"
  "keys_ok (om_values (om_cloneInternal m))"
  by (simp_all add: om_cloneInternal_def map_of_foldr_snd keys_ok_foldr_snd)

lemma os_clock_clone [simp]: "gget0 (os_clock (os_cloneInternal s)) = gget0 (os_clock s)"
  by (simp add: os_cloneInternal_def)

lemma om_ok_Set:
  "om_ok m \<Longrightarrow> gget0 (os_clock (om_keys m)) n < max_u64 \<Longrightarrow> om_ok (om_Set m n k v)"
  by (auto simp: om_ok_def om_Set_def Let_def om_clone_simps os_ok_Add os_ok_copies os_Contains_ops
      split: option.splits)

lemma om_ok_Remove: "om_ok m \<Longrightarrow> om_ok (om_Remove m k)"
  by (auto simp: om_ok_def om_Remove_def Let_def om_clone_simps os_ok_Remove os_ok_copies os_Contains_ops)

lemma om_ok_ResetDelta: "om_ok m \<Longrightarrow> om_ok (om_ResetDelta m)"
  by (simp add: om_ok_def om_ResetDelta_def os_ok_copies os_Contains_ops)

lemma os_Contains_Compact:
  assumes "os_ok s"
  shows "os_Contains (os_Compact s) k = os_Contains s k"
proof -
  have keys: "keys_ok (os_entries s)" using assms by (simp add: os_ok_def)
  have "fst (os_store (os_Compact s)) \<subseteq> fst (os_store s)"
    unfolding os_store_Compact [OF keys] by auto
  moreover have "\<exists>d'. (k, d') \<in> fst (os_store (os_Compact s))" if "(k, d) \<in> fst (os_store s)" for d
    using os_Compact_top [OF keys that] by blast
  ultimately show ?thesis by (auto simp: os_Contains_store)
qed

lemma om_Compact_Get:
  assumes "om_ok m"
  shows "om_Get (om_Compact m) k = map_option rd_Clone (om_Get m k)"
proof -
  have c: "os_ok (om_keys m)" using assms by (simp add: om_ok_def)
  let ?g = "\<lambda>k. map_option rd_Clone (map_of (om_values m) k)"
  have eq: "(\<lambda>out key. case map_of (om_values m) key of None \<Rightarrow> out | Some v \<Rightarrow> gset key (rd_Clone v) out) =
      (\<lambda>out key. case ?g key of None \<Rightarrow> out | Some v \<Rightarrow> gset key v out)"
    by (simp add: fun_eq_iff split: option.split)
  have "map_of (om_values (om_Compact m)) k =
      (if k \<in> set (os_Elements (os_Compact (om_keys m))) \<and> ?g k \<noteq> None then ?g k else map_of [] k)"
    by (simp only: om_Compact_def Let_def ormap.simps eq map_of_foldl_pick)
  moreover have "om_keys (om_Compact m) = os_Compact (om_keys m)"
    by (simp add: om_Compact_def Let_def)
  ultimately show ?thesis
    by (simp add: om_Get_def os_Contains_Compact [OF c] set_os_Elements [OF os_ok_Compact [OF c]])
qed

subsection \<open>Properties\<close>

text \<open>
  C22. \<^verbatim>\<open>Merge\<close> of two maps keeps the keys of the merged key set and combines the values per key:
  merged when both sides have one, a copy of the one there is otherwise; a key in the merged
  key set always has a value.
\<close>

theorem om_merge_get:
  assumes "om_ok m" "om_ok other"
  shows "om_Get (om_Merge m other) k =
    (if os_Contains (os_Merge (om_keys m) (om_keys other)) k
     then case (om_Get m k, om_Get other k) of
            (Some lv, Some rv) \<Rightarrow> Some (rd_Merge lv rv)
          | (Some lv, None) \<Rightarrow> Some (rd_Clone lv)
          | (None, Some rv) \<Rightarrow> Some (rd_Clone rv)
          | (None, None) \<Rightarrow> None
     else None) \<and>
    (os_Contains (os_Merge (om_keys m) (om_keys other)) k \<longleftrightarrow> om_Get (om_Merge m other) k \<noteq> None)"
proof -
  have get: "om_Get x k = map_of (om_values x) k" if "om_ok x" for x
    using that by (auto simp: om_Get_def om_ok_def)
  show ?thesis
    using om_ok_Merge [OF assms] map_of_om_Merge [OF assms, of k]
    unfolding get [OF assms(1)] get [OF assms(2)] get [OF om_ok_Merge [OF assms]]
    by (auto simp: om_ok_def om_pick_def split: option.splits)
qed

theorem om_merge_get_witness:
  "let m = om_Set NewORMap ''A'' (1::nat) (RFlag NewFlag); x = om_Set NewORMap ''B'' 1 (RFlag (fl_Enable NewFlag))
   in om_Get (om_Merge m x) 1 =
    (if os_Contains (os_Merge (om_keys m) (om_keys x)) 1
     then case (om_Get m 1, om_Get x 1) of
            (Some lv, Some rv) \<Rightarrow> Some (rd_Merge lv rv)
          | (Some lv, None) \<Rightarrow> Some (rd_Clone lv)
          | (None, Some rv) \<Rightarrow> Some (rd_Clone rv)
          | (None, None) \<Rightarrow> None
     else None) \<and>
    (os_Contains (os_Merge (om_keys m) (om_keys x)) 1 \<longleftrightarrow> om_Get (om_Merge m x) 1 \<noteq> None)"
  unfolding Let_def
  by (rule om_merge_get) (auto intro!: om_ok_Set om_ok_New)

text \<open>
  C23. A read after a write or a removal: \<^verbatim>\<open>Set\<close> makes the key present with the value merged into
  the old one (or a copy, for a new key) and touches no other key; \<^verbatim>\<open>Remove\<close> makes the key
  absent and touches no other key.
\<close>

theorem om_set_remove_get:
  assumes "om_ok m"
  shows "om_Get (om_Set m n k v) k =
      Some (case om_Get m k of None \<Rightarrow> rd_Clone v | Some old \<Rightarrow> rd_Merge (rd_Clone old) v) \<and>
    om_Get (om_Remove m k) k = None \<and>
    (\<forall>j. j \<noteq> k \<longrightarrow> om_Get (om_Set m n k v) j = map_option rd_Clone (om_Get m j)) \<and>
    (\<forall>j. j \<noteq> k \<and> os_Contains (om_keys m) k \<longrightarrow> om_Get (om_Remove m k) j = map_option rd_Clone (om_Get m j))"
proof (intro conjI allI impI)
  have dom: "os_Contains (om_keys m) j \<longleftrightarrow> map_of (om_values m) j \<noteq> None" for j
    using assms by (simp add: om_ok_def)
  show "om_Get (om_Set m n k v) k =
      Some (case om_Get m k of None \<Rightarrow> rd_Clone v | Some old \<Rightarrow> rd_Merge (rd_Clone old) v)"
    using dom [of k]
    by (auto simp: om_Get_def om_Set_def Let_def om_clone_simps os_Contains_ops split: option.splits)
  show "om_Get (om_Remove m k) k = None"
    by (simp add: om_Get_def om_Remove_def Let_def os_Contains_ops)
  show "om_Get (om_Set m n k v) j = map_option rd_Clone (om_Get m j)" if "j \<noteq> k" for j
    using that by (auto simp: om_Get_def om_Set_def Let_def om_clone_simps os_Contains_ops split: option.splits)
  show "om_Get (om_Remove m k) j = map_option rd_Clone (om_Get m j)"
    if "j \<noteq> k \<and> os_Contains (om_keys m) k" for j
    using that by (auto simp: om_Get_def om_Remove_def Let_def om_clone_simps os_Contains_ops)
qed

theorem om_set_remove_get_witness:
  "let m = om_Set NewORMap ''A'' (1::nat) (RFlag NewFlag)
   in om_Get (om_Set m ''A'' 1 (RFlag NewFlag)) 1 =
      Some (case om_Get m 1 of None \<Rightarrow> rd_Clone (RFlag NewFlag) | Some old \<Rightarrow> rd_Merge (rd_Clone old) (RFlag NewFlag)) \<and>
      om_Get (om_Remove m 1) 1 = None"
  using om_set_remove_get [of "om_Set NewORMap ''A'' (1::nat) (RFlag NewFlag)" "''A''" 1 "RFlag NewFlag"]
    om_ok_Set [OF om_ok_New, of "''A''" "1::nat" "RFlag NewFlag"]
  by (simp add: Let_def)


end
