(* ===== verification/Crdt_Codec.thy ===== *)
theory Crdt_Codec
  imports Or_Map
begin

section \<open>The CRDT wire codec\<close>

text \<open>
  \<^verbatim>\<open>src/internal/ddata/crdt_codec.go\<close>: replicated data to protobuf messages and back. The messages
  are generated code; their fields are data here. The serializer of values is a parameter of
  the codec (\<open>ser\<close> and \<open>deser\<close>): it may fail, with an error of type \<open>'x\<close>.
\<close>

datatype 'x codec_error =
    SerializerError string 'x
  | Wrapped string "'x codec_error"
  | NilData
  | UnsupportedData

record 'b pb_lww =
  pb_value :: 'b
  pb_timestamp :: int
  pb_nodeId :: string

record 'b pb_orset =
  pb_entries :: "('b \<times> dot list) list"
  pb_clock :: "(string, u64) gomap"

record 'b pb_mv =
  pbmv_entries :: "('b \<times> dot) list"
  pbmv_clock :: "(string, u64) gomap"

text \<open>The message with its oneof; \<open>PbUnset\<close> is a message whose oneof is not set.\<close>

datatype 'b crdt_data =
    PbGCounter "(string, u64) gomap"
  | PbPnCounter "(string, u64) gomap" "(string, u64) gomap"
  | PbFlag bool
  | PbLww "'b pb_lww"
  | PbOrSet "'b pb_orset"
  | PbMv "'b pb_mv"
  | PbOrMap "('b \<times> 'b crdt_data option) list" "'b pb_orset option"
  | PbUnset

subsection \<open>Encoding\<close>

definition encodeLWWRegister :: "('a \<Rightarrow> 'x + 'b) \<Rightarrow> 'a lww \<Rightarrow> 'x codec_error + 'b pb_lww" where
  "encodeLWWRegister ser r =
     (case ser (lww_value r) of
        Inl e \<Rightarrow> Inl (SerializerError ''encode LWWRegister value'' e)
      | Inr val \<Rightarrow> Inr \<lparr>pb_value = val, pb_timestamp = lww_timestamp r, pb_nodeId = lww_nodeID r\<rparr>)"

definition encodeORSetEntries ::
  "('a \<Rightarrow> 'x + 'b) \<Rightarrow> 'a os_entry list \<Rightarrow> (string, u64) gomap \<Rightarrow> 'x codec_error + 'b pb_orset" where
  "encodeORSetEntries ser es clock =
     (case traverse (\<lambda>e. case ser (Element e) of
                Inl err \<Rightarrow> Inl (SerializerError ''encode ORSet element'' err)
              | Inr el \<Rightarrow> Inr (el, map (\<lambda>d. \<lparr>nodeID = nodeID d, counter = counter d\<rparr>) (Dots e))) es of
        Inl err \<Rightarrow> Inl err
      | Inr pbs \<Rightarrow> Inr \<lparr>pb_entries = pbs, pb_clock = clock\<rparr>)"

definition encodeORSet :: "('a \<Rightarrow> 'x + 'b) \<Rightarrow> 'a orset \<Rightarrow> 'x codec_error + 'b pb_orset" where
  "encodeORSet ser s = encodeORSetEntries ser (fst (os_RawState s)) (snd (os_RawState s))"

definition encodeMVRegister :: "('a \<Rightarrow> 'x + 'b) \<Rightarrow> 'a mvregister \<Rightarrow> 'x codec_error + 'b pb_mv" where
  "encodeMVRegister ser r =
     (case mv_RawState r of (es, clock) \<Rightarrow>
        (case traverse (\<lambda>e. case ser (mv_value e) of
                  Inl err \<Rightarrow> Inl (SerializerError ''encode MVRegister entry'' err)
                | Inr val \<Rightarrow> Inr (val, mv_dot e)) es of
           Inl err \<Rightarrow> Inl err
         | Inr pbs \<Rightarrow> Inr \<lparr>pbmv_entries = pbs, pbmv_clock = clock\<rparr>))"

text \<open>Nesting depth: the measure for the recursion through maps of replicated data.\<close>

function rd_depth :: "'a rdata \<Rightarrow> nat" where
  "rd_depth (RORMap ks vs d) = Suc (foldr (\<lambda>(k, v) n. max (rd_depth v) n) vs 0)"
| "rd_depth (RGCounter c) = 0"
| "rd_depth (RPNCounter p) = 0"
| "rd_depth (RFlag f) = 0"
| "rd_depth (RLWW l) = 0"
| "rd_depth (RMV m) = 0"
| "rd_depth (RORSet s) = 0"
  by pat_completeness auto
termination
  by (relation "measure size") (auto dest: size_value_in)

lemma rd_depth_in: "(k, v) \<in> set vs \<Longrightarrow> rd_depth v < rd_depth (RORMap ks vs d)"
  by (induction vs) auto

lemma rd_depth_bound:
  "(\<forall>(k, v) \<in> set vs. rd_depth v < Suc n) \<Longrightarrow> foldr (\<lambda>(k, v) n. max (rd_depth v) n) vs 0 \<le> n"
  by (induction vs) auto

lemma set_foldr_gset:
  "(k, v) \<in> set (foldr (\<lambda>(k, v) out. gset k (f v) out) vs []) \<Longrightarrow> \<exists>v'. (k, v') \<in> set vs \<and> v = f v'"
  by (auto simp: keys_ok_map_of [OF keys_ok_foldr_snd] map_of_foldr_snd dest: map_of_SomeD)

lemma rd_depth_Clone: "rd_depth (rd_Clone x) \<le> rd_depth x"
proof (induction x rule: rd_Clone.induct)
  case (7 ks vs d)
  have "rd_depth v < Suc (foldr (\<lambda>(k, v) n. max (rd_depth v) n) vs 0)"
    if kv: "(k, v) \<in> set (foldr (\<lambda>(k, v) out. gset k (rd_Clone v) out) vs [])" for k v
  proof -
    obtain v' where v': "(k, v') \<in> set vs" "v = rd_Clone v'" using set_foldr_gset [OF kv] by auto
    then show ?thesis using "7" [OF v'(1) refl] rd_depth_in [OF v'(1)] by fastforce
  qed
  then show ?case by (auto intro!: rd_depth_bound)
qed auto

lemma rd_depth_raw:
  "(k, v) \<in> set (Values (om_RawState \<lparr>om_keys = ks, om_values = vs, om_dirty = d\<rparr>)) \<Longrightarrow>
     rd_depth v < rd_depth (RORMap ks vs d)"
  using rd_depth_Clone rd_depth_in [of k _ vs ks d]
  by (fastforce simp: om_RawState_def dest!: set_foldr_gset intro: le_less_trans)

definition encodeGCounter :: "gcounter \<Rightarrow> 'b crdt_data" where
  "encodeGCounter c = PbGCounter (gc_State c)"

definition encodePNCounter :: "pncounter \<Rightarrow> 'b crdt_data" where
  "encodePNCounter c = (case pn_State c of (inc, dec) \<Rightarrow> PbPnCounter inc dec)"

definition encodeFlag :: "flag \<Rightarrow> 'b crdt_data" where
  "encodeFlag f = PbFlag (fl_enabled f)"

text \<open>
  \<open>encodeORMap\<close> and \<open>EncodeCRDT\<close> call each other; the inner call is the argument \<open>encode\<close>. The
  congruence rule shows the termination proof that it is only called on values of the map.
\<close>

definition encodeORMap ::
  "('a \<Rightarrow> 'x + 'b) \<Rightarrow> ('a rdata \<Rightarrow> 'x codec_error + 'b crdt_data) \<Rightarrow> 'a ormap \<Rightarrow> 'x codec_error + 'b crdt_data" where
  "encodeORMap ser encode m =
     (let state = om_RawState m
      in case encodeORSetEntries ser (KeyEntries state) (KeyClock state) of
           Inl e \<Rightarrow> Inl (Wrapped ''failed to encode ORMap key set'' e)
         | Inr keySet \<Rightarrow>
             (case traverse (\<lambda>(k, v).
                 case encode v of
                   Inl e \<Rightarrow> Inl (Wrapped ''failed to encode ORMap value'' e)
                 | Inr valData \<Rightarrow>
                     (case ser k of
                        Inl e \<Rightarrow> Inl (SerializerError ''failed to encode ORMap key'' e)
                      | Inr keyBytes \<Rightarrow> Inr (keyBytes, Some valData))) (Values state) of
                Inl e \<Rightarrow> Inl e
              | Inr pbs \<Rightarrow> Inr (PbOrMap pbs (Some keySet))))"

lemma encodeORMap_cong [fundef_cong]:
  assumes "ser = ser'" "m = m'" "\<And>k v. (k, v) \<in> set (Values (om_RawState m')) \<Longrightarrow> f v = g v"
  shows "encodeORMap ser f m = encodeORMap ser' g m'"
  unfolding encodeORMap_def Let_def assms(1,2)
  by (intro sum.case_cong refl traverse_cong) (auto dest: assms(3))

function EncodeCRDT :: "('a \<Rightarrow> 'x + 'b) \<Rightarrow> 'a rdata \<Rightarrow> 'x codec_error + 'b crdt_data" where
  "EncodeCRDT ser (RGCounter c) = Inr (encodeGCounter c)"
| "EncodeCRDT ser (RPNCounter c) = Inr (encodePNCounter c)"
| "EncodeCRDT ser (RFlag x) = Inr (encodeFlag x)"
| "EncodeCRDT ser (RLWW r) =
     (case encodeLWWRegister ser r of Inl e \<Rightarrow> Inl e | Inr d \<Rightarrow> Inr (PbLww d))"
| "EncodeCRDT ser (RORSet s) =
     (case encodeORSet ser s of Inl e \<Rightarrow> Inl e | Inr d \<Rightarrow> Inr (PbOrSet d))"
| "EncodeCRDT ser (RMV r) =
     (case encodeMVRegister ser r of Inl e \<Rightarrow> Inl e | Inr d \<Rightarrow> Inr (PbMv d))"
| "EncodeCRDT ser (RORMap ks vs dirty) =
     encodeORMap ser (EncodeCRDT ser) \<lparr>om_keys = ks, om_values = vs, om_dirty = dirty\<rparr>"
  by pat_completeness auto
termination
  by (relation "measure (\<lambda>(ser, x). rd_depth x)") (auto dest!: rd_depth_raw)

subsection \<open>Decoding\<close>

definition decodeFlag :: "bool \<Rightarrow> flag" where
  "decodeFlag en = (if en then fl_Enable NewFlag else NewFlag)"

definition decodeLWWRegister :: "('b \<Rightarrow> 'x + 'a) \<Rightarrow> 'b pb_lww \<Rightarrow> 'x codec_error + 'a lww" where
  "decodeLWWRegister deser pb =
     (case deser (pb_value pb) of
        Inl e \<Rightarrow> Inl (SerializerError ''decode LWWRegister value'' e)
      | Inr val \<Rightarrow> Inr (LWWRegisterFromState val (pb_timestamp pb) (pb_nodeId pb)))"

definition decodeORSetEntries :: "('b \<Rightarrow> 'x + 'a) \<Rightarrow> 'b pb_orset \<Rightarrow> 'x codec_error + 'a os_entry list" where
  "decodeORSetEntries deser pb =
     traverse (\<lambda>(el, dots). case deser el of
          Inl err \<Rightarrow> Inl (SerializerError ''decode ORSet element'' err)
        | Inr x \<Rightarrow> Inr \<lparr>Element = x, Dots = map (\<lambda>d. \<lparr>nodeID = nodeID d, counter = counter d\<rparr>) dots\<rparr>)
       (pb_entries pb)"

definition decodeORSet :: "('b \<Rightarrow> 'x + 'a) \<Rightarrow> 'b pb_orset \<Rightarrow> 'x codec_error + 'a orset" where
  "decodeORSet deser pb =
     (case decodeORSetEntries deser pb of
        Inl e \<Rightarrow> Inl e
      | Inr es \<Rightarrow> Inr (ORSetFromRawState es (pb_clock pb)))"

definition decodeMVRegister :: "('b \<Rightarrow> 'x + 'a) \<Rightarrow> 'b pb_mv \<Rightarrow> 'x codec_error + 'a mvregister" where
  "decodeMVRegister deser pb =
     (case traverse (\<lambda>(val, d). case deser val of
               Inl err \<Rightarrow> Inl (SerializerError ''decode MVRegister entry'' err)
             | Inr x \<Rightarrow> Inr \<lparr>mv_value = x, mv_dot = d\<rparr>) (pbmv_entries pb) of
        Inl err \<Rightarrow> Inl err
      | Inr es \<Rightarrow> Inr (MVRegisterFromRawState es (pbmv_clock pb)))"

lemma size_pb_value: "(k, Some d) \<in> set es \<Longrightarrow> size d < size (PbOrMap es ks)"
  by (induction es) auto

definition decodeGCounter :: "(string, u64) gomap \<Rightarrow> gcounter" where
  "decodeGCounter st = GCounterFromState st"

definition decodePNCounter :: "(string, u64) gomap \<Rightarrow> (string, u64) gomap \<Rightarrow> pncounter" where
  "decodePNCounter inc dec = PNCounterFromState inc dec"

definition decode_value ::
  "('b \<Rightarrow> 'x + 'a) \<Rightarrow> ('b crdt_data \<Rightarrow> 'x codec_error + 'a rdata) \<Rightarrow> 'b \<times> 'b crdt_data option \<Rightarrow>
     'x codec_error + ('a \<times> 'a rdata)" where
  "decode_value deser decode = (\<lambda>(kb, vd).
     case deser kb of
       Inl e \<Rightarrow> Inl (SerializerError ''failed to decode ORMap key'' e)
     | Inr key \<Rightarrow>
         (case (case vd of None \<Rightarrow> Inl NilData | Some d \<Rightarrow> decode d) of
            Inl e \<Rightarrow> Inl (Wrapped ''failed to decode ORMap value'' e)
          | Inr data \<Rightarrow> Inr (key, data)))"

definition decodeORMap ::
  "('b \<Rightarrow> 'x + 'a) \<Rightarrow> ('b crdt_data \<Rightarrow> 'x codec_error + 'a rdata) \<Rightarrow>
     ('b \<times> 'b crdt_data option) list \<Rightarrow> 'b pb_orset option \<Rightarrow> 'x codec_error + 'a ormap" where
  "decodeORMap deser decode es keySet =
     (case (case keySet of
              None \<Rightarrow> Inr ([], [])
            | Some ks \<Rightarrow>
                (case decodeORSetEntries deser ks of
                   Inl e \<Rightarrow> Inl (Wrapped ''failed to decode ORMap key set'' e)
                 | Inr kes \<Rightarrow> Inr (kes, pb_clock ks))) of
        Inl e \<Rightarrow> Inl e
      | Inr (keyEntries, keyClock) \<Rightarrow>
          (case traverse (decode_value deser decode) es of
             Inl e \<Rightarrow> Inl e
           | Inr kvs \<Rightarrow>
               Inr (ORMapFromRawState
                 \<lparr>KeyEntries = keyEntries, KeyClock = keyClock,
                  Values = foldl (\<lambda>m (key, data). gset key data m) [] kvs\<rparr>)))"

lemma decodeORMap_cong [fundef_cong]:
  assumes "deser = deser'" "es = es'" "ks = ks'" "\<And>k d. (k, Some d) \<in> set es' \<Longrightarrow> f d = g d"
  shows "decodeORMap deser f es ks = decodeORMap deser' g es' ks'"
proof -
  have "traverse (decode_value deser' f) es' = traverse (decode_value deser' g) es'"
    by (rule traverse_cong)
       (auto simp: decode_value_def assms(4) split: sum.split option.split)
  then show ?thesis unfolding decodeORMap_def assms(1-3) by (simp only:)
qed

function DecodeCRDT :: "('b \<Rightarrow> 'x + 'a) \<Rightarrow> 'b crdt_data \<Rightarrow> 'x codec_error + 'a rdata" where
  "DecodeCRDT deser (PbGCounter st) = Inr (RGCounter (decodeGCounter st))"
| "DecodeCRDT deser (PbPnCounter inc dec) = Inr (RPNCounter (decodePNCounter inc dec))"
| "DecodeCRDT deser (PbFlag en) = Inr (RFlag (decodeFlag en))"
| "DecodeCRDT deser (PbLww pb) =
     (case decodeLWWRegister deser pb of Inl e \<Rightarrow> Inl e | Inr r \<Rightarrow> Inr (RLWW r))"
| "DecodeCRDT deser (PbOrSet pb) =
     (case decodeORSet deser pb of Inl e \<Rightarrow> Inl e | Inr s \<Rightarrow> Inr (RORSet s))"
| "DecodeCRDT deser (PbMv pb) =
     (case decodeMVRegister deser pb of Inl e \<Rightarrow> Inl e | Inr r \<Rightarrow> Inr (RMV r))"
| "DecodeCRDT deser (PbOrMap es keySet) =
     (case decodeORMap deser (DecodeCRDT deser) es keySet of Inl e \<Rightarrow> Inl e | Inr m \<Rightarrow> Inr (om_rd m))"
| "DecodeCRDT deser PbUnset = Inl UnsupportedData"
  by pat_completeness auto
termination
  by (relation "measure (\<lambda>(deser, x). size x)") (auto dest: size_pb_value)

text \<open>The entry point takes a pointer, which may be nil.\<close>

definition DecodeCRDT_ptr :: "('b \<Rightarrow> 'x + 'a) \<Rightarrow> 'b crdt_data option \<Rightarrow> 'x codec_error + 'a rdata" where
  "DecodeCRDT_ptr deser pb = (case pb of None \<Rightarrow> Inl NilData | Some d \<Rightarrow> DecodeCRDT deser d)"

subsection \<open>What a replicated value shows\<close>

text \<open>
  The observable content of a value: slots, stamps, dots and clocks as functions and sets. Dirty
  bits, deltas and the order of Go maps are not part of it.
\<close>

datatype (dead 'a) robs =
    OGCounter "string \<rightharpoonup> u64"
  | OPNCounter "string \<rightharpoonup> u64" "string \<rightharpoonup> u64"
  | OFlag bool
  | OLWW 'a int string
  | OMV "('a \<times> dot) list" vclock
  | OORSet "'a store"
  | OORMap "'a store" "'a \<Rightarrow> 'a robs option"

primrec rd_obs :: "'a rdata \<Rightarrow> 'a robs" where
  "rd_obs (RGCounter c) = OGCounter (gc_slots c)"
| "rd_obs (RPNCounter c) = OPNCounter (gc_slots (pn_increments c)) (gc_slots (pn_decrements c))"
| "rd_obs (RFlag x) = OFlag (fl_enabled x)"
| "rd_obs (RLWW r) = OLWW (lww_value r) (lww_timestamp r) (lww_nodeID r)"
| "rd_obs (RMV r) = OMV (map (\<lambda>e. (mv_value e, mv_dot e)) (mv_entries r)) (gget0 (mv_clock r))"
| "rd_obs (RORSet s) = OORSet (os_store s)"
| "rd_obs (RORMap ks vs d) = OORMap (os_store ks) (map_of (map (map_prod id rd_obs) vs))"

function rd_wf :: "'a rdata \<Rightarrow> bool" where
  "rd_wf (RORMap ks vs d) \<longleftrightarrow> keys_ok (os_entries ks) \<and> keys_ok vs \<and> (\<forall>(k, v) \<in> set vs. rd_wf v)"
| "rd_wf (RORSet s) \<longleftrightarrow> keys_ok (os_entries s)"
| "rd_wf (RGCounter c) \<longleftrightarrow> True"
| "rd_wf (RPNCounter p) \<longleftrightarrow> True"
| "rd_wf (RFlag f) \<longleftrightarrow> True"
| "rd_wf (RLWW l) \<longleftrightarrow> True"
| "rd_wf (RMV m) \<longleftrightarrow> True"
  by pat_completeness auto
termination
  by (relation "measure size") (auto dest: size_value_in)

lemma map_of_obs [simp]: "map_of (map (map_prod id f) vs) = (\<lambda>k. map_option f (map_of vs k))"
  by (induction vs) (auto simp: fun_eq_iff)

lemma rd_obs_Clone [simp]: "rd_obs (rd_Clone x) = rd_obs x"
proof (induction x rule: rd_Clone.induct)
  case (7 ks vs d)
  have "map_option rd_obs (map_option rd_Clone (map_of vs k)) = map_option rd_obs (map_of vs k)" for k
    using "7" by (cases "map_of vs k") (auto dest: map_of_SomeD)
  then show ?case by (simp add: map_of_foldr_snd)
qed (simp_all add: pn_Clone_def fl_Clone_def lww_Clone_def mv_cloneInternal_def)

lemma rd_wf_Clone: "rd_wf x \<Longrightarrow> rd_wf (rd_Clone x)"
proof (induction x rule: rd_Clone.induct)
  case (7 ks vs d)
  then have "rd_wf v" if "(k, v) \<in> set (foldr (\<lambda>(k, v) out. gset k (rd_Clone v) out) vs [])" for k v
    using set_foldr_gset [OF that] by fastforce
  then show ?case
    by (auto simp: keys_ok_foldr_snd os_cloneInternal_def clone_dot_map_copy)
qed (auto simp: os_cloneInternal_def clone_dot_map_copy)

subsection \<open>Round trips of the parts\<close>

lemma ORSet_entries_roundtrip:
  assumes inv: "\<And>x b. ser x = Inr b \<Longrightarrow> deser b = Inr x"
    and enc: "encodeORSetEntries ser es clock = Inr pb"
  shows "decodeORSetEntries deser pb = Inr es \<and> pb_clock pb = clock"
proof -
  let ?f = "\<lambda>e. case ser (Element e) of
      Inl err \<Rightarrow> Inl (SerializerError ''encode ORSet element'' err)
    | Inr el \<Rightarrow> Inr (el, map (\<lambda>d. \<lparr>nodeID = nodeID d, counter = counter d\<rparr>) (Dots e))"
  from enc obtain pbs where pb: "pb = \<lparr>pb_entries = pbs, pb_clock = clock\<rparr>"
    and raw: "list_all2 (\<lambda>e p. ?f e = Inr p) es pbs"
    by (auto simp: encodeORSetEntries_def traverse_Inr split: sum.splits)
  from raw have all: "list_all2 (\<lambda>e p. ser (Element e) = Inr (fst p) \<and> snd p = Dots e) es pbs"
    by (rule list_all2_mono) (auto split: sum.splits)
  from all have "list_all2 (\<lambda>p e. (case p of (el, dots) \<Rightarrow> case deser el of
          Inl err \<Rightarrow> Inl (SerializerError ''decode ORSet element'' err)
        | Inr x \<Rightarrow> Inr \<lparr>Element = x, Dots = map (\<lambda>d. \<lparr>nodeID = nodeID d, counter = counter d\<rparr>) dots\<rparr>) = Inr e) pbs es"
    by (induction rule: list_all2_induct) (auto simp: inv)
  then show ?thesis by (simp add: pb decodeORSetEntries_def traverse_Inr)
qed

lemma mventry_eta [simp]: "\<lparr>mv_value = mv_value e, mv_dot = mv_dot e\<rparr> = e"
  by simp

lemma mv_RawState_id: "mv_RawState r = (mv_entries r, gcopy [] (mv_clock r))"
  by (simp add: mv_RawState_def)

lemma MV_roundtrip:
  assumes inv: "\<And>x b. ser x = Inr b \<Longrightarrow> deser b = Inr x"
    and enc: "encodeMVRegister ser r = Inr pb"
  shows "\<exists>r'. decodeMVRegister deser pb = Inr r' \<and> rd_obs (RMV r') = rd_obs (RMV r)"
proof -
  let ?f = "\<lambda>e. case ser (mv_value e) of
      Inl err \<Rightarrow> Inl (SerializerError ''encode MVRegister entry'' err)
    | Inr val \<Rightarrow> Inr (val, mv_dot e)"
  from enc obtain pbs where pb: "pb = \<lparr>pbmv_entries = pbs, pbmv_clock = gcopy [] (mv_clock r)\<rparr>"
    and raw: "list_all2 (\<lambda>e p. ?f e = Inr p) (mv_entries r) pbs"
    by (auto simp: encodeMVRegister_def mv_RawState_id traverse_Inr split: sum.splits)
  from raw have all: "list_all2 (\<lambda>e p. ser (mv_value e) = Inr (fst p) \<and> snd p = mv_dot e) (mv_entries r) pbs"
    by (rule list_all2_mono) (auto split: sum.splits)
  from all have "list_all2 (\<lambda>p e. (case p of (val, d) \<Rightarrow> case deser val of
          Inl err \<Rightarrow> Inl (SerializerError ''decode MVRegister entry'' err)
        | Inr x \<Rightarrow> Inr \<lparr>mv_value = x, mv_dot = d\<rparr>) = Inr e) pbs (mv_entries r)"
    by (induction rule: list_all2_induct) (auto simp: inv)
  then have "decodeMVRegister deser pb = Inr (MVRegisterFromRawState (mv_entries r) (gcopy [] (mv_clock r)))"
    by (simp add: pb decodeMVRegister_def traverse_Inr [symmetric])
  then show ?thesis by (simp add: MVRegisterFromRawState_def comp_def)
qed

lemma foldl_gset_obs:
  "keys_ok kvs \<Longrightarrow> map_of (foldl (\<lambda>m (key, data). gset key data m) acc kvs) = map_of acc ++ map_of kvs"
proof (induction kvs arbitrary: acc)
  case (Cons x xs)
  obtain k v where "x = (k, v)" by force
  with Cons show ?case by (auto simp: fun_eq_iff map_add_def split: option.splits)
qed simp

lemma list_all2_obs:
  "list_all2 (\<lambda>(k, v) (k', y). k' = k \<and> rd_obs y = rd_obs v) vs kvs \<Longrightarrow>
     map fst kvs = map fst vs \<and> (\<forall>k. map_option rd_obs (map_of kvs k) = map_option rd_obs (map_of vs k))"
  by (induction rule: list_all2_induct) auto

lemma values_roundtrip:
  assumes inv: "\<And>x b. ser x = Inr b \<Longrightarrow> deser b = Inr x"
    and "list_all2 (\<lambda>(k, v) p. \<exists>kb vd. ser k = Inr kb \<and> EncodeCRDT ser v = Inr vd \<and> p = (kb, Some vd)) vs pbs"
    and "\<And>k v vd. (k, v) \<in> set vs \<Longrightarrow> EncodeCRDT ser v = Inr vd \<Longrightarrow>
          \<exists>y. DecodeCRDT deser vd = Inr y \<and> rd_obs y = rd_obs v"
  shows "\<exists>kvs. traverse (decode_value deser (DecodeCRDT deser)) pbs = Inr kvs \<and>
    list_all2 (\<lambda>(k, v) (k', y). k' = k \<and> rd_obs y = rd_obs v) vs kvs"
  using assms(2,3)
proof (induction rule: list_all2_induct)
  case (Cons x xs p ps)
  obtain k v where x: "x = (k, v)" by force
  with Cons.hyps(1) obtain kb vd where p: "ser k = Inr kb" "EncodeCRDT ser v = Inr vd" "p = (kb, Some vd)"
    by auto
  obtain y where y: "DecodeCRDT deser vd = Inr y" "rd_obs y = rd_obs v"
    using Cons.prems [of k v vd] x p(2) by auto
  obtain kvs where "traverse (decode_value deser (DecodeCRDT deser)) ps = Inr kvs"
      "list_all2 (\<lambda>(k, v) (k', y). k' = k \<and> rd_obs y = rd_obs v) xs kvs"
    using Cons.IH Cons.prems by (meson list.set_intros(2))
  then show ?case
    using p y x inv [OF p(1)] by (intro exI [of _ "(k, y) # kvs"]) (simp add: decode_value_def)
qed simp

lemma EncodeCRDT_ORMap:
  assumes "EncodeCRDT ser (RORMap ks vs d) = Inr pb"
  obtains pbs keySet where
    "pb = PbOrMap pbs (Some keySet)"
    "encodeORSetEntries ser (fst (os_RawState ks)) (snd (os_RawState ks)) = Inr keySet"
    "list_all2 (\<lambda>(k, v) p. \<exists>kb vd. ser k = Inr kb \<and> EncodeCRDT ser v = Inr vd \<and> p = (kb, Some vd))
       (Values (om_RawState \<lparr>om_keys = ks, om_values = vs, om_dirty = d\<rparr>)) pbs"
proof -
  let ?st = "om_RawState \<lparr>om_keys = ks, om_values = vs, om_dirty = d\<rparr>"
  let ?f = "\<lambda>(k, v). case EncodeCRDT ser v of
      Inl e \<Rightarrow> Inl (Wrapped ''failed to encode ORMap value'' e)
    | Inr valData \<Rightarrow>
        (case ser k of
           Inl e \<Rightarrow> Inl (SerializerError ''failed to encode ORMap key'' e)
         | Inr keyBytes \<Rightarrow> Inr (keyBytes, Some valData))"
  from assms obtain pbs keySet where *: "pb = PbOrMap pbs (Some keySet)"
    "encodeORSetEntries ser (KeyEntries ?st) (KeyClock ?st) = Inr keySet" "traverse ?f (Values ?st) = Inr pbs"
    by (auto simp: encodeORMap_def Let_def split: sum.splits)
  from *(3) have "list_all2 (\<lambda>x p. ?f x = Inr p) (Values ?st) pbs" by (simp add: traverse_Inr)
  then have "list_all2 (\<lambda>(k, v) p. \<exists>kb vd. ser k = Inr kb \<and> EncodeCRDT ser v = Inr vd \<and> p = (kb, Some vd))
       (Values ?st) pbs"
    by (rule list_all2_mono) (auto split: sum.splits)
  with * show thesis by (intro that) (simp_all add: om_RawState_def)
qed

lemma DecodeCRDT_ORMap:
  assumes "decodeORSetEntries deser keySet = Inr kes" "traverse (decode_value deser (DecodeCRDT deser)) pbs = Inr kvs"
  shows "DecodeCRDT deser (PbOrMap pbs (Some keySet)) =
    Inr (RORMap (ORSetFromRawState kes (pb_clock keySet))
      (gcopy [] (foldl (\<lambda>m (key, data). gset key data m) [] kvs)) False)"
  using assms by (simp add: decodeORMap_def om_rd_def ORMapFromRawState_def)

subsection \<open>Properties\<close>

text \<open>
  C7. Decoding what the codec encoded gives back the value: for every replicated value, nested
  maps included, whose encoding succeeds, decoding succeeds and yields the same observable
  content. The serializer is any pair that decodes what it encoded.
\<close>

theorem codec_roundtrip:
  assumes inv: "\<And>x b. ser x = Inr b \<Longrightarrow> deser b = Inr x"
    and "rd_wf x" and "EncodeCRDT ser x = Inr pb"
  shows "\<exists>y. DecodeCRDT deser pb = Inr y \<and> rd_obs y = rd_obs x"
  using assms(2,3)
proof (induction x arbitrary: pb rule: measure_induct_rule [where f = rd_depth])
  case (less x)
  show ?case
  proof (cases x)
    case (RORMap ks vs d)
    let ?vals = "Values (om_RawState \<lparr>om_keys = ks, om_values = vs, om_dirty = d\<rparr>)"
    obtain pbs keySet where pb: "pb = PbOrMap pbs (Some keySet)"
      and ks: "encodeORSetEntries ser (fst (os_RawState ks)) (snd (os_RawState ks)) = Inr keySet"
      and vals: "list_all2 (\<lambda>(k, v) p. \<exists>kb vd. ser k = Inr kb \<and> EncodeCRDT ser v = Inr vd \<and> p = (kb, Some vd)) ?vals pbs"
      by (rule EncodeCRDT_ORMap [OF less.prems(2) [unfolded RORMap]])
    have IH: "\<exists>y. DecodeCRDT deser vd = Inr y \<and> rd_obs y = rd_obs v"
      if kv: "(k, v) \<in> set ?vals" and "EncodeCRDT ser v = Inr vd" for k v vd
    proof -
      obtain v' where v': "(k, v') \<in> set vs" "v = rd_Clone v'"
        using kv set_foldr_gset by (fastforce simp: om_RawState_def)
      then have "rd_wf v" using less.prems(1) RORMap by (auto intro: rd_wf_Clone)
      then show ?thesis using less.IH [of v] rd_depth_raw [OF kv] that(2) RORMap by simp
    qed
    obtain kvs where kvs: "traverse (decode_value deser (DecodeCRDT deser)) pbs = Inr kvs"
      "list_all2 (\<lambda>(k, v) (k', y). k' = k \<and> rd_obs y = rd_obs v) ?vals kvs"
      using values_roundtrip [where ser = ser and deser = deser, OF inv vals] IH by blast
    have keys: "keys_ok kvs" and obs: "\<And>k. map_option rd_obs (map_of kvs k) = map_option rd_obs (map_of vs k)"
      using list_all2_obs [OF kvs(2)] keys_ok_foldr_snd [of rd_Clone vs]
      by (auto simp: keys_ok_def om_RawState_def map_of_foldr_snd option.map_comp comp_def)
    let ?y = "RORMap (ORSetFromRawState (fst (os_RawState ks)) (snd (os_RawState ks)))
      (gcopy [] (foldl (\<lambda>m (key, data). gset key data m) [] kvs)) False"
    have dec: "decodeORSetEntries deser keySet = Inr (fst (os_RawState ks))" "pb_clock keySet = snd (os_RawState ks)"
      using ORSet_entries_roundtrip [where ser = ser and deser = deser, OF inv ks] by auto
    have "DecodeCRDT deser pb = Inr ?y"
      using DecodeCRDT_ORMap [OF dec(1) kvs(1)] dec(2) by (simp only: pb)
    moreover have "rd_obs ?y = rd_obs x"
      using less.prems(1) RORMap by (simp add: foldl_gset_obs [OF keys] obs os_store_FromRaw)
    ultimately show ?thesis by blast
  next
    case (RORSet s)
    then obtain pbs where pbs: "pb = PbOrSet pbs"
        "encodeORSetEntries ser (fst (os_RawState s)) (snd (os_RawState s)) = Inr pbs"
      using less.prems(2) by (auto simp: encodeORSet_def split: sum.splits)
    then show ?thesis
      using ORSet_entries_roundtrip [where ser = ser and deser = deser, OF inv pbs(2)] less.prems(1) RORSet
      by (simp add: decodeORSet_def os_store_FromRaw)
  next
    case (RMV r)
    then show ?thesis
      using less.prems(2) MV_roundtrip [of ser deser, OF inv] by (fastforce split: sum.splits)
  next
    case (RLWW r)
    then show ?thesis
      using less.prems(2)
      by (auto simp: encodeLWWRegister_def decodeLWWRegister_def inv LWWRegisterFromState_def split: sum.splits)
  qed (use less.prems(2) in \<open>auto simp: encodeGCounter_def encodePNCounter_def encodeFlag_def
        decodeGCounter_def decodePNCounter_def gc_State_def pn_State_def GCounterFromState_def PNCounterFromState_def
        gc_slots_def decodeFlag_def fl_Enable_def NewFlag_def\<close>)
qed

theorem codec_roundtrip_witness:
  "let x = om_rd (om_Set NewORMap ''A'' (7::nat) (RORSet (os_Add NewORSet ''B'' 3)))
   in \<exists>pb y. EncodeCRDT (\<lambda>v. Inr v :: string + nat) x = Inr pb \<and>
        DecodeCRDT (\<lambda>b. Inr b :: string + nat) pb = Inr y \<and> rd_obs y = rd_obs x"
proof -
  let ?x = "om_rd (om_Set NewORMap ''A'' (7::nat) (RORSet (os_Add NewORSet ''B'' 3)))"
  have wf: "rd_wf ?x"
    by (simp add: om_rd_def om_Set_def om_cloneInternal_def NewORMap_def NewORSet_def os_Add_def
        os_shallowCopy_def os_cloneInternal_def clone_dot_map_def gcopy_def Let_def)
  have "case EncodeCRDT (\<lambda>v. Inr v :: string + nat) ?x of Inl _ \<Rightarrow> False | Inr _ \<Rightarrow> True"
    by code_simp
  then obtain pb where pb: "EncodeCRDT (\<lambda>v. Inr v :: string + nat) ?x = Inr pb"
    by (auto split: sum.splits)
  have "\<exists>y. DecodeCRDT (\<lambda>b. Inr b :: string + nat) pb = Inr y \<and> rd_obs y = rd_obs ?x"
    by (rule codec_roundtrip [OF _ wf pb]) simp
  with pb show ?thesis by (auto simp: Let_def)
qed

end
