(* ===== verification/Breaker_Window.thy ===== *)
theory Breaker_Window
  imports Go_Prelude
begin

section \<open>The rolling window of the circuit breaker\<close>

text \<open>
  \<^verbatim>\<open>breaker/bucket.go\<close>: the ring of buckets that counts successes and failures. Times and
  durations are nanoseconds, as integers: 64-bit Unix times do not overflow before the year 2262.
  Counts are 64-bit words. Each operation takes the clock reading it makes as an argument and runs
  under the window's mutex, so it is one function on the state.

  The ring refines a rolling log of events, a list of slots from the newest to the oldest one. The
  two results at the end are a bound on what the window forgets and the time an event may stay.
\<close>

subsection \<open>Buckets and the window\<close>

record bucket =
  b_succ :: u64
  b_fail :: u64
  b_start :: int

definition bucket_reset :: "int \<Rightarrow> bucket \<Rightarrow> bucket" where
  "bucket_reset startTime b = b\<lparr>b_succ := 0, b_fail := 0, b_start := startTime\<rparr>"

record bucketWindow =
  bucketDur :: int
  num :: nat
  windowNanos :: int
  buf :: "bucket list"
  cursor :: nat
  lastUpdate :: int

definition newBuckets :: "int \<Rightarrow> int \<Rightarrow> int \<Rightarrow> bucketWindow" where
  "newBuckets window n0 now =
     (let n = if n0 < 1 then 1 else n0;
          d0 = window div n;
          d = if d0 \<le> 0 then 1 else d0
      in \<lparr>bucketDur = d, num = nat n, windowNanos = window,
          buf = map (bucket_reset now) (replicate (nat n) \<lparr>b_succ = 0, b_fail = 0, b_start = 0\<rparr>),
          cursor = 0, lastUpdate = now\<rparr>)"

definition hardResetLocked :: "int \<Rightarrow> bucketWindow \<Rightarrow> bucketWindow" where
  "hardResetLocked now bw = bw\<lparr>buf := map (bucket_reset now) (buf bw), cursor := 0, lastUpdate := now\<rparr>"

definition advance_step :: "bucketWindow \<Rightarrow> nat \<Rightarrow> bucketWindow" where
  "advance_step bw i =
     (let c = (cursor bw + 1) mod num bw;
          bucketStartTime = lastUpdate bw + (int i + 1) * bucketDur bw
      in bw\<lparr>cursor := c, buf := (buf bw)[c := bucket_reset bucketStartTime (buf bw ! c)]\<rparr>)"

definition advanceLocked :: "int \<Rightarrow> bucketWindow \<Rightarrow> bucketWindow" where
  "advanceLocked now bw =
     (if now < lastUpdate bw + bucketDur bw then bw
      else
        let elapsed = now - lastUpdate bw
        in if windowNanos bw \<le> elapsed then hardResetLocked now bw
           else
             let steps = min (elapsed div bucketDur bw) (int (num bw) - 1)
             in (foldl advance_step bw [0..<nat steps])\<lparr>lastUpdate := now\<rparr>)"

definition addSuccess :: "int \<Rightarrow> u64 \<Rightarrow> bucketWindow \<Rightarrow> bucketWindow" where
  "addSuccess now n bw0 =
     (let bw = advanceLocked now bw0; b = buf bw ! cursor bw
      in bw\<lparr>buf := (buf bw)[cursor bw := b\<lparr>b_succ := b_succ b + n\<rparr>]\<rparr>)"

definition addFailure :: "int \<Rightarrow> u64 \<Rightarrow> bucketWindow \<Rightarrow> bucketWindow" where
  "addFailure now n bw0 =
     (let bw = advanceLocked now bw0; b = buf bw ! cursor bw
      in bw\<lparr>buf := (buf bw)[cursor bw := b\<lparr>b_fail := b_fail b + n\<rparr>]\<rparr>)"

definition totals :: "int \<Rightarrow> bucketWindow \<Rightarrow> (u64 \<times> u64) \<times> bucketWindow" where
  "totals now bw0 =
     (let bw = advanceLocked now bw0
      in (foldl (\<lambda>(succ, fail) i. (succ + b_succ (buf bw ! i), fail + b_fail (buf bw ! i))) (0, 0) [0..<num bw],
          bw))"

definition bw_reset :: "int \<Rightarrow> bucketWindow \<Rightarrow> bucketWindow" where
  "bw_reset now bw =
     bw\<lparr>buf := map (\<lambda>b. b\<lparr>b_succ := 0, b_fail := 0, b_start := now\<rparr>) (buf bw), cursor := 0\<rparr>"

definition windowBounds :: "int \<Rightarrow> bucketWindow \<Rightarrow> (int \<times> int) \<times> bucketWindow" where
  "windowBounds now bw0 =
     (let bw = advanceLocked now bw0 in ((now - bucketDur bw * int (num bw), now), bw))"

subsection \<open>Well-formed windows\<close>

definition win_ok :: "bucketWindow \<Rightarrow> bool" where
  "win_ok bw \<longleftrightarrow> 0 < num bw \<and> length (buf bw) = num bw \<and> cursor bw < num bw \<and> 0 < bucketDur bw"

lemma win_ok_new: "win_ok (newBuckets window n now)"
  by (simp add: win_ok_def newBuckets_def Let_def)

lemma advance_step_frame [simp]:
  "num (advance_step bw i) = num bw" "bucketDur (advance_step bw i) = bucketDur bw"
  "windowNanos (advance_step bw i) = windowNanos bw" "lastUpdate (advance_step bw i) = lastUpdate bw"
  by (simp_all add: advance_step_def Let_def)

lemma advance_steps_frame [simp]:
  "num (foldl advance_step bw xs) = num bw" "bucketDur (foldl advance_step bw xs) = bucketDur bw"
  "windowNanos (foldl advance_step bw xs) = windowNanos bw" "lastUpdate (foldl advance_step bw xs) = lastUpdate bw"
  by (induction xs arbitrary: bw) auto

lemma win_ok_step: "win_ok bw \<Longrightarrow> win_ok (advance_step bw i)"
  by (auto simp: win_ok_def advance_step_def Let_def)

lemma win_ok_steps: "win_ok bw \<Longrightarrow> win_ok (foldl advance_step bw xs)"
  by (induction xs arbitrary: bw) (auto simp: win_ok_step)

lemma win_ok_lastUpdate [simp]: "win_ok (bw\<lparr>lastUpdate := t\<rparr>) = win_ok bw"
  by (simp add: win_ok_def)

lemma win_ok_advance: "win_ok bw \<Longrightarrow> win_ok (advanceLocked now bw)"
  using win_ok_steps [of bw] by (auto simp: advanceLocked_def Let_def hardResetLocked_def win_ok_def)

lemma advanceLocked_frame [simp]:
  "num (advanceLocked now bw) = num bw" "bucketDur (advanceLocked now bw) = bucketDur bw"
  "windowNanos (advanceLocked now bw) = windowNanos bw"
  by (simp_all add: advanceLocked_def Let_def hardResetLocked_def)

lemma win_ok_ops:
  assumes "win_ok bw"
  shows "win_ok (addSuccess now n bw)" "win_ok (addFailure now n bw)" "win_ok (bw_reset now bw)"
    "win_ok (snd (totals now bw))" "win_ok (snd (windowBounds now bw))"
  using win_ok_advance [OF assms, of now] assms
  by (auto simp: addSuccess_def addFailure_def bw_reset_def totals_def windowBounds_def Let_def win_ok_def)

subsection \<open>The ring as a list of slots, newest first\<close>

definition counts :: "bucket \<Rightarrow> u64 \<times> u64" where
  "counts b = (b_succ b, b_fail b)"

definition slot :: "bucketWindow \<Rightarrow> nat \<Rightarrow> u64 \<times> u64" where
  "slot bw a = counts (buf bw ! ((cursor bw + num bw - a) mod num bw))"

definition slots :: "bucketWindow \<Rightarrow> (u64 \<times> u64) list" where
  "slots bw = map (slot bw) [0..<num bw]"

lemma counts_reset [simp]: "counts (bucket_reset t b) = (0, 0)"
  by (simp add: counts_def bucket_reset_def)

lemma length_slots [simp]: "length (slots bw) = num bw"
  by (simp add: slots_def)

lemma slots_lastUpdate [simp]: "slots (bw\<lparr>lastUpdate := t\<rparr>) = slots bw"
  by (simp add: slots_def slot_def fun_eq_iff)

lemma ring_index:
  fixes c n a :: nat
  assumes "c < n" "0 < a" "a < n"
  shows "((c + 1) mod n + n - a) mod n = (c + n - (a - 1)) mod n"
    and "(c + n - (a - 1)) mod n \<noteq> (c + 1) mod n"
proof -
  have *: "(c + n - (a - 1)) mod n = (if a - 1 \<le> c then c - (a - 1) else c + n - (a - 1))"
    using assms by (auto simp: mod_if)
  show "((c + 1) mod n + n - a) mod n = (c + n - (a - 1)) mod n"
    using assms by (auto simp: * mod_if)
  show "(c + n - (a - 1)) mod n \<noteq> (c + 1) mod n"
    using assms by (auto simp: * mod_if)
qed

lemma slots_step:
  assumes "win_ok bw"
  shows "slots (advance_step bw i) = (0, 0) # butlast (slots bw)"
proof (rule nth_equalityI)
  fix a assume "a < length (slots (advance_step bw i))"
  then have a: "a < num bw" by simp
  show "slots (advance_step bw i) ! a = ((0, 0) # butlast (slots bw)) ! a"
  proof (cases a)
    case 0
    then show ?thesis using assms a
      by (simp add: slots_def slot_def advance_step_def Let_def win_ok_def)
  next
    case (Suc a')
    then show ?thesis
      using assms a ring_index [of "cursor bw" "num bw" a]
      by (simp add: slots_def slot_def advance_step_def Let_def win_ok_def nth_butlast)
  qed
qed (use assms in \<open>simp add: win_ok_def\<close>)

lemma slots_steps:
  "win_ok bw \<Longrightarrow> k \<le> num bw \<Longrightarrow>
     slots (foldl advance_step bw [0..<k]) = replicate k (0, 0) @ take (num bw - k) (slots bw)"
proof (induction k)
  case (Suc k)
  have "slots (foldl advance_step bw [0..<Suc k]) = (0, 0) # butlast (slots (foldl advance_step bw [0..<k]))"
    using Suc.prems by (simp add: slots_step win_ok_steps)
  also have "\<dots> = (0, 0) # butlast (replicate k (0, 0) @ take (num bw - k) (slots bw))"
    using Suc by simp
  also have "\<dots> = replicate (Suc k) (0, 0) @ take (num bw - Suc k) (slots bw)"
    using Suc.prems length_slots [of bw] by (cases "slots bw = []") (auto simp: butlast_append butlast_take simp del: length_slots)
  finally show ?case .
qed simp

lemma slot_nth: "win_ok bw \<Longrightarrow> (cursor bw + num bw - a) mod num bw < length (buf bw)"
  by (simp add: win_ok_def)

lemma slots_replicate:
  assumes "win_ok bw" "\<And>b. b \<in> set (buf bw) \<Longrightarrow> counts b = (0, 0)"
  shows "slots bw = replicate (num bw) (0, 0)"
  using assms(2) nth_mem [OF slot_nth [OF assms(1)]]
  by (simp add: slots_def slot_def map_replicate_trivial [symmetric] del: map_replicate_trivial)

lemma slots_head:
  assumes "win_ok bw"
  shows "slots (bw\<lparr>buf := (buf bw)[cursor bw := b]\<rparr>) = (slots bw)[0 := counts b]"
proof (rule nth_equalityI)
  fix a assume "a < length (slots (bw\<lparr>buf := (buf bw)[cursor bw := b]\<rparr>))"
  then have a: "a < num bw" by simp
  have "(cursor bw + num bw - a) mod num bw \<noteq> cursor bw" if "0 < a"
    using that a assms by (auto simp: win_ok_def mod_if)
  then show "slots (bw\<lparr>buf := (buf bw)[cursor bw := b]\<rparr>) ! a = (slots bw)[0 := counts b] ! a"
    using a assms by (cases "a = 0") (auto simp: slots_def slot_def win_ok_def)
qed simp

lemma slots_rotate:
  assumes "win_ok bw"
  shows "slots bw = rev (rotate (Suc (cursor bw)) (map counts (buf bw)))"
proof (rule nth_equalityI)
  fix a assume "a < length (slots bw)"
  then have "a < num bw" "num bw - Suc a + Suc (cursor bw) = cursor bw + num bw - a"
    using assms by (auto simp: win_ok_def)
  then show "slots bw ! a = rev (rotate (Suc (cursor bw)) (map counts (buf bw))) ! a"
    using assms by (simp add: slots_def slot_def rev_nth nth_rotate win_ok_def del: rotate_Suc)
       (simp add: add.commute)
qed (use assms in \<open>simp add: win_ok_def\<close>)

lemma foldl_pair_sum:
  fixes f g :: "nat \<Rightarrow> u64"
  shows "foldl (\<lambda>(s, t) i. (s + f i, t + g i)) (s0, t0) is =
     (s0 + sum_list (map f is), t0 + sum_list (map g is))"
  by (induction "is" arbitrary: s0 t0) (auto simp: add.assoc)

lemma sum_list_mset_eq: "mset xs = mset ys \<Longrightarrow> sum_list xs = sum_list (ys :: u64 list)"
  by (metis sum_mset_sum_list)

lemma mset_rotate_eq: "mset (rotate n xs) = mset xs"
  by (simp add: rotate_drop_take flip: mset_append) (metis append_take_drop_id mset_append union_commute)

lemma totals_slots:
  assumes "win_ok bw"
  shows "fst (totals now bw) =
    (sum_list (map fst (slots (advanceLocked now bw))), sum_list (map snd (slots (advanceLocked now bw))))"
proof -
  let ?w = "advanceLocked now bw"
  have ok: "win_ok ?w" by (rule win_ok_advance [OF assms])
  have "map (\<lambda>i. f (buf ?w ! i)) [0..<num ?w] = map f (buf ?w)" for f :: "bucket \<Rightarrow> u64"
    using ok by (intro nth_equalityI) (auto simp: win_ok_def)
  moreover have "mset (map f (slots ?w)) = mset (map (\<lambda>b. f (counts b)) (buf ?w))" for f :: "u64 \<times> u64 \<Rightarrow> u64"
    by (simp add: slots_rotate [OF ok] rotate_map mset_rotate_eq image_mset.compositionality comp_def
        del: rotate_Suc)
  ultimately show ?thesis
    by (auto simp: totals_def Let_def foldl_pair_sum counts_def intro!: sum_list_mset_eq simp del: mset_map)
qed

subsection \<open>The specification: a rolling log of events\<close>

text \<open>An event is the time of a call and whether it succeeded.\<close>

type_synonym event = "int \<times> bool"

record rolling =
  r_last :: int
  r_slots :: "event list list"

definition tally :: "event list \<Rightarrow> u64 \<times> u64" where
  "tally es = (of_nat (length (filter snd es)), of_nat (length (filter (\<lambda>e. \<not> snd e) es)))"

definition roll_advance :: "int \<Rightarrow> int \<Rightarrow> int \<Rightarrow> rolling \<Rightarrow> rolling" where
  "roll_advance dur window now r =
     (if now < r_last r + dur then r
      else if window \<le> now - r_last r then \<lparr>r_last = now, r_slots = map (\<lambda>_. []) (r_slots r)\<rparr>
      else
        let k = min (nat ((now - r_last r) div dur)) (length (r_slots r) - 1)
        in \<lparr>r_last = now, r_slots = replicate k [] @ take (length (r_slots r) - k) (r_slots r)\<rparr>)"

definition roll_add :: "event \<Rightarrow> rolling \<Rightarrow> rolling" where
  "roll_add e r = r\<lparr>r_slots := (r_slots r)[0 := e # r_slots r ! 0]\<rparr>"

definition win_refines :: "bucketWindow \<Rightarrow> rolling \<Rightarrow> bool" where
  "win_refines bw r \<longleftrightarrow> win_ok bw \<and> lastUpdate bw = r_last r \<and> slots bw = map tally (r_slots r)"

lemma tally_simps [simp]:
  "tally [] = (0, 0)"
  "tally ((t, True) # es) = (fst (tally es) + 1, snd (tally es))"
  "tally ((t, False) # es) = (fst (tally es), snd (tally es) + 1)"
  by (simp_all add: tally_def)

lemma win_refines_length: "win_refines bw r \<Longrightarrow> length (r_slots r) = num bw"
  unfolding win_refines_def by (metis length_map length_slots)

lemma win_refines_new:
  "1 \<le> n \<Longrightarrow> win_refines (newBuckets window n now) \<lparr>r_last = now, r_slots = replicate (nat n) []\<rparr>"
  using slots_replicate [OF win_ok_new, of window n now]
  by (auto simp: win_refines_def win_ok_def newBuckets_def Let_def)

lemma slots_hardReset:
  assumes "win_ok bw"
  shows "slots (hardResetLocked now bw) = replicate (num bw) (0, 0)"
proof -
  have "win_ok (hardResetLocked now bw)" using assms by (simp add: win_ok_def hardResetLocked_def)
  then show ?thesis by (subst slots_replicate) (auto simp: hardResetLocked_def)
qed

lemma win_refines_advance:
  assumes ref: "win_refines bw r"
  shows "win_refines (advanceLocked now bw) (roll_advance (bucketDur bw) (windowNanos bw) now r)"
proof -
  from ref have ok: "win_ok bw" and last: "lastUpdate bw = r_last r" and sl: "slots bw = map tally (r_slots r)"
    by (auto simp: win_refines_def)
  note len = win_refines_length [OF ref]
  let ?q = "(now - r_last r) div bucketDur bw"
  let ?k = "min (nat ?q) (num bw - 1)"
  consider "now < r_last r + bucketDur bw"
    | "\<not> now < r_last r + bucketDur bw" "windowNanos bw \<le> now - r_last r"
    | "\<not> now < r_last r + bucketDur bw" "\<not> windowNanos bw \<le> now - r_last r" by blast
  then show ?thesis
  proof cases
    case 1
    then show ?thesis using ref last by (simp add: advanceLocked_def roll_advance_def)
  next
    case 2
    then show ?thesis
      using ok last len slots_hardReset [OF ok, of now] win_ok_advance [OF ok, of now]
      by (simp add: win_refines_def advanceLocked_def roll_advance_def hardResetLocked_def comp_def map_replicate_const)
  next
    case 3
    have k: "nat (min ?q (int (num bw) - 1)) = ?k" by (simp add: nat_diff_distrib' min_def)
    have "slots (foldl advance_step bw [0..<?k]) = replicate ?k (0, 0) @ take (num bw - ?k) (slots bw)"
      using ok by (intro slots_steps) auto
    then show ?thesis
      using 3 last len sl win_ok_advance [OF ok, of now] k
      by (simp add: win_refines_def advanceLocked_def roll_advance_def Let_def take_map)
  qed
qed

lemma win_refines_add:
  assumes ref: "win_refines bw r"
  shows "win_refines (if ok then addSuccess now 1 bw else addFailure now 1 bw)
    (roll_add (now, ok) (roll_advance (bucketDur bw) (windowNanos bw) now r))"
proof -
  let ?w = "advanceLocked now bw" and ?r = "roll_advance (bucketDur bw) (windowNanos bw) now r"
  have ref': "win_refines ?w ?r" by (rule win_refines_advance [OF ref])
  then have ok': "win_ok ?w" and sl: "slots ?w = map tally (r_slots ?r)" by (auto simp: win_refines_def)
  have "0 < length (r_slots ?r)" using win_refines_length [OF ref'] ok' by (simp add: win_ok_def)
  moreover have "counts (buf ?w ! cursor ?w) = slots ?w ! 0"
    using ok' by (simp add: slots_def slot_def win_ok_def)
  ultimately have hd: "counts (buf ?w ! cursor ?w) = tally (r_slots ?r ! 0)" by (simp add: sl)
  show ?thesis
    using ref' ok' hd win_ok_ops(1,2) [of bw now 1] ref
    by (auto simp: win_refines_def addSuccess_def addFailure_def Let_def slots_head roll_add_def map_update
        counts_def prod_eq_iff)
qed

subsection \<open>What the window forgets\<close>

text \<open>
  Against the history of all events: the slot of age \<open>a\<close> only holds events from before
  \<open>a - 1\<close> bucket lengths ago, and what is no longer in a slot is older than all but one of them.
\<close>

definition roll_inv :: "int \<Rightarrow> nat \<Rightarrow> event list \<Rightarrow> rolling \<Rightarrow> bool" where
  "roll_inv dur n hist r \<longleftrightarrow> length (r_slots r) = n \<and>
     (\<forall>a < n. \<forall>e \<in> set (r_slots r ! a). fst e < r_last r + (1 - int a) * dur) \<and>
     (\<exists>old. mset hist = mset (concat (r_slots r)) + old \<and>
        (\<forall>e \<in># old. fst e < r_last r - (int n - 1) * dur))"

lemma roll_invI:
  assumes "length (r_slots r) = n"
    and "\<And>a e. a < n \<Longrightarrow> e \<in> set (r_slots r ! a) \<Longrightarrow> fst e < r_last r + (1 - int a) * dur"
    and "mset hist = mset (concat (r_slots r)) + old"
    and "\<And>e. e \<in># old \<Longrightarrow> fst e < r_last r - (int n - 1) * dur"
  shows "roll_inv dur n hist r"
  using assms unfolding roll_inv_def by blast

lemma roll_inv_shift:
  assumes inv: "roll_inv dur n hist r" and dur: "0 < dur" and k: "k < n"
    and now: "r_last r + int k * dur \<le> now"
  shows "roll_inv dur n hist \<lparr>r_last = now, r_slots = replicate k [] @ take (n - k) (r_slots r)\<rparr>"
proof -
  from inv obtain old where len: "length (r_slots r) = n"
    and age: "\<And>a e. a < n \<Longrightarrow> e \<in> set (r_slots r ! a) \<Longrightarrow> fst e < r_last r + (1 - int a) * dur"
    and h: "mset hist = mset (concat (r_slots r)) + old"
    and old: "\<And>e. e \<in># old \<Longrightarrow> fst e < r_last r - (int n - 1) * dur"
    unfolding roll_inv_def by blast
  let ?dropped = "concat (drop (n - k) (r_slots r))"
  have keep: "fst e < now + (1 - int a) * dur" if "k \<le> a" "a < n" "e \<in> set (r_slots r ! (a - k))" for a e
  proof -
    have "a - k < n" using that by simp
    from age [OF this that(3)] show ?thesis using that now by (simp add: of_nat_diff algebra_simps)
  qed
  have out: "fst e < now - (int n - 1) * dur" if e: "e \<in> set ?dropped" for e
  proof -
    from e obtain a where a: "n - k \<le> a" "a < n" "e \<in> set (r_slots r ! a)"
      using len by (auto simp: in_set_conv_nth)
         (metis add.commute le_add2 less_diff_conv nth_mem)
    have "(int n - int k) * dur \<le> int a * dur"
      using a dur by (intro mult_right_mono) auto
    then show ?thesis using age [OF a(2,3)] now by (simp add: algebra_simps)
  qed
  have "mset (concat (r_slots r)) = mset (concat (take (n - k) (r_slots r))) + mset ?dropped"
    by (metis append_take_drop_id concat_append mset_append)
  moreover have "fst e < now - (int n - 1) * dur" if "e \<in># old" for e
  proof -
    have "0 \<le> int k * dur" using dur by simp
    with old [OF that] now show ?thesis by linarith
  qed
  ultimately show ?thesis
    using len k h out keep
    by (intro roll_invI [where old = "mset ?dropped + old"]) (auto simp: nth_append split: if_splits, blast)
qed

lemma roll_inv_clear:
  assumes inv: "roll_inv dur n hist r" and dur: "0 < dur" and now: "r_last r + int n * dur \<le> now"
  shows "roll_inv dur n hist \<lparr>r_last = now, r_slots = map (\<lambda>_. []) (r_slots r)\<rparr>"
proof -
  from inv obtain old where len: "length (r_slots r) = n"
    and age: "\<And>a e. a < n \<Longrightarrow> e \<in> set (r_slots r ! a) \<Longrightarrow> fst e < r_last r + (1 - int a) * dur"
    and h: "mset hist = mset (concat (r_slots r)) + old"
    and old: "\<And>e. e \<in># old \<Longrightarrow> fst e < r_last r - (int n - 1) * dur"
    unfolding roll_inv_def by blast
  have "fst e < now - (int n - 1) * dur" if e: "e \<in># mset (concat (r_slots r)) + old" for e
  proof (cases "e \<in># old")
    case True
    moreover have "0 \<le> int n * dur" using dur by simp
    ultimately show ?thesis using old [of e] now by linarith
  next
    case False
    with e obtain a where a: "a < n" "e \<in> set (r_slots r ! a)"
      using len by (auto simp: in_set_conv_nth [of _ "r_slots r"])
    have "0 \<le> int a * dur" using dur by simp
    then show ?thesis using age [OF a] now by (simp add: algebra_simps)
  qed
  then show ?thesis
    using len h by (intro roll_invI [where old = "mset (concat (r_slots r)) + old"]) (auto simp: concat_eq_Nil_conv)
qed

lemma roll_inv_advance:
  assumes inv: "roll_inv dur n hist r" and dur: "0 < dur" and n: "0 < n" and w: "int n * dur \<le> window"
  shows "roll_inv dur n hist (roll_advance dur window now r)"
    and "now < r_last (roll_advance dur window now r) + dur"
    and "r_last r \<le> now \<Longrightarrow> r_last (roll_advance dur window now r) \<le> now"
proof -
  have len: "length (r_slots r) = n" using inv by (simp add: roll_inv_def)
  let ?q = "(now - r_last r) div dur"
  have q: "?q * dur \<le> now - r_last r" using dur by (metis div_mult_mod_eq le_add_same_cancel1 pos_mod_sign)
  have k: "r_last r + int (min (nat ?q) (n - 1)) * dur \<le> now" if ge: "\<not> now < r_last r + dur"
  proof -
    have "0 \<le> ?q" using ge dur by (simp add: pos_imp_zdiv_nonneg_iff)
    then have "int (min (nat ?q) (n - 1)) \<le> ?q" by simp
    then have "int (min (nat ?q) (n - 1)) * dur \<le> ?q * dur" using dur by (intro mult_right_mono) auto
    with q show ?thesis by linarith
  qed
  show "roll_inv dur n hist (roll_advance dur window now r)"
    using roll_inv_shift [OF inv dur _ k] roll_inv_clear [OF inv dur] inv n w
    by (auto simp: roll_advance_def Let_def len)
  show "now < r_last (roll_advance dur window now r) + dur"
    and "r_last r \<le> now \<Longrightarrow> r_last (roll_advance dur window now r) \<le> now"
    using dur by (auto simp: roll_advance_def Let_def)
qed

lemma roll_inv_add:
  assumes inv: "roll_inv dur n hist r" and n: "0 < n" and t: "fst e < r_last r + dur"
  shows "roll_inv dur n (e # hist) (roll_add e r)"
proof -
  from inv obtain old where len: "length (r_slots r) = n"
    and age: "\<And>a e. a < n \<Longrightarrow> e \<in> set (r_slots r ! a) \<Longrightarrow> fst e < r_last r + (1 - int a) * dur"
    and h: "mset hist = mset (concat (r_slots r)) + old"
    and old: "\<And>e. e \<in># old \<Longrightarrow> fst e < r_last r - (int n - 1) * dur"
    unfolding roll_inv_def by blast
  obtain x xs where sl: "r_slots r = x # xs" using len n by (cases "r_slots r") auto
  have "fst d < r_last r + (1 - int a) * dur" if "a < n" "d \<in> set (r_slots (roll_add e r) ! a)" for a d
    using that age [of a d] t sl by (cases a) (auto simp: roll_add_def)
  then show ?thesis
    using len h old sl by (intro roll_invI [where old = old]) (auto simp: roll_add_def)
qed

subsection \<open>Runs\<close>

text \<open>
  A run records events and looks at the window. \<^verbatim>\<open>totals\<close> and \<^verbatim>\<open>windowBounds\<close> have the same effect on
  the state: they advance it.
\<close>

datatype win_op = Rec event | Look int

fun op_time :: "win_op \<Rightarrow> int" where
  "op_time (Rec e) = fst e"
| "op_time (Look t) = t"

fun win_do :: "bucketWindow \<Rightarrow> win_op \<Rightarrow> bucketWindow" where
  "win_do bw (Rec e) = (if snd e then addSuccess (fst e) 1 bw else addFailure (fst e) 1 bw)"
| "win_do bw (Look t) = snd (totals t bw)"

fun recorded :: "win_op list \<Rightarrow> event list" where
  "recorded [] = []"
| "recorded (Rec e # ops) = e # recorded ops"
| "recorded (Look t # ops) = recorded ops"

lemma recorded_append [simp]: "recorded (xs @ ys) = recorded xs @ recorded ys"
  by (induction xs rule: recorded.induct) auto

lemma totals_state [simp]: "snd (totals t bw) = advanceLocked t bw" "snd (windowBounds t bw) = advanceLocked t bw"
  by (simp_all add: totals_def windowBounds_def Let_def)

lemma win_do_frame [simp]:
  "num (win_do bw x) = num bw" "bucketDur (win_do bw x) = bucketDur bw" "windowNanos (win_do bw x) = windowNanos bw"
  by (cases x; simp add: addSuccess_def addFailure_def Let_def)+

lemma win_run_frame [simp]:
  "num (foldl win_do bw ops) = num bw" "bucketDur (foldl win_do bw ops) = bucketDur bw"
  "windowNanos (foldl win_do bw ops) = windowNanos bw"
  by (induction ops arbitrary: bw) auto

lemma win_do_refines:
  assumes ref: "win_refines bw r" and inv: "roll_inv (bucketDur bw) (num bw) hist r"
    and fit: "int (num bw) * bucketDur bw \<le> windowNanos bw" and t: "r_last r \<le> op_time x"
  shows "\<exists>r'. win_refines (win_do bw x) r' \<and>
    roll_inv (bucketDur bw) (num bw) (recorded [x] @ hist) r' \<and> r_last r' \<le> op_time x"
proof -
  let ?adv = "roll_advance (bucketDur bw) (windowNanos bw) (op_time x) r"
  have pos: "0 < bucketDur bw" "0 < num bw" using ref by (auto simp: win_refines_def win_ok_def)
  note adv = roll_inv_advance [OF inv pos fit, of "op_time x"]
  show ?thesis
  proof (cases x)
    case (Look t)
    then show ?thesis using win_refines_advance [OF ref, of t] adv(1) adv(3) [OF t] by auto
  next
    case (Rec e)
    have "win_refines (win_do bw x) (roll_add e ?adv)"
      using win_refines_add [OF ref, of "snd e" "fst e"] Rec by (simp split: if_splits)
    moreover have "roll_inv (bucketDur bw) (num bw) (e # hist) (roll_add e ?adv)"
      using roll_inv_add [OF adv(1) pos(2)] adv(2) Rec by simp
    ultimately show ?thesis using adv(3) [OF t] Rec by (intro exI [of _ "roll_add e ?adv"]) (simp add: roll_add_def)
  qed
qed

lemma win_run_refines:
  assumes "win_refines bw r" "roll_inv (bucketDur bw) (num bw) hist r" "int (num bw) * bucketDur bw \<le> windowNanos bw"
    and "sorted (r_last r # map op_time ops)"
  shows "\<exists>r'. win_refines (foldl win_do bw ops) r' \<and>
    roll_inv (bucketDur bw) (num bw) (rev (recorded ops) @ hist) r' \<and> r_last r' \<le> last (r_last r # map op_time ops)"
  using assms
proof (induction ops arbitrary: bw r hist)
  case Nil
  then show ?case by auto
next
  case (Cons x ops)
  have "r_last r \<le> op_time x" using Cons.prems(4) by simp
  from win_do_refines [OF Cons.prems(1-3) this] obtain r1 where
    r1: "win_refines (win_do bw x) r1" "roll_inv (bucketDur bw) (num bw) (recorded [x] @ hist) r1" "r_last r1 \<le> op_time x"
    by blast
  have "sorted (r_last r1 # map op_time ops)" using r1(3) Cons.prems(4) by auto
  with Cons.IH [OF r1(1), of "recorded [x] @ hist"] r1(2) Cons.prems(3)
  obtain r' where "win_refines (foldl win_do (win_do bw x) ops) r'"
    "roll_inv (bucketDur bw) (num bw) (rev (recorded ops) @ recorded [x] @ hist) r'"
    "r_last r' \<le> last (r_last r1 # map op_time ops)"
    by auto
  then show ?case using r1(3) by (intro exI [of _ r']) (cases x; auto split: if_splits)
qed

lemma length_filter_mono: "(\<And>x. P x \<Longrightarrow> Q x) \<Longrightarrow> length (filter P xs) \<le> length (filter Q xs)"
  by (induction xs) (auto simp: le_SucI)

lemma roll_inv_counts:
  assumes "roll_inv dur n hist r" and "\<And>e. P e \<Longrightarrow> Q e \<and> r_last r - (int n - 1) * dur \<le> fst e"
  shows "length (filter P hist) \<le> length (filter Q (concat (r_slots r)))"
    and "length (filter Q (concat (r_slots r))) \<le> length (filter Q hist)"
proof -
  from assms(1) obtain old where h: "mset hist = mset (concat (r_slots r)) + old"
    and old: "\<And>e. e \<in># old \<Longrightarrow> fst e < r_last r - (int n - 1) * dur"
    unfolding roll_inv_def by blast
  have "filter_mset P old = {#}" using assms(2) old by (fastforce simp: filter_mset_eq_conv)
  then have "filter_mset P (mset hist) = filter_mset P (mset (concat (r_slots r)))" by (simp add: h)
  then have "length (filter P hist) = length (filter P (concat (r_slots r)))"
    by (metis mset_filter size_mset)
  then show "length (filter P hist) \<le> length (filter Q (concat (r_slots r)))"
    using length_filter_mono [of P Q] assms(2) by simp
  have "filter_mset Q (mset (concat (r_slots r))) \<subseteq># filter_mset Q (mset hist)" by (simp add: h)
  then show "length (filter Q (concat (r_slots r))) \<le> length (filter Q hist)"
    by (metis mset_filter size_mset size_mset_mono)
qed

lemma sum_tally:
  "sum_list (map fst (map tally ess)) = of_nat (length (filter snd (concat ess)))"
  "sum_list (map snd (map tally ess)) = of_nat (length (filter (\<lambda>e. \<not> snd e) (concat ess)))"
  by (induction ess) (auto simp: tally_def)

lemma window_totals:
  assumes n: "1 \<le> n" "n \<le> window" and sorted: "sorted (t0 # map op_time ops @ [T])"
  defines "w \<equiv> foldl win_do (newBuckets window n t0) ops"
  shows "\<exists>r. roll_inv (window div n) (nat n) (rev (recorded ops)) r \<and> r_last r \<le> T \<and>
    fst (totals T w) = (of_nat (length (filter snd (concat (r_slots r)))),
                        of_nat (length (filter (\<lambda>e. \<not> snd e) (concat (r_slots r)))))"
proof -
  let ?bw = "newBuckets window n t0" and ?r0 = "\<lparr>r_last = t0, r_slots = replicate (nat n) []\<rparr>"
  have pos: "0 < window div n" using n by (simp add: pos_imp_zdiv_pos_iff)
  have fit: "n * (window div n) \<le> window" using n by (simp add: minus_mod_eq_mult_div [symmetric])
  have bw: "bucketDur ?bw = window div n" "num ?bw = nat n" "windowNanos ?bw = window"
    using n pos by (auto simp: newBuckets_def Let_def)
  have inv0: "roll_inv (bucketDur ?bw) (num ?bw) [] ?r0"
    unfolding bw by (rule roll_invI [where old = "{#}"]) auto
  have srt: "sorted (r_last ?r0 # map op_time (ops @ [Look T]))" using sorted by simp
  have fit': "int (num ?bw) * bucketDur ?bw \<le> windowNanos ?bw" using fit n unfolding bw by simp
  obtain r where r: "win_refines (foldl win_do ?bw (ops @ [Look T])) r"
    "roll_inv (window div n) (nat n) (rev (recorded ops)) r" "r_last r \<le> T"
    using win_run_refines [OF win_refines_new [OF n(1), of window t0] inv0 fit' srt] unfolding bw by auto
  have "win_ok w" unfolding w_def using win_run_refines [OF win_refines_new [OF n(1), of window t0] inv0 fit', of ops] sorted
    by (auto simp: win_refines_def sorted_append)
  moreover have "win_refines (advanceLocked T w) r" using r(1) by (simp add: w_def)
  ultimately have "fst (totals T w) = (of_nat (length (filter snd (concat (r_slots r)))),
      of_nat (length (filter (\<lambda>e. \<not> snd e) (concat (r_slots r)))))"
    unfolding win_refines_def sum_tally [symmetric] by (simp only: totals_slots)
  then show ?thesis using r(2,3) by blast
qed

lemma window_bounds:
  assumes "1 \<le> n" "n \<le> window" "sorted (t0 # map op_time ops @ [T])" "length (recorded ops) < 2 ^ 64"
  defines "tot \<equiv> fst (totals T (foldl win_do (newBuckets window n t0) ops))"
    and "recent \<equiv> (\<lambda>e::event. T - (n - 1) * (window div n) \<le> fst e)"
  shows "length (filter (\<lambda>e. snd e \<and> recent e) (recorded ops)) \<le> unat (fst tot)"
    "unat (fst tot) \<le> length (filter snd (recorded ops))"
    "length (filter (\<lambda>e. \<not> snd e \<and> recent e) (recorded ops)) \<le> unat (snd tot)"
    "unat (snd tot) \<le> length (filter (\<lambda>e. \<not> snd e) (recorded ops))"
proof -
  let ?es = "recorded ops"
  obtain r where inv: "roll_inv (window div n) (nat n) (rev ?es) r" and T: "r_last r \<le> T"
    and tot: "tot = (of_nat (length (filter snd (concat (r_slots r)))),
      of_nat (length (filter (\<lambda>e. \<not> snd e) (concat (r_slots r)))))"
    using window_totals [OF assms(1-3)] unfolding tot_def by blast
  have *: "length (filter (\<lambda>e. Q e \<and> recent e) ?es) \<le> length (filter Q (concat (r_slots r)))"
    "length (filter Q (concat (r_slots r))) \<le> length (filter Q ?es)" for Q
    using roll_inv_counts [OF inv, of "\<lambda>e. Q e \<and> recent e" Q] T assms(1)
    by (auto simp: recent_def simp flip: rev_filter)
  have "length (filter Q (concat (r_slots r))) < 2 ^ 64" for Q
    using *(2) [of Q] assms(4) length_filter_le [of Q ?es] by linarith
  then have "unat (of_nat (length (filter Q (concat (r_slots r)))) :: u64) = length (filter Q (concat (r_slots r)))" for Q
    by (simp add: unat_of_nat take_bit_nat_eq_self)
  then show "length (filter (\<lambda>e. snd e \<and> recent e) ?es) \<le> unat (fst tot)"
    "unat (fst tot) \<le> length (filter snd ?es)"
    "length (filter (\<lambda>e. \<not> snd e \<and> recent e) ?es) \<le> unat (snd tot)"
    "unat (snd tot) \<le> length (filter (\<lambda>e. \<not> snd e) ?es)"
    using * [of snd] * [of "\<lambda>e. \<not> snd e"] by (simp_all add: tot)
qed

subsection \<open>Properties\<close>

text \<open>
  C30. The rolling window counts every recent call and nothing that was not made: after any calls
  at non-decreasing times, the totals at time \<open>T\<close> include each call of the last \<open>n - 1\<close> bucket
  lengths and never exceed the number of calls made.
\<close>

theorem window_retention:
  assumes "1 \<le> n" "n \<le> window" "sorted (t0 # map op_time ops @ [T])" "length (recorded ops) < 2 ^ 64"
  shows "let es = recorded ops;
             (succ, fail) = fst (totals T (foldl win_do (newBuckets window n t0) ops));
             recent = (\<lambda>e. T - (n - 1) * (window div n) \<le> fst e)
         in length (filter (\<lambda>e. snd e \<and> recent e) es) \<le> unat succ \<and> unat succ \<le> length (filter snd es) \<and>
            length (filter (\<lambda>e. \<not> snd e \<and> recent e) es) \<le> unat fail \<and>
            unat fail \<le> length (filter (\<lambda>e. \<not> snd e) es)"
  using window_bounds [OF assms] by (simp add: Let_def case_prod_beta)

theorem window_retention_witness:
  "let (succ, fail) = fst (totals 35 (foldl win_do (newBuckets 40 4 0)
     [Rec (1, True), Rec (12, False), Look 20, Rec (27, True)]))
   in 1 \<le> unat succ \<and> unat succ \<le> 2 \<and> 1 \<le> unat fail \<and> unat fail \<le> 1"
  using window_retention [of 4 40 0 "[Rec (1, True), Rec (12, False), Look 20, Rec (27, True)]" 35]
  by (simp add: case_prod_beta Let_def)


end
