(* ===== verification/Breaker.thy ===== *)
theory Breaker
  imports Complex_Main Breaker_Window
begin

section \<open>The circuit breaker\<close>

text \<open>
  \<^verbatim>\<open>breaker/options.go\<close>, \<^verbatim>\<open>breaker/state.go\<close>, \<^verbatim>\<open>breaker/metrics.go\<close> and \<^verbatim>\<open>breaker/breaker.go\<close>. A breaker
  is a record; the clock is a sequence of readings, and the record counts how many were taken, so
  every call of the clock in the code is one reading of the model. The half-open semaphore is
  absent or a pair of capacity and permits in use.

  Calls run concurrently. An action of the system is one of: \<^verbatim>\<open>tryAllow\<close> of a new call, the recording
  of an outcome (\<^verbatim>\<open>onSuccess\<close>, \<^verbatim>\<open>onFailure\<close>) and the deferred release of a finished call. Each action
  is atomic in the model; actions of different calls interleave freely.
\<close>

subsection \<open>64-bit floating point\<close>

text \<open>
  The failure rate is a quotient of two converted counters. A finite value is the rational number it
  stands for; conversion and division round to 53 bits, ties to even. Counters and their quotients
  are far from the exponent limits, so neither overflow nor subnormal numbers occur.
\<close>

datatype float64 = Fin rat | PosInf | NegInf | NaN

fun f64_less :: "float64 \<Rightarrow> float64 \<Rightarrow> bool" where
  "f64_less (Fin a) (Fin b) = (a < b)"
| "f64_less (Fin a) PosInf = True"
| "f64_less NegInf (Fin b) = True"
| "f64_less NegInf PosInf = True"
| "f64_less _ _ = False"

fun f64_le :: "float64 \<Rightarrow> float64 \<Rightarrow> bool" where
  "f64_le (Fin a) (Fin b) = (a \<le> b)"
| "f64_le NaN _ = False"
| "f64_le _ NaN = False"
| "f64_le NegInf _ = True"
| "f64_le _ PosInf = True"
| "f64_le _ _ = False"

fun scale53 :: "nat \<Rightarrow> rat \<Rightarrow> int" where
  "scale53 0 q = 0"
| "scale53 (Suc n) q =
     (if q < 2 ^ 52 then scale53 n (2 * q) + 1 else if 2 ^ 53 \<le> q then scale53 n (q / 2) - 1 else 0)"

definition round_even :: "rat \<Rightarrow> int" where
  "round_even s =
     (let f = \<lfloor>s\<rfloor>; r = s - of_int f in if r < 1 / 2 \<or> r = 1 / 2 \<and> even f then f else f + 1)"

definition round53 :: "rat \<Rightarrow> rat" where
  "round53 q =
     (if q = 0 then 0
      else let k = scale53 128 q
           in if 0 \<le> k then of_int (round_even (q * 2 ^ nat k)) / 2 ^ nat k
              else of_int (round_even (q / 2 ^ nat (- k))) * 2 ^ nat (- k))"

definition f64_of_u64 :: "u64 \<Rightarrow> rat" where
  "f64_of_u64 w = round53 (of_nat (unat w))"

definition f64_quot :: "u64 \<Rightarrow> u64 \<Rightarrow> float64" where
  "f64_quot a b = Fin (round53 (f64_of_u64 a / f64_of_u64 b))"

lemma round53_1: "round53 1 = 1"
  by code_simp

lemma round_even_pos: "2 ^ 52 \<le> s \<Longrightarrow> 0 < round_even s"
proof -
  assume "2 ^ 52 \<le> s"
  then have "1 \<le> s" by (rule order.trans [rotated]) simp
  then have "0 < \<lfloor>s\<rfloor>" by (simp add: zero_less_floor)
  then show ?thesis by (simp add: round_even_def Let_def)
qed

lemma scale53_up:
  "q < 2 ^ 53 \<Longrightarrow> 2 ^ 52 \<le> q * 2 ^ n \<Longrightarrow> 0 \<le> scale53 n q \<and> 2 ^ 52 \<le> q * 2 ^ nat (scale53 n q)"
proof (induction n arbitrary: q)
  case (Suc n)
  show ?case
  proof (cases "q < 2 ^ 52")
    case True
    then have "0 \<le> scale53 n (2 * q)" "2 ^ 52 \<le> 2 * q * 2 ^ nat (scale53 n (2 * q))"
      using Suc.IH [of "2 * q"] Suc.prems by (auto simp: mult.assoc)
    then show ?thesis using True by (simp add: nat_add_distrib mult_ac)
  qed (use Suc.prems in auto)
qed simp

lemma scale53_down: "2 ^ 52 \<le> q \<Longrightarrow> scale53 n q \<le> 0 \<and> 2 ^ 52 \<le> q / 2 ^ nat (- scale53 n q)"
proof (induction n arbitrary: q)
  case (Suc n)
  show ?case
  proof (cases "q < 2 ^ 53")
    case False
    then have *: "scale53 n (q / 2) \<le> 0" "2 ^ 52 \<le> q / 2 / 2 ^ nat (- scale53 n (q / 2))"
      using Suc.IH [of "q / 2"] by auto
    have "nat (1 - scale53 n (q / 2)) = Suc (nat (- scale53 n (q / 2)))" using *(1) by linarith
    then show ?thesis using False * Suc.prems by (simp add: mult_ac)
  qed (use Suc.prems in auto)
qed simp

lemma round53_pos:
  assumes "1 \<le> q" shows "0 < round53 q"
proof (cases "q < 2 ^ 53")
  case True
  have "(2::rat) ^ 52 \<le> 1 * 2 ^ 128" by simp
  also have "\<dots> \<le> q * 2 ^ 128" using assms by (intro mult_right_mono) auto
  finally show ?thesis
    using scale53_up [OF True, of 128] round_even_pos assms by (auto simp: round53_def Let_def)
next
  case False
  then have q: "2 ^ 52 \<le> q" by simp
  show ?thesis
    using scale53_down [OF q, of 128] round_even_pos [of "q / 2 ^ nat (- scale53 128 q)"] round_even_pos [OF q] assms
    by (auto simp: round53_def Let_def)
qed

lemma f64_quot_self:
  assumes "w \<noteq> 0" shows "f64_quot w w = Fin 1"
proof -
  have "1 \<le> unat w" using assms by (simp add: Suc_le_eq unat_gt_0)
  then have "(1::rat) \<le> of_nat (unat w)" using of_nat_mono [of 1 "unat w", where 'a = rat] by (simp only: of_nat_1)
  then have "0 < f64_of_u64 w" unfolding f64_of_u64_def by (rule round53_pos)
  then show ?thesis by (simp add: f64_quot_def round53_1)
qed

subsection \<open>Options\<close>

record options =
  failureRate :: float64
  minRequests :: int
  openTimeout :: int
  window :: int
  buckets :: int
  halfOpenMaxCalls :: int
  clock :: "(nat \<Rightarrow> int) option"

abbreviation millisecond :: int where
  "millisecond \<equiv> 1000000"

abbreviation second :: int where
  "second \<equiv> 1000000000"

datatype opt_error =
    BadFailureRate float64
  | BadMinRequests int
  | BadOpenTimeout int
  | BadWindow int
  | BadBuckets int
  | BadHalfOpenMaxCalls int
  | NilClock
  | BucketTooSmall int

definition Validate :: "options \<Rightarrow> opt_error option" where
  "Validate op =
     (if f64_less (failureRate op) (Fin 0) \<or> f64_less (Fin 1) (failureRate op) then Some (BadFailureRate (failureRate op))
      else if minRequests op < 1 then Some (BadMinRequests (minRequests op))
      else if openTimeout op \<le> 0 then Some (BadOpenTimeout (openTimeout op))
      else if window op \<le> 0 then Some (BadWindow (window op))
      else if buckets op < 1 then Some (BadBuckets (buckets op))
      else if halfOpenMaxCalls op < 1 then Some (BadHalfOpenMaxCalls (halfOpenMaxCalls op))
      else if clock op = None then Some NilClock
      else if window op div buckets op < millisecond then Some (BucketTooSmall (window op div buckets op))
      else None)"

text \<open>\<^verbatim>\<open>time.Now\<close> is the argument \<open>sys\<close>.\<close>

definition defaultOptions :: "(nat \<Rightarrow> int) \<Rightarrow> options" where
  "defaultOptions sys =
     \<lparr>failureRate = Fin (1 / 2), minRequests = 10, openTimeout = 30 * second, window = 60 * second,
      buckets = 12, halfOpenMaxCalls = 1, clock = Some sys\<rparr>"

definition Sanitize :: "(nat \<Rightarrow> int) \<Rightarrow> options \<Rightarrow> options" where
  "Sanitize sys op =
     op\<lparr>buckets := (if buckets op \<le> 0 then 1 else buckets op),
        window := (if window op \<le> 0 then second else window op),
        failureRate := (if f64_less (failureRate op) (Fin 0) \<or> f64_less (Fin 1) (failureRate op)
                        then Fin (1 / 2) else failureRate op),
        minRequests := (if minRequests op < 1 then 1 else minRequests op),
        openTimeout := (if openTimeout op \<le> 0 then 30 * second else openTimeout op),
        halfOpenMaxCalls := (if halfOpenMaxCalls op < 1 then 1 else halfOpenMaxCalls op),
        clock := (if clock op = None then Some sys else clock op)\<rparr>"

definition WithFailureRate :: "float64 \<Rightarrow> options \<Rightarrow> options" where
  "WithFailureRate r op = op\<lparr>failureRate := r\<rparr>"

definition WithMinRequests :: "int \<Rightarrow> options \<Rightarrow> options" where
  "WithMinRequests n op = op\<lparr>minRequests := n\<rparr>"

definition WithOpenTimeout :: "int \<Rightarrow> options \<Rightarrow> options" where
  "WithOpenTimeout d op = op\<lparr>openTimeout := d\<rparr>"

definition WithWindow :: "int \<Rightarrow> int \<Rightarrow> options \<Rightarrow> options" where
  "WithWindow d n op = op\<lparr>window := d, buckets := n\<rparr>"

definition WithHalfOpenMaxCalls :: "int \<Rightarrow> options \<Rightarrow> options" where
  "WithHalfOpenMaxCalls n op = op\<lparr>halfOpenMaxCalls := n\<rparr>"

definition WithClock :: "(nat \<Rightarrow> int) option \<Rightarrow> options \<Rightarrow> options" where
  "WithClock c op = op\<lparr>clock := c\<rparr>"

subsection \<open>The breaker\<close>

datatype state = Closed | Open | HalfOpen

record breaker =
  cb_state :: state
  openUntil :: int
  cb_opts :: options
  cb_buckets :: bucketWindow
  semCh :: "(nat \<times> nat) option"
  lastFailure :: u64
  lastSuccess :: u64
  cb_clock :: "nat \<Rightarrow> int"
  reads :: nat

text \<open>Calling a nil clock panics: no breaker is returned.\<close>

definition make_breaker :: "options \<Rightarrow> breaker option" where
  "make_breaker op =
     (case clock op of
        None \<Rightarrow> None
      | Some c \<Rightarrow>
          Some \<lparr>cb_state = Closed, openUntil = 0, cb_opts = op,
                cb_buckets = newBuckets (window op) (buckets op) (c 0), semCh = None,
                lastFailure = 0, lastSuccess = 0, cb_clock = c, reads = 1\<rparr>)"

definition NewCircuitBreaker :: "(nat \<Rightarrow> int) \<Rightarrow> (options \<Rightarrow> options) list \<Rightarrow> breaker option" where
  "NewCircuitBreaker sys opts = make_breaker (Sanitize sys (foldl (\<lambda>op fn. fn op) (defaultOptions sys) opts))"

definition NewCircuitBreakerWithValidation ::
  "(nat \<Rightarrow> int) \<Rightarrow> (options \<Rightarrow> options) list \<Rightarrow> opt_error + breaker option" where
  "NewCircuitBreakerWithValidation sys opts =
     (let op = foldl (\<lambda>op fn. fn op) (defaultOptions sys) opts
      in case Validate op of Some err \<Rightarrow> Inl err | None \<Rightarrow> Inr (make_breaker op))"

definition now :: "breaker \<Rightarrow> int" where
  "now b = cb_clock b (reads b)"

definition tick :: "breaker \<Rightarrow> breaker" where
  "tick b = b\<lparr>reads := Suc (reads b)\<rparr>"

record metrics =
  m_State :: state
  m_Successes :: u64
  m_Failures :: u64
  m_Total :: u64
  m_FailureRate :: float64
  m_Window :: int
  m_WindowStart :: int
  m_WindowEnd :: int
  m_LastFailure :: "int option"
  m_LastSuccess :: "int option"

definition Metrics :: "breaker \<Rightarrow> metrics \<times> breaker" where
  "Metrics b0 =
     (let ((wins, wine), w1) = windowBounds (now b0) (cb_buckets b0);
          b1 = (tick b0)\<lparr>cb_buckets := w1\<rparr>;
          ((succ, fail), w2) = totals (now b1) (cb_buckets b1);
          b2 = (tick b1)\<lparr>cb_buckets := w2\<rparr>
      in (\<lparr>m_State = cb_state b2, m_Successes = succ, m_Failures = fail, m_Total = succ + fail,
           m_FailureRate = (if 0 < succ + fail then f64_quot fail (succ + fail) else Fin 0),
           m_Window = window (cb_opts b2), m_WindowStart = wins, m_WindowEnd = wine,
           m_LastFailure = (if 0 < lastFailure b2 then Some (sint (lastFailure b2)) else None),
           m_LastSuccess = (if 0 < lastSuccess b2 then Some (sint (lastSuccess b2)) else None)\<rparr>, b2))"

subsection \<open>Transitions\<close>

definition resetSemLocked :: "int \<Rightarrow> breaker \<Rightarrow> breaker" where
  "resetSemLocked newCap b = (if newCap \<le> 0 then b\<lparr>semCh := None\<rparr> else b\<lparr>semCh := Some (nat newCap, 0)\<rparr>)"

definition ensureSem :: "breaker \<Rightarrow> breaker" where
  "ensureSem b =
     (case semCh b of
        Some _ \<Rightarrow> b
      | None \<Rightarrow>
          let maxCalls = if halfOpenMaxCalls (cb_opts b) \<le> 0 then 1 else halfOpenMaxCalls (cb_opts b)
          in b\<lparr>semCh := Some (nat maxCalls, 0)\<rparr>)"

definition transitionToOpenLocked :: "breaker \<Rightarrow> breaker" where
  "transitionToOpenLocked b =
     resetSemLocked 0 ((tick b)\<lparr>openUntil := now b + openTimeout (cb_opts b)\<rparr>)"

definition transitionToHalfOpenLocked :: "breaker \<Rightarrow> breaker" where
  "transitionToHalfOpenLocked b =
     (let maxCalls = if halfOpenMaxCalls (cb_opts b) \<le> 0 then 1 else halfOpenMaxCalls (cb_opts b)
      in resetSemLocked maxCalls ((tick b)\<lparr>cb_buckets := bw_reset (now b) (cb_buckets b)\<rparr>))"

definition transitionToClosedLocked :: "breaker \<Rightarrow> breaker" where
  "transitionToClosedLocked b = resetSemLocked 0 ((tick b)\<lparr>cb_buckets := bw_reset (now b) (cb_buckets b)\<rparr>)"

definition transitionTo :: "state \<Rightarrow> breaker \<Rightarrow> bool \<times> breaker" where
  "transitionTo target b =
     (if cb_state b = target then (False, b)
      else
        let b' = (case target of
                    Open \<Rightarrow> transitionToOpenLocked b
                  | HalfOpen \<Rightarrow> transitionToHalfOpenLocked b
                  | Closed \<Rightarrow> transitionToClosedLocked b)
        in (True, b'\<lparr>cb_state := target\<rparr>))"

definition toOpen :: "breaker \<Rightarrow> breaker" where
  "toOpen b = snd (transitionTo Open b)"

definition toHalfOpen :: "breaker \<Rightarrow> breaker" where
  "toHalfOpen b = snd (transitionTo HalfOpen b)"

definition toClosed :: "breaker \<Rightarrow> breaker" where
  "toClosed b = snd (transitionTo Closed b)"

subsection \<open>Calls\<close>

definition tryAllow :: "breaker \<Rightarrow> bool \<times> breaker" where
  "tryAllow b0 =
     (let t = now b0; b = tick b0
      in if cb_state b = Closed then (True, b)
         else if cb_state b = Open \<and> \<not> openUntil b \<le> t then (False, b)
         else
           let b1 = (if cb_state b = Open then toHalfOpen b else b);
               b2 = ensureSem b1
           in case semCh b2 of
                None \<Rightarrow> (False, b2)
              | Some (cap, used) \<Rightarrow> if used < cap then (True, b2\<lparr>semCh := Some (cap, Suc used)\<rparr>) else (False, b2))"

definition evaluate :: "breaker \<Rightarrow> breaker" where
  "evaluate b =
     (case Metrics b of (m, b1) \<Rightarrow>
        if m_Total m < word_of_int (minRequests (cb_opts b1)) then b1
        else if f64_le (failureRate (cb_opts b1)) (m_FailureRate m) then toOpen b1
        else b1)"

definition evaluateHalfOpen :: "breaker \<Rightarrow> breaker" where
  "evaluateHalfOpen b =
     (case Metrics b of (m, b1) \<Rightarrow>
        if m_Total m < word_of_int (minRequests (cb_opts b1)) then b1
        else if f64_le (failureRate (cb_opts b1)) (m_FailureRate m) then toOpen b1
        else toClosed b1)"

definition onSuccess :: "breaker \<Rightarrow> breaker" where
  "onSuccess b =
     (let b1 = (tick b)\<lparr>cb_buckets := addSuccess (now b) 1 (cb_buckets b)\<rparr>;
          b2 = (tick b1)\<lparr>lastSuccess := word_of_int (now b1)\<rparr>
      in if cb_state b2 = HalfOpen then evaluateHalfOpen b2 else evaluate b2)"

definition onFailure :: "breaker \<Rightarrow> breaker" where
  "onFailure b =
     (let b1 = (tick b)\<lparr>cb_buckets := addFailure (now b) 1 (cb_buckets b)\<rparr>;
          b2 = (tick b1)\<lparr>lastFailure := word_of_int (now b1)\<rparr>
      in if cb_state b2 = HalfOpen then evaluateHalfOpen b2 else evaluate b2)"

text \<open>The function \<^verbatim>\<open>acquireRelease\<close> returns: it takes one permit back if there is one.\<close>

definition release :: "breaker \<Rightarrow> breaker" where
  "release b =
     (case semCh b of
        Some (cap, Suc used) \<Rightarrow> b\<lparr>semCh := Some (cap, used)\<rparr>
      | _ \<Rightarrow> b)"

text \<open>
  Errors carry what the code stores in them; the source position a panic is decorated with is left
  out. A recovered value is an error that already wraps a \<^verbatim>\<open>PanicError\<close>, another error, or neither.
\<close>

datatype 'p recovered = WrapsPanicError 'p | PlainError 'p | OtherValue 'p

datatype 'p cause = Cause 'p | NewPanicError 'p

datatype ('e, 'p) cb_error = ErrOpen | ErrTimeout | PanicErr state "'p cause" | FnError 'e

datatype ('v, 'e, 'p) exec_event = CtxDone | Returned 'v | Returned_err 'e | Panicked "'p recovered"

definition handlePanic :: "breaker \<Rightarrow> 'p recovered \<Rightarrow> ('e, 'p) cb_error" where
  "handlePanic b r =
     (case r of
        WrapsPanicError v \<Rightarrow> PanicErr (cb_state b) (Cause v)
      | PlainError v \<Rightarrow> PanicErr (cb_state b) (NewPanicError v)
      | OtherValue v \<Rightarrow> PanicErr (cb_state b) (NewPanicError v))"

definition handleRejection ::
  "('e, 'p) cb_error \<Rightarrow> (('e, 'p) cb_error \<Rightarrow> ('e, 'p) cb_error + 'v) list \<Rightarrow> ('e, 'p) cb_error + 'v" where
  "handleRejection err fallback = (case fallback of [] \<Rightarrow> Inl err | f # _ \<Rightarrow> f err)"

definition executeWithTimeout ::
  "('v, 'e, 'p) exec_event \<Rightarrow> (('e, 'p) cb_error \<Rightarrow> ('e, 'p) cb_error + 'v) list \<Rightarrow> breaker \<Rightarrow>
     (('e, 'p) cb_error + 'v) \<times> breaker" where
  "executeWithTimeout ev fallback b =
     (case ev of
        CtxDone \<Rightarrow> (handleRejection ErrTimeout fallback, onFailure b)
      | Returned v \<Rightarrow> (Inr v, onSuccess b)
      | Returned_err e \<Rightarrow> (handleRejection (FnError e) fallback, onFailure b)
      | Panicked r \<Rightarrow> (handleRejection (handlePanic b r) fallback, onFailure b))"

definition Execute ::
  "('v, 'e, 'p) exec_event \<Rightarrow> (('e, 'p) cb_error \<Rightarrow> ('e, 'p) cb_error + 'v) list \<Rightarrow> breaker \<Rightarrow>
     (('e, 'p) cb_error + 'v) \<times> breaker" where
  "Execute ev fallback b =
     (case tryAllow b of
        (False, b1) \<Rightarrow> (handleRejection ErrOpen fallback, b1)
      | (True, b1) \<Rightarrow>
          (case executeWithTimeout ev fallback b1 of (r, b2) \<Rightarrow> (r, release b2)))"

subsection \<open>Concurrent calls\<close>

text \<open>
  Besides the breaker, the system holds for each running call the state in which it was admitted,
  and the number of calls that recorded their outcome and have not run their release yet.
\<close>

record cb_system =
  sys_b :: breaker
  running :: "state list"
  finishing :: nat

datatype cb_action = Try | Finish nat bool | Release

fun cb_enabled :: "cb_action \<Rightarrow> cb_system \<Rightarrow> bool" where
  "cb_enabled Try s = True"
| "cb_enabled (Finish i ok) s = (i < length (running s))"
| "cb_enabled Release s = (0 < finishing s)"

fun cb_do :: "cb_action \<Rightarrow> cb_system \<Rightarrow> cb_system" where
  "cb_do Try s =
     (case tryAllow (sys_b s) of
        (True, b) \<Rightarrow> s\<lparr>sys_b := b, running := cb_state b # running s\<rparr>
      | (False, b) \<Rightarrow> s\<lparr>sys_b := b\<rparr>)"
| "cb_do (Finish i ok) s =
     s\<lparr>sys_b := (if ok then onSuccess (sys_b s) else onFailure (sys_b s)),
       running := take i (running s) @ drop (Suc i) (running s), finishing := Suc (finishing s)\<rparr>"
| "cb_do Release s = s\<lparr>sys_b := release (sys_b s), finishing := finishing s - 1\<rparr>"

inductive cb_steps :: "cb_system \<Rightarrow> cb_system \<Rightarrow> bool" where
  cb_refl: "cb_steps s s"
| cb_step: "cb_steps s t \<Longrightarrow> cb_enabled a t \<Longrightarrow> cb_steps s (cb_do a t)"

definition cb_start :: "breaker \<Rightarrow> cb_system" where
  "cb_start b = \<lparr>sys_b = b, running = [], finishing = 0\<rparr>"

subsection \<open>Invariant\<close>

definition cb_cap :: "breaker \<Rightarrow> nat" where
  "cb_cap b = nat (max 1 (halfOpenMaxCalls (cb_opts b)))"

definition cb_ok :: "breaker \<Rightarrow> bool" where
  "cb_ok b \<longleftrightarrow> win_ok (cb_buckets b) \<and> (semCh b \<noteq> None \<longleftrightarrow> cb_state b = HalfOpen) \<and>
     (\<forall>cap used. semCh b = Some (cap, used) \<longrightarrow> cap = cb_cap b \<and> used \<le> cap)"

text \<open>The edges of the state machine.\<close>

fun cb_edge :: "state \<Rightarrow> state \<Rightarrow> bool" where
  "cb_edge Closed Open = True"
| "cb_edge Open HalfOpen = True"
| "cb_edge HalfOpen Open = True"
| "cb_edge HalfOpen Closed = True"
| "cb_edge a b = (a = b)"

lemmas transition_defs = toOpen_def toHalfOpen_def toClosed_def transitionTo_def transitionToOpenLocked_def
  transitionToHalfOpenLocked_def transitionToClosedLocked_def resetSemLocked_def tick_def Let_def

lemma Metrics_frame:
  assumes "Metrics b = (m, b')"
  obtains w where "b' = b\<lparr>reads := reads b + 2, cb_buckets := w\<rparr>" "win_ok (cb_buckets b) \<longrightarrow> win_ok w"
    "w = snd (totals (cb_clock b (Suc (reads b))) (snd (windowBounds (now b) (cb_buckets b))))"
    "(m_Successes m, m_Failures m) =
       fst (totals (cb_clock b (Suc (reads b))) (snd (windowBounds (now b) (cb_buckets b))))"
    "m_Total m = m_Successes m + m_Failures m"
    "m_FailureRate m = (if 0 < m_Total m then f64_quot (m_Failures m) (m_Total m) else Fin 0)"
  using assms win_ok_ops(4,5)
  by (auto simp: Metrics_def Let_def tick_def now_def case_prod_beta)

lemma cb_ok_toOpen: "cb_ok b \<Longrightarrow> cb_ok (toOpen b)"
  by (auto simp: cb_ok_def transition_defs)

lemma cb_ok_toHalfOpen: "cb_ok b \<Longrightarrow> cb_ok (toHalfOpen b)"
  by (auto simp: cb_ok_def cb_cap_def transition_defs win_ok_ops max_def)

lemma cb_ok_toClosed: "cb_ok b \<Longrightarrow> cb_ok (toClosed b)"
  by (auto simp: cb_ok_def transition_defs win_ok_ops)

lemma cb_state_to [simp]:
  "cb_state (toOpen b) = Open" "cb_state (toHalfOpen b) = HalfOpen" "cb_state (toClosed b) = Closed"
  by (simp_all add: transition_defs)

lemma to_frame [simp]:
  "cb_opts (toOpen b) = cb_opts b" "cb_opts (toHalfOpen b) = cb_opts b" "cb_opts (toClosed b) = cb_opts b"
  "cb_clock (toOpen b) = cb_clock b" "cb_clock (toHalfOpen b) = cb_clock b" "cb_clock (toClosed b) = cb_clock b"
  by (simp_all add: transition_defs)

lemma reads_to: "reads b \<le> reads (toOpen b)" "reads b \<le> reads (toHalfOpen b)" "reads b \<le> reads (toClosed b)"
  by (simp_all add: transition_defs)

lemma cb_ok_update: "win_ok w \<Longrightarrow> cb_ok b \<Longrightarrow> cb_ok (b\<lparr>cb_buckets := w, reads := n\<rparr>)"
  by (simp add: cb_ok_def cb_cap_def)

lemma evaluate_ok:
  assumes "cb_ok b" and "cb_state b \<noteq> HalfOpen"
  shows "cb_ok (evaluate b)" "cb_edge (cb_state b) (cb_state (evaluate b))"
proof -
  obtain m b' where M: "Metrics b = (m, b')" by force
  then obtain w where "b' = b\<lparr>reads := reads b + 2, cb_buckets := w\<rparr>" "win_ok (cb_buckets b) \<longrightarrow> win_ok w"
    by (rule Metrics_frame)
  then have "cb_ok b'" "cb_state b' = cb_state b" using assms(1) by (auto simp: cb_ok_def cb_cap_def)
  then show "cb_ok (evaluate b)" "cb_edge (cb_state b) (cb_state (evaluate b))"
    using assms(2) by (auto simp: evaluate_def M cb_ok_toOpen) (cases "cb_state b"; simp)+
qed

lemma evaluateHalfOpen_ok:
  assumes "cb_ok b" and "cb_state b = HalfOpen"
  shows "cb_ok (evaluateHalfOpen b)" "cb_edge (cb_state b) (cb_state (evaluateHalfOpen b))"
proof -
  obtain m b' where M: "Metrics b = (m, b')" by force
  then obtain w where "b' = b\<lparr>reads := reads b + 2, cb_buckets := w\<rparr>" "win_ok (cb_buckets b) \<longrightarrow> win_ok w"
    by (rule Metrics_frame)
  then have "cb_ok b'" "cb_state b' = cb_state b" using assms(1) by (auto simp: cb_ok_def cb_cap_def)
  then show "cb_ok (evaluateHalfOpen b)" "cb_edge (cb_state b) (cb_state (evaluateHalfOpen b))"
    using assms(2) by (auto simp: evaluateHalfOpen_def M cb_ok_toOpen cb_ok_toClosed)
qed

lemma record_ok:
  assumes "cb_ok b"
  shows "cb_ok (if ok then onSuccess b else onFailure b)"
    "cb_edge (cb_state b) (cb_state (if ok then onSuccess b else onFailure b))"
proof -
  let ?s = "b\<lparr>cb_buckets := addSuccess (now b) 1 (cb_buckets b), reads := reads b + 2,
    lastSuccess := word_of_int (cb_clock b (Suc (reads b)))\<rparr>"
  let ?f = "b\<lparr>cb_buckets := addFailure (now b) 1 (cb_buckets b), reads := reads b + 2,
    lastFailure := word_of_int (cb_clock b (Suc (reads b)))\<rparr>"
  have "cb_ok ?s" "cb_ok ?f" using assms by (auto simp: cb_ok_def cb_cap_def win_ok_ops)
  moreover have "onSuccess b = (if cb_state b = HalfOpen then evaluateHalfOpen ?s else evaluate ?s)"
    "onFailure b = (if cb_state b = HalfOpen then evaluateHalfOpen ?f else evaluate ?f)"
    by (auto simp: onSuccess_def onFailure_def tick_def now_def Let_def)
  ultimately show "cb_ok (if ok then onSuccess b else onFailure b)"
    "cb_edge (cb_state b) (cb_state (if ok then onSuccess b else onFailure b))"
    using evaluate_ok [of ?s] evaluate_ok [of ?f] evaluateHalfOpen_ok [of ?s] evaluateHalfOpen_ok [of ?f] by auto
qed

lemma release_ok: "cb_ok b \<Longrightarrow> cb_ok (release b)" "cb_state (release b) = cb_state b"
  by (auto simp: release_def cb_ok_def cb_cap_def split: option.splits nat.splits)

lemma tryAllow_ok:
  assumes "cb_ok b"
  shows "cb_ok (snd (tryAllow b))" "cb_edge (cb_state b) (cb_state (snd (tryAllow b)))"
proof -
  have tick: "cb_ok (tick b)" "cb_state (tick b) = cb_state b" using assms by (auto simp: cb_ok_def cb_cap_def tick_def)
  have half: "cb_ok (snd (case semCh (ensureSem b1) of
      None \<Rightarrow> (False, ensureSem b1)
    | Some (cap, used) \<Rightarrow> if used < cap then (True, (ensureSem b1)\<lparr>semCh := Some (cap, Suc used)\<rparr>)
                         else (False, ensureSem b1)))"
    if "cb_ok b1" "cb_state b1 = HalfOpen" for b1
    using that by (auto simp: cb_ok_def cb_cap_def ensureSem_def split: option.splits)
  have edge: "cb_state (snd (case semCh (ensureSem b1) of
      None \<Rightarrow> (False, ensureSem b1)
    | Some (cap, used) \<Rightarrow> if used < cap then (True, (ensureSem b1)\<lparr>semCh := Some (cap, Suc used)\<rparr>)
                         else (False, ensureSem b1))) = cb_state b1" for b1
    by (auto simp: ensureSem_def Let_def split: option.splits)
  show "cb_ok (snd (tryAllow b))"
    using tick half [of "tick b"] half [OF cb_ok_toHalfOpen [OF tick(1)]]
    by (cases "cb_state b") (auto simp: tryAllow_def Let_def)
  show "cb_edge (cb_state b) (cb_state (snd (tryAllow b)))"
    using tick(2) edge [of "tick b"] edge [of "toHalfOpen (tick b)"]
    by (cases "cb_state b") (auto simp: tryAllow_def Let_def)
qed

lemma cb_steps_ok:
  assumes "cb_steps s t" "cb_ok (sys_b s)"
  shows "cb_ok (sys_b t)"
  using assms
proof (induction rule: cb_steps.induct)
  case (cb_step s t a)
  then have ok: "cb_ok (sys_b t)" by simp
  show ?case
    using tryAllow_ok [OF ok] record_ok [OF ok] release_ok [of "sys_b t"] ok
    by (cases a) (auto split: prod.splits bool.splits)
qed

lemma cb_do_edge:
  assumes "cb_ok (sys_b s)"
  shows "cb_edge (cb_state (sys_b s)) (cb_state (sys_b (cb_do a s)))"
proof (cases a)
  case Try
  then show ?thesis using tryAllow_ok [OF assms] by (auto split: prod.splits bool.splits)
next
  case (Finish i ok)
  then show ?thesis using record_ok [OF assms, of ok] by simp
next
  case Release
  then show ?thesis by (cases "cb_state (sys_b s)") (simp_all add: release_ok)
qed

lemma cb_ok_make: "make_breaker op = Some b \<Longrightarrow> cb_ok b"
  by (auto simp: make_breaker_def cb_ok_def win_ok_new split: option.splits)

subsection \<open>Clock readings\<close>

lemma reads_evaluate: "reads b \<le> reads (evaluate b)" "reads b \<le> reads (evaluateHalfOpen b)"
proof -
  obtain m b' where M: "Metrics b = (m, b')" by force
  then have "reads b \<le> reads b'" by (rule Metrics_frame) simp
  then show "reads b \<le> reads (evaluate b)" "reads b \<le> reads (evaluateHalfOpen b)"
    using reads_to [of b'] by (auto simp: evaluate_def evaluateHalfOpen_def M)
qed

lemma reads_record: "reads b \<le> reads (onSuccess b)" "reads b \<le> reads (onFailure b)"
  unfolding onSuccess_def onFailure_def Let_def
  by (auto simp: tick_def intro: order.trans [OF _ reads_evaluate(1)] order.trans [OF _ reads_evaluate(2)])

lemma reads_tryAllow: "Suc (reads b) \<le> reads (snd (tryAllow b))"
proof -
  have "reads (snd (case semCh (ensureSem b1) of
      None \<Rightarrow> (False, ensureSem b1)
    | Some (cap, used) \<Rightarrow> if used < cap then (True, (ensureSem b1)\<lparr>semCh := Some (cap, Suc used)\<rparr>)
                         else (False, ensureSem b1))) = reads b1" for b1
    by (auto simp: ensureSem_def Let_def split: option.splits)
  then show ?thesis using reads_to(2) [of "tick b"] by (auto simp: tryAllow_def Let_def) (simp_all add: tick_def)
qed

lemma reads_do: "reads (sys_b s) \<le> reads (sys_b (cb_do a s))"
proof (cases a)
  case Try
  then show ?thesis using reads_tryAllow [of "sys_b s"] by (auto split: prod.splits bool.splits)
next
  case Release
  then show ?thesis by (auto simp: release_def split: option.splits nat.splits)
qed (auto simp: reads_record)

lemma toOpen_idle: "cb_state b = Open \<Longrightarrow> toOpen b = b"
  by (simp add: toOpen_def transitionTo_def)

lemma record_open:
  assumes "cb_state b = Open"
  shows "cb_state (if ok then onSuccess b else onFailure b) = Open"
    "openUntil (if ok then onSuccess b else onFailure b) = openUntil b"
    "cb_clock (if ok then onSuccess b else onFailure b) = cb_clock b"
proof -
  have *: "cb_state (evaluate b) = Open \<and> openUntil (evaluate b) = openUntil b \<and> cb_clock (evaluate b) = cb_clock b"
    if "cb_state b = Open" for b
  proof -
    obtain m b' where M: "Metrics b = (m, b')" by force
    then obtain w where "b' = b\<lparr>reads := reads b + 2, cb_buckets := w\<rparr>" by (rule Metrics_frame)
    then show ?thesis using that by (auto simp: evaluate_def M toOpen_idle)
  qed
  show "cb_state (if ok then onSuccess b else onFailure b) = Open"
    "openUntil (if ok then onSuccess b else onFailure b) = openUntil b"
    "cb_clock (if ok then onSuccess b else onFailure b) = cb_clock b"
    using assms by (auto simp: onSuccess_def onFailure_def Let_def * tick_def)
qed

lemma open_step:
  assumes "cb_state (sys_b s) = Open" "cb_enabled a s"
    and "\<And>i. reads (sys_b s) \<le> i \<Longrightarrow> i < reads (sys_b (cb_do a s)) \<Longrightarrow> cb_clock (sys_b s) i < openUntil (sys_b s)"
  shows "cb_state (sys_b (cb_do a s)) = Open \<and> openUntil (sys_b (cb_do a s)) = openUntil (sys_b s) \<and>
    cb_clock (sys_b (cb_do a s)) = cb_clock (sys_b s) \<and> mset (running (cb_do a s)) \<subseteq># mset (running s)"
proof (cases a)
  case Try
  have "sys_b (cb_do Try s) = snd (tryAllow (sys_b s))" by (auto split: prod.split bool.split)
  then have "now (sys_b s) < openUntil (sys_b s)"
    using assms(3) [of "reads (sys_b s)"] reads_tryAllow [of "sys_b s"] unfolding Try by (simp add: now_def)
  then have "tryAllow (sys_b s) = (False, tick (sys_b s))"
    using assms(1) by (simp add: tryAllow_def Let_def tick_def)
  then show ?thesis using Try assms(1) by (simp add: tick_def)
next
  case (Finish i ok)
  have "mset (running s) = mset (take i (running s)) + mset (drop i (running s))"
    by (metis append_take_drop_id mset_append)
  moreover have "mset (drop (Suc i) (running s)) \<subseteq># mset (drop i (running s))"
    by (cases "drop i (running s)") (auto simp: drop_Suc drop_tl)
  ultimately show ?thesis using Finish record_open [OF assms(1), of ok] by simp
next
  case Release
  then show ?thesis using assms(1) by (auto simp: release_def split: option.splits nat.splits)
qed

lemma open_steps:
  assumes "cb_steps s t" "cb_state (sys_b s) = Open"
    and "\<And>i. reads (sys_b s) \<le> i \<Longrightarrow> i < reads (sys_b t) \<Longrightarrow> cb_clock (sys_b s) i < openUntil (sys_b s)"
  shows "cb_state (sys_b t) = Open \<and> openUntil (sys_b t) = openUntil (sys_b s) \<and>
    cb_clock (sys_b t) = cb_clock (sys_b s) \<and> reads (sys_b s) \<le> reads (sys_b t) \<and>
    mset (running t) \<subseteq># mset (running s)"
  using assms
proof (induction rule: cb_steps.induct)
  case (cb_step s t a)
  note mono = reads_do [of t a]
  from cb_step.IH [OF cb_step.prems(1)] cb_step.prems(2) mono
  have IH: "cb_state (sys_b t) = Open" "openUntil (sys_b t) = openUntil (sys_b s)"
    "cb_clock (sys_b t) = cb_clock (sys_b s)" "reads (sys_b s) \<le> reads (sys_b t)"
    "mset (running t) \<subseteq># mset (running s)"
    by auto
  have "cb_clock (sys_b t) i < openUntil (sys_b t)" if "reads (sys_b t) \<le> i" "i < reads (sys_b (cb_do a t))" for i
    using cb_step.prems(2) [of i] IH that by simp
  from open_step [OF IH(1) cb_step.hyps(2) this] show ?case
    using IH mono by (auto intro: subset_mset.order_trans)
qed simp

subsection \<open>A run of failures\<close>

fun failing :: "('v, 'e, 'p) exec_event \<Rightarrow> bool" where
  "failing (Returned v) = False"
| "failing ev = True"

lemma Execute_failing:
  "cb_state b = Closed \<Longrightarrow> failing ev \<Longrightarrow> snd (Execute ev fallback b) = release (onFailure (tick b))"
  by (cases ev) (auto simp: Execute_def executeWithTimeout_def tryAllow_def Let_def tick_def)

text \<open>\<open>failed c op b k\<close>: the closed breaker after \<open>k\<close> failing calls, with the operations on its window.\<close>

definition failed :: "(nat \<Rightarrow> int) \<Rightarrow> options \<Rightarrow> breaker \<Rightarrow> win_op list \<Rightarrow> nat \<Rightarrow> bool" where
  "failed c op b ops k \<longleftrightarrow> cb_state b = Closed \<and> semCh b = None \<and> cb_clock b = c \<and> cb_opts b = op \<and>
     reads b = 1 + 5 * k \<and> cb_buckets b = foldl win_do (newBuckets (window op) (buckets op) (c 0)) ops \<and>
     length (recorded ops) = k \<and> (\<forall>e \<in> set (recorded ops). \<not> snd e \<and> c 1 \<le> fst e) \<and>
     sorted (c 0 # map op_time ops) \<and> (\<forall>x \<in> set ops. op_time x \<le> c (5 * k))"

lemma failed_start: "make_breaker op = Some b \<Longrightarrow> clock op = Some c \<Longrightarrow> failed c op b [] 0"
  by (auto simp: make_breaker_def failed_def)

lemma failed_totals:
  assumes f: "failed c op b ops k" and c: "mono c" and w: "1 \<le> buckets op" "buckets op \<le> window op"
    and span: "c (5 * k + 5) \<le> c 1 + (buckets op - 1) * (window op div buckets op)" and k: "Suc k < 2 ^ 64"
  defines "ops1 \<equiv> ops @ [Rec (c (5 * k + 2), False), Look (c (5 * k + 4))]"
  shows "fst (totals (c (5 * k + 5)) (foldl win_do (newBuckets (window op) (buckets op) (c 0)) ops1)) = (0, of_nat (Suc k))"
proof -
  let ?T = "c (5 * k + 5)" and ?es = "recorded ops1"
  let ?tot = "fst (totals ?T (foldl win_do (newBuckets (window op) (buckets op) (c 0)) ops1))"
  have le: "c (5 * k) \<le> c (5 * k + 2)" "c (5 * k + 2) \<le> c (5 * k + 4)" "c (5 * k + 4) \<le> ?T" "c 0 \<le> c (5 * k + 2)" "c 1 \<le> c (5 * k + 2)"
    using c by (auto intro: monoD)
  have sorted: "sorted (c 0 # map op_time ops1 @ [?T])"
    using f le by (fastforce simp: failed_def ops1_def sorted_append)
  have len: "length ?es = Suc k" and old: "\<forall>e \<in> set ?es. \<not> snd e \<and> c 1 \<le> fst e"
    using f le(5) by (auto simp: failed_def ops1_def)
  from old have "filter snd ?es = []" by (auto simp: filter_empty_conv)
  moreover from old have "filter (\<lambda>e. \<not> snd e) ?es = ?es" by (auto simp: filter_id_conv)
  moreover from old span have
    "filter (\<lambda>e. \<not> snd e \<and> ?T - (buckets op - 1) * (window op div buckets op) \<le> fst e) ?es = ?es"
    by (force simp: filter_id_conv)
  ultimately have "unat (fst ?tot) = 0" "unat (snd ?tot) = Suc k"
    using window_bounds [OF w sorted] len k by auto
  then have "fst ?tot = 0" "snd ?tot = of_nat (Suc k)"
    using k by (auto simp: word_unat_eq_iff unat_of_nat take_bit_nat_eq_self simp del: of_nat_Suc)
  then show ?thesis by (simp add: prod_eq_iff)
qed

lemma failed_step:
  assumes f: "failed c op b ops k" and c: "mono c" and w: "1 \<le> buckets op" "buckets op \<le> window op"
    and span: "c (5 * k + 5) \<le> c 1 + (buckets op - 1) * (window op div buckets op)"
    and m: "minRequests op < 2 ^ 63" "int (Suc k) \<le> minRequests op"
    and rate: "f64_le (failureRate op) (Fin 1)" and ev: "failing ev"
  shows "if int (Suc k) < minRequests op then \<exists>ops'. failed c op (snd (Execute ev fallback b)) ops' (Suc k)
         else cb_state (snd (Execute ev fallback b)) = Open"
proof -
  let ?b2 = "(tick b)\<lparr>cb_buckets := addFailure (c (5 * k + 2)) 1 (cb_buckets b), reads := 5 * k + 4,
    lastFailure := word_of_int (c (5 * k + 3))\<rparr>"
  let ?ops = "ops @ [Rec (c (5 * k + 2), False), Look (c (5 * k + 4)), Look (c (5 * k + 5))]"
  have onF: "onFailure (tick b) = evaluate ?b2"
    using f by (simp add: failed_def onFailure_def tick_def now_def Let_def eval_nat_numeral)
  obtain mt b' where M: "Metrics ?b2 = (mt, b')" by force
  have "Suc k < 2 ^ 64" using m by simp
  note tot = failed_totals [OF f c w span this]
  have b2: "now ?b2 = c (5 * k + 4)" "cb_clock ?b2 (Suc (reads ?b2)) = c (5 * k + 5)" "reads ?b2 + 2 = 5 * k + 6"
      "cb_buckets ?b2 = foldl win_do (newBuckets (window op) (buckets op) (c 0)) (ops @ [Rec (c (5 * k + 2), False)])"
    using f by (simp_all add: failed_def now_def tick_def eval_nat_numeral)
  from M obtain wd where wd0: "b' = ?b2\<lparr>reads := reads ?b2 + 2, cb_buckets := wd\<rparr>"
      "wd = snd (totals (cb_clock ?b2 (Suc (reads ?b2))) (snd (windowBounds (now ?b2) (cb_buckets ?b2))))"
      "(m_Successes mt, m_Failures mt) =
         fst (totals (cb_clock ?b2 (Suc (reads ?b2))) (snd (windowBounds (now ?b2) (cb_buckets ?b2))))"
      "m_Total mt = m_Successes mt + m_Failures mt"
      "m_FailureRate mt = (if 0 < m_Total mt then f64_quot (m_Failures mt) (m_Total mt) else Fin 0)"
    by (rule Metrics_frame)
  have wd: "b' = ?b2\<lparr>reads := 5 * k + 6, cb_buckets := wd\<rparr>"
      "wd = foldl win_do (newBuckets (window op) (buckets op) (c 0)) ?ops"
      "m_Total mt = of_nat (Suc k)" "m_Failures mt = of_nat (Suc k)"
    using wd0 tot unfolding b2 by (simp_all del: of_nat_Suc)
  have nz: "of_nat (Suc k) \<noteq> (0::u64)" and unat: "unat (of_nat (Suc k) :: u64) = Suc k"
    using m by (auto simp: unat_of_nat take_bit_nat_eq_self simp flip: unat_eq_zero simp del: of_nat_Suc)
  have less: "m_Total mt < word_of_int (minRequests op) \<longleftrightarrow> int (Suc k) < minRequests op"
    using m unat by (simp add: wd(3) word_less_nat_alt unsigned_of_int take_bit_int_eq_self del: of_nat_Suc) linarith
  have pos: "0 < m_Total mt" using nz by (simp add: wd(3) word_neq_0_conv del: of_nat_Suc)
  have fr: "m_FailureRate mt = Fin 1" using wd0(5) pos f64_quot_self [OF nz] unfolding wd(3,4) by simp
  have op': "cb_opts b' = op" using f wd(1) by (simp add: failed_def tick_def)
  have eval: "evaluate ?b2 = (if int (Suc k) < minRequests op then b' else toOpen b')"
    unfolding evaluate_def M prod.case op' less by (simp add: fr rate)
  have le: "c (5 * k) \<le> c (5 * k + 2)" "c (5 * k + 2) \<le> c (5 * k + 4)" "c (5 * k + 4) \<le> c (5 * k + 5)"
      "c 0 \<le> c (5 * k + 2)" "c 1 \<le> c (5 * k + 2)" "c (5 * k) \<le> c (5 * k + 5)" "c (5 * k + 2) \<le> c (5 * k + 5)"
    using c by (auto intro: monoD)
  have "failed c op b' ?ops (Suc k)"
  proof -
    from f have srt: "sorted (c 0 # map op_time ops)" and bnd: "\<And>x. x \<in> set ops \<Longrightarrow> op_time x \<le> c (5 * k)"
      by (auto simp: failed_def)
    have *: "op_time x \<le> c (5 * k + 2) \<and> op_time x \<le> c (5 * k + 4) \<and> op_time x \<le> c (5 * k + 5)" if "x \<in> set ops" for x
      using bnd [OF that] le by linarith
    have "sorted (c 0 # map op_time ?ops)" using srt le * by (auto simp: sorted_append)
    moreover have "\<forall>x \<in> set ?ops. op_time x \<le> c (5 * Suc k)" using * le by (auto simp: add.commute)
    moreover have "\<forall>e \<in> set (recorded ?ops). \<not> snd e \<and> c 1 \<le> fst e" "length (recorded ?ops) = Suc k"
      using f le by (auto simp: failed_def)
    moreover have "reads b' = 1 + 5 * Suc k" using wd(1) by simp
    ultimately show ?thesis using f wd(1) unfolding failed_def wd(2) by (simp add: tick_def)
  qed
  moreover have "release b' = b'" using f wd(1) by (simp add: release_def failed_def tick_def)
  moreover have "cb_state b = Closed" using f by (simp add: failed_def)
  from Execute_failing [OF this ev] have "snd (Execute ev fallback b) = release (evaluate ?b2)" by (simp only: onF)
  ultimately show ?thesis unfolding eval by (auto simp: release_ok)
qed

lemma failures_run:
  assumes c: "mono c" "clock op = Some c" and b: "make_breaker op = Some b"
    and w: "1 \<le> buckets op" "buckets op \<le> window op" and m: "minRequests op < 2 ^ 63"
    and rate: "f64_le (failureRate op) (Fin 1)"
  shows "int (length evs) \<le> minRequests op \<Longrightarrow> (\<And>ev. ev \<in> set evs \<Longrightarrow> failing ev) \<Longrightarrow>
    c (5 * length evs) \<le> c 1 + (buckets op - 1) * (window op div buckets op) \<Longrightarrow>
    (if int (length evs) < minRequests op \<or> evs = []
     then \<exists>ops. failed c op (foldl (\<lambda>b ev. snd (Execute ev fallback b)) b evs) ops (length evs)
     else cb_state (foldl (\<lambda>b ev. snd (Execute ev fallback b)) b evs) = Open)"
proof (induction evs rule: rev_induct)
  case Nil
  then show ?case using failed_start [OF b c(2)] by auto
next
  case (snoc ev evs)
  have le: "c (5 * length evs) \<le> c (5 * length (evs @ [ev]))" by (rule monoD [OF c(1)]) simp
  with snoc obtain ops where f: "failed c op (foldl (\<lambda>b ev. snd (Execute ev fallback b)) b evs) ops (length evs)"
    by auto
  have "failing ev" using snoc.prems(2) by simp
  from failed_step [OF f c(1) w _ m _ rate this, of fallback] snoc.prems(1,3) show ?case
    by (auto simp: add.commute split: if_splits)
qed

lemma NewCircuitBreaker_total: "\<exists>b. NewCircuitBreaker sys opts = Some b"
proof -
  have "clock (Sanitize sys op) \<noteq> None" for op by (simp add: Sanitize_def Let_def)
  then show ?thesis by (auto simp: NewCircuitBreaker_def make_breaker_def split: option.split)
qed

lemma NewCircuitBreaker_ok: "NewCircuitBreaker sys opts = Some b \<Longrightarrow> cb_ok b"
  by (auto simp: NewCircuitBreaker_def intro: cb_ok_make)

subsection \<open>Properties\<close>







text \<open>
  C27. Once a clock reading reaches \<^verbatim>\<open>openUntil\<close> the next call is let through: the breaker becomes
  half-open with an empty window and one permit in use. A half-open breaker then admits a call
  exactly when a permit is free.
\<close>

theorem breaker_probe:
  assumes "cb_ok b" "(cb_state b = Open \<and> openUntil b \<le> now b) \<or> cb_state b = HalfOpen"
  shows "if cb_state b = Open
    then \<exists>b'. tryAllow b = (True, b') \<and> cb_state b' = HalfOpen \<and> semCh b' = Some (cb_cap b, 1) \<and>
           slots (cb_buckets b') = replicate (num (cb_buckets b)) (0, 0)
    else \<exists>used b'. semCh b = Some (cb_cap b, used) \<and> tryAllow b = (used < cb_cap b, b') \<and>
           semCh b' = Some (cb_cap b, if used < cb_cap b then Suc used else used)"
proof (cases "cb_state b = Open")
  case True
  have w: "win_ok (bw_reset t (cb_buckets b))" for t using assms(1) by (simp add: cb_ok_def win_ok_ops)
  have "slots (bw_reset t (cb_buckets b)) = replicate (num (cb_buckets b)) (0, 0)" for t
    by (subst slots_replicate [OF w]) (auto simp: bw_reset_def counts_def)
  then show ?thesis
    using True assms
    by (auto simp: tryAllow_def Let_def tick_def toHalfOpen_def transitionTo_def transitionToHalfOpenLocked_def
        resetSemLocked_def ensureSem_def cb_cap_def max_def)
next
  case False
  then have half: "cb_state b = HalfOpen" using assms(2) by simp
  then obtain used where used: "semCh b = Some (cb_cap b, used)" using assms(1) by (auto simp: cb_ok_def)
  then show ?thesis using half by (auto simp: tryAllow_def Let_def tick_def ensureSem_def)
qed

theorem breaker_probe_witness:
  "\<exists>b. NewCircuitBreaker (\<lambda>n. int n * 60 * second) [] = Some b \<and>
     (\<exists>b'. tryAllow (toOpen b) = (True, b') \<and> cb_state b' = HalfOpen)"
proof -
  let ?c = "\<lambda>n. int n * 60 * second"
  obtain b where b: "NewCircuitBreaker ?c [] = Some b" using NewCircuitBreaker_total by blast
  then have ok: "cb_ok (toOpen b)" by (intro cb_ok_toOpen NewCircuitBreaker_ok)
  have "openUntil (toOpen b) \<le> now (toOpen b)"
    using b by (auto simp: NewCircuitBreaker_def make_breaker_def Sanitize_def defaultOptions_def transition_defs now_def)
  with breaker_probe [OF ok] have "\<exists>b'. tryAllow (toOpen b) = (True, b') \<and> cb_state b' = HalfOpen" by auto
  with b show ?thesis by blast
qed




end
