(* ===== verification/Pid_Tree.thy ===== *)
theory Pid_Tree
  imports Go_Prelude
begin

section \<open>The tree of actors\<close>

text \<open>
  \<^verbatim>\<open>actor/pid_tree.go\<close>. Nodes are shared by pointer, from the indexes, from their parent and from
  callers, so the model has a store: a node is an address, and \<open>heap\<close> gives its fields. A map field
  is \<^const>\<open>None\<close> when it is Go's nil map: reading and deleting then do nothing, and a write panics.
  Of a \<^verbatim>\<open>PID\<close> the tree only uses the identifier and the name. The \<^verbatim>\<open>NoSender\<close> of the actor system is
  the argument \<open>ns\<close>, which is \<^const>\<open>None\<close> until that actor is spawned. Every operation runs under
  the mutex of the tree.
\<close>

record apid =
  pid_id :: string
  pid_name :: string

text \<open>\<^verbatim>\<open>strings.EqualFold\<close> on the ASCII strings that addresses are made of.\<close>

definition lower :: "char \<Rightarrow> char" where
  "lower c = (if 65 \<le> (of_char c :: nat) \<and> (of_char c :: nat) \<le> 90 then char_of (of_char c + 32 :: nat) else c)"

definition EqualFold :: "string \<Rightarrow> string \<Rightarrow> bool" where
  "EqualFold s t \<longleftrightarrow> map lower s = map lower t"

fun pid_Equals :: "apid option \<Rightarrow> apid option \<Rightarrow> bool" where
  "pid_Equals None None = True"
| "pid_Equals (Some p) (Some q) = EqualFold (pid_id p) (pid_id q)"
| "pid_Equals _ _ = False"

type_synonym node_addr = nat

record pidNode =
  n_pid :: "apid option"
  n_parent :: "node_addr option"
  n_id :: string
  n_name :: string
  n_watchers :: "(string, apid) gomap option"
  n_watchees :: "(string, apid) gomap option"
  n_descendants :: "(string, node_addr) gomap"

definition newPidNode :: "apid option \<Rightarrow> pidNode" where
  "newPidNode p =
     \<lparr>n_pid = p, n_parent = None, n_id = (case p of None \<Rightarrow> '''' | Some q \<Rightarrow> pid_id q),
      n_name = (case p of None \<Rightarrow> '''' | Some q \<Rightarrow> pid_name q),
      n_watchers = Some [], n_watchees = Some [], n_descendants = []\<rparr>"

text \<open>\<open>nxt\<close> is the next free address; \<open>counter\<close> an atomic integer that counts nodes.\<close>

record pid_tree =
  heap :: "node_addr \<Rightarrow> pidNode"
  nxt :: node_addr
  rootNode :: node_addr
  pids :: "(string, node_addr) gomap"
  names :: "(string, node_addr) gomap"
  tcounter :: int
  noSender :: "apid option"

definition newTree :: pid_tree where
  "newTree = \<lparr>heap = (\<lambda>_. newPidNode None), nxt = 1, rootNode = 0, pids = [], names = [],
     tcounter = 0, noSender = None\<rparr>"

datatype tree_result = TDone pid_tree | TFailed string pid_tree | TPanic

definition upd :: "node_addr \<Rightarrow> (pidNode \<Rightarrow> pidNode) \<Rightarrow> pid_tree \<Rightarrow> pid_tree" where
  "upd a f x = x\<lparr>heap := (heap x)(a := f (heap x a))\<rparr>"

definition cache_noSender :: "apid option \<Rightarrow> pid_tree \<Rightarrow> pid_tree" where
  "cache_noSender ns x = (if noSender x = None then x\<lparr>noSender := ns\<rparr> else x)"

subsection \<open>Registering nodes\<close>

definition addRootNode :: "apid option \<Rightarrow> apid option \<Rightarrow> pid_tree \<Rightarrow> tree_result" where
  "addRootNode ns pid x0 =
     (case pid of
        None \<Rightarrow> TFailed ''pid is nil'' x0
      | Some p \<Rightarrow>
          let x = cache_noSender ns x0
          in if pid_Equals pid (noSender x) then TFailed ''pid cannot be NoSender'' x
             else if map_of (pids x) (pid_id p) \<noteq> None then TFailed ''pid already exists'' x
             else
               let r = rootNode x;
                   x1 = upd r (\<lambda>n. n\<lparr>n_pid := Some p, n_id := pid_id p, n_name := pid_name p\<rparr>) x
               in TDone (x1\<lparr>pids := gset (pid_id p) r (pids x), names := gset (pid_name p) r (names x),
                           tcounter := tcounter x + 1\<rparr>))"

definition addNodeLocked :: "apid option \<Rightarrow> apid option \<Rightarrow> apid option \<Rightarrow> pid_tree \<Rightarrow> tree_result" where
  "addNodeLocked ns parent pid x0 =
     (case pid of
        None \<Rightarrow> TFailed ''pid is nil'' x0
      | Some p \<Rightarrow>
     (case parent of
        None \<Rightarrow> TFailed ''parent pid is nil'' x0
      | Some par \<Rightarrow>
          let x = cache_noSender ns x0
          in if pid_Equals parent (noSender x) then TFailed ''parent pid cannot be NoSender'' x
             else if map_of (pids x) (pid_id p) \<noteq> None then TFailed ''pid already exists'' x
             else
               (case map_of (pids x) (pid_id par) of
                  None \<Rightarrow> TFailed ''parent pid does not exist'' x
                | Some pa \<Rightarrow>
                    let c = nxt x;
                        child = \<lparr>n_pid = Some p, n_parent = Some pa, n_id = pid_id p, n_name = pid_name p,
                                 n_watchers = Some [], n_watchees = Some [], n_descendants = []\<rparr>;
                        x1 = x\<lparr>heap := (heap x)(c := child), nxt := Suc c\<rparr>;
                        x2 = upd pa (\<lambda>n. n\<lparr>n_descendants := gset (pid_id p) c (n_descendants n)\<rparr>) x1
                    in case n_watchees (heap x2 pa) of
                         None \<Rightarrow> TPanic
                       | Some we \<Rightarrow>
                           let x3 = upd pa (\<lambda>n. n\<lparr>n_watchees := Some (gset (pid_id p) p we)\<rparr>) x2;
                               x4 = upd c (\<lambda>n. n\<lparr>n_watchers := map_option (gset (pid_id par) par) (n_watchers n)\<rparr>) x3
                           in TDone (x4\<lparr>pids := gset (pid_id p) c (pids x), names := gset (pid_name p) c (names x),
                                       tcounter := tcounter x + 1\<rparr>))))"

definition addNode :: "apid option \<Rightarrow> apid option \<Rightarrow> apid option \<Rightarrow> pid_tree \<Rightarrow> tree_result" where
  "addNode ns parent pid x = addNodeLocked ns parent pid x"

definition attachNodeLocked :: "apid option \<Rightarrow> apid option \<Rightarrow> apid option \<Rightarrow> pid_tree \<Rightarrow> tree_result" where
  "attachNodeLocked ns parent pid x =
     (case pid of
        None \<Rightarrow> TFailed ''pid is nil'' x
      | Some p \<Rightarrow>
     (case parent of
        None \<Rightarrow> TFailed ''parent pid is nil'' x
      | Some par \<Rightarrow>
          if pid_Equals parent ns then TFailed ''parent pid cannot be NoSender'' x
          else
            (case map_of (pids x) (pid_id par) of
               None \<Rightarrow> TFailed ''parent pid does not exist'' x
             | Some pa \<Rightarrow>
                 (case map_of (pids x) (pid_id p) of
                    None \<Rightarrow> TFailed ''pid does not exist'' x
                  | Some ca \<Rightarrow>
                      let x1 = upd ca (\<lambda>n. n\<lparr>n_parent := Some pa\<rparr>) x;
                          x2 = upd pa (\<lambda>n. n\<lparr>n_descendants := gset (pid_id p) ca (n_descendants n)\<rparr>) x1
                      in case n_watchees (heap x2 pa) of
                           None \<Rightarrow> TPanic
                         | Some we \<Rightarrow>
                             let x3 = upd pa (\<lambda>n. n\<lparr>n_watchees := Some (gset (pid_id p) p we)\<rparr>) x2
                             in case n_watchers (heap x3 ca) of
                                  None \<Rightarrow> TPanic
                                | Some wr \<Rightarrow> TDone (upd ca (\<lambda>n. n\<lparr>n_watchers := Some (gset (pid_id par) par wr)\<rparr>) x3)))))"

definition addOrAttachNode :: "apid option \<Rightarrow> apid option \<Rightarrow> apid option \<Rightarrow> pid_tree \<Rightarrow> tree_result" where
  "addOrAttachNode ns parent pid x =
     (case (pid, parent) of
        (Some p, Some par) \<Rightarrow>
          if pid_Equals parent ns then TDone x
          else if map_of (pids x) (pid_id p) \<noteq> None then attachNodeLocked ns parent pid x
          else addNodeLocked ns parent pid x
      | _ \<Rightarrow> TDone x)"

subsection \<open>Watching\<close>

definition removeWatcher :: "apid option \<Rightarrow> apid option \<Rightarrow> pid_tree \<Rightarrow> pid_tree" where
  "removeWatcher watchee watcher x =
     (case (watchee, watcher) of
        (Some we, Some wr) \<Rightarrow>
          let x1 = (case map_of (pids x) (pid_id wr) of
                      None \<Rightarrow> x
                    | Some a \<Rightarrow> upd a (\<lambda>n. n\<lparr>n_watchees := map_option (gdel (pid_id we)) (n_watchees n)\<rparr>) x)
          in case map_of (pids x1) (pid_id we) of
               None \<Rightarrow> x1
             | Some b \<Rightarrow> upd b (\<lambda>n. n\<lparr>n_watchers := map_option (gdel (pid_id wr)) (n_watchers n)\<rparr>) x1
      | _ \<Rightarrow> x)"

definition removeDescendant :: "string \<Rightarrow> string \<Rightarrow> pid_tree \<Rightarrow> pid_tree" where
  "removeDescendant parentID childID x =
     (case map_of (pids x) parentID of
        None \<Rightarrow> x
      | Some a \<Rightarrow> upd a (\<lambda>n. n\<lparr>n_descendants := gdel childID (n_descendants n)\<rparr>) x)"

definition addWatcher :: "apid option \<Rightarrow> apid option \<Rightarrow> apid option \<Rightarrow> pid_tree \<Rightarrow> tree_result" where
  "addWatcher ns pid watcher x =
     (case (pid, watcher) of
        (Some p, Some w) \<Rightarrow>
          let no = (if noSender x \<noteq> None then noSender x else ns)
          in if pid_Equals pid no \<or> pid_Equals watcher no then TDone x
             else
               (case (map_of (pids x) (pid_id p), map_of (pids x) (pid_id w)) of
                  (Some a, Some b) \<Rightarrow>
                    (case n_watchers (heap x a) of
                       None \<Rightarrow> TPanic
                     | Some wr \<Rightarrow>
                         let x1 = upd a (\<lambda>n. n\<lparr>n_watchers := Some (gset (pid_id w) w wr)\<rparr>) x
                         in case n_watchees (heap x1 b) of
                              None \<Rightarrow> TPanic
                            | Some we \<Rightarrow> TDone (upd b (\<lambda>n. n\<lparr>n_watchees := Some (gset (pid_id p) p we)\<rparr>) x1))
                | _ \<Rightarrow> TDone x)
      | _ \<Rightarrow> TDone x)"

subsection \<open>Removing a subtree\<close>

text \<open>
  The traversal keeps a stack whose top is the head of the list here; children are pushed in the
  order of the map. It has no test for visited nodes, so it is a partial function: \<^const>\<open>None\<close> means
  that it does not return.
\<close>

partial_function (option) collect ::
  "(node_addr \<Rightarrow> pidNode) \<Rightarrow> node_addr list \<Rightarrow> node_addr list \<Rightarrow> node_addr list option" where
  "collect h stack post =
     (case stack of
        [] \<Rightarrow> Some post
      | n # st \<Rightarrow> collect h (rev (map snd (n_descendants (h n))) @ st) (post @ [n]))"

declare collect.simps [code]

definition opt_keys :: "('k, 'v) gomap option \<Rightarrow> 'k list" where
  "opt_keys m = (case m of None \<Rightarrow> [] | Some l \<Rightarrow> map fst l)"

definition unwatch_from :: "string \<Rightarrow> pid_tree \<Rightarrow> string \<Rightarrow> pid_tree" where
  "unwatch_from nid x watcherID =
     (case map_of (pids x) watcherID of
        None \<Rightarrow> x
      | Some a \<Rightarrow> upd a (\<lambda>n. n\<lparr>n_watchees := map_option (gdel nid) (n_watchees n)\<rparr>) x)"

definition unwatch_to :: "string \<Rightarrow> pid_tree \<Rightarrow> string \<Rightarrow> pid_tree" where
  "unwatch_to nid x watcheeID =
     (case map_of (pids x) watcheeID of
        None \<Rightarrow> x
      | Some a \<Rightarrow> upd a (\<lambda>n. n\<lparr>n_watchers := map_option (gdel nid) (n_watchers n)\<rparr>) x)"

definition clean_watchers :: "node_addr \<Rightarrow> pid_tree \<Rightarrow> pid_tree" where
  "clean_watchers a x =
     upd a (\<lambda>n. n\<lparr>n_watchers := None\<rparr>)
       (foldl (unwatch_from (n_id (heap x a))) x (opt_keys (n_watchers (heap x a))))"

definition clean_watchees :: "node_addr \<Rightarrow> pid_tree \<Rightarrow> pid_tree" where
  "clean_watchees a x =
     upd a (\<lambda>n. n\<lparr>n_watchees := None\<rparr>)
       (foldl (unwatch_to (n_id (heap x a))) x (opt_keys (n_watchees (heap x a))))"

definition unlink_parent :: "node_addr \<Rightarrow> pid_tree \<Rightarrow> pid_tree" where
  "unlink_parent a x =
     (case n_parent (heap x a) of
        None \<Rightarrow> x
      | Some pn \<Rightarrow>
          upd pn (\<lambda>n. n\<lparr>n_descendants := gdel (n_id (heap x a)) (n_descendants n),
                        n_watchees := map_option (gdel (n_id (heap x a))) (n_watchees n)\<rparr>) x)"

definition drop_index :: "node_addr \<Rightarrow> pid_tree \<Rightarrow> pid_tree" where
  "drop_index a x =
     (let nm = n_name (heap x a);
          x1 = x\<lparr>pids := gdel (n_id (heap x a)) (pids x),
                 names := (if map_of (names x) nm = Some a then gdel nm (names x) else names x)\<rparr>;
          x2 = upd a (\<lambda>n. n\<lparr>n_parent := None, n_pid := None\<rparr>) x1
      in x2\<lparr>tcounter := tcounter x2 - 1\<rparr>)"

definition unlink :: "pid_tree \<Rightarrow> node_addr \<Rightarrow> pid_tree" where
  "unlink x a =
     (if n_pid (heap x a) = None then x
      else drop_index a (unlink_parent a (clean_watchees a (clean_watchers a x))))"

definition deleteNode :: "apid option \<Rightarrow> apid option \<Rightarrow> pid_tree \<Rightarrow> pid_tree option" where
  "deleteNode ns pid x =
     (case pid of
        None \<Rightarrow> Some x
      | Some p \<Rightarrow>
          if pid_Equals pid (if noSender x \<noteq> None then noSender x else ns) then Some x
          else
            (case map_of (pids x) (pid_id p) of
               None \<Rightarrow> Some x
             | Some a \<Rightarrow>
                 (case collect (heap x) [a] [] of
                    None \<Rightarrow> None
                  | Some post \<Rightarrow> Some (foldl unlink x (rev post)))))"

definition tree_reset :: "pid_tree \<Rightarrow> pid_tree" where
  "tree_reset x =
     x\<lparr>heap := (heap x)(nxt x := newPidNode None), nxt := Suc (nxt x), rootNode := nxt x,
       pids := [], names := [], tcounter := 0\<rparr>"

subsection \<open>Queries\<close>

text \<open>A nil slice is \<^const>\<open>None\<close>.\<close>

definition node :: "string \<Rightarrow> pid_tree \<Rightarrow> node_addr option" where
  "node i x = map_of (pids x) i"

definition nodeByName :: "string \<Rightarrow> pid_tree \<Rightarrow> node_addr option" where
  "nodeByName nm x = (if nm = '''' then None else map_of (names x) nm)"

definition nodes :: "pid_tree \<Rightarrow> node_addr list" where
  "nodes x = map snd (pids x)"

definition is_noSender :: "apid \<Rightarrow> pid_tree \<Rightarrow> bool" where
  "is_noSender p x \<longleftrightarrow> noSender x \<noteq> None \<and> pid_Equals (Some p) (noSender x)"

definition live_pids :: "pid_tree \<Rightarrow> node_addr list \<Rightarrow> apid list" where
  "live_pids x as = concat (map (\<lambda>a. case n_pid (heap x a) of None \<Rightarrow> [] | Some p \<Rightarrow> [p]) as)"

definition siblings :: "apid option \<Rightarrow> pid_tree \<Rightarrow> apid list option" where
  "siblings pid x =
     (case pid of
        None \<Rightarrow> None
      | Some p \<Rightarrow>
          if is_noSender p x then None
          else
            (case map_of (pids x) (pid_id p) of
               None \<Rightarrow> None
             | Some a \<Rightarrow>
                 (case n_parent (heap x a) of
                    None \<Rightarrow> None
                  | Some pa \<Rightarrow>
                      if length (n_descendants (heap x pa)) \<le> 1 then Some []
                      else Some (filter (\<lambda>sp. \<not> pid_Equals (Some sp) pid)
                             (live_pids x (map snd (n_descendants (heap x pa))))))))"

definition children :: "apid option \<Rightarrow> pid_tree \<Rightarrow> apid list option" where
  "children pid x =
     (case pid of
        None \<Rightarrow> None
      | Some p \<Rightarrow>
          if is_noSender p x then None
          else
            (case map_of (pids x) (pid_id p) of
               None \<Rightarrow> None
             | Some a \<Rightarrow> Some (live_pids x (map snd (n_descendants (heap x a))))))"

text \<open>
  \<^verbatim>\<open>descendants\<close> runs the same loop as \<open>collect\<close> and keeps the PIDs; the outer option is for a loop
  that does not return.
\<close>

definition descendants :: "apid option \<Rightarrow> pid_tree \<Rightarrow> apid list option option" where
  "descendants pid x =
     (case pid of
        None \<Rightarrow> Some None
      | Some p \<Rightarrow>
          if is_noSender p x then Some None
          else
            (case map_of (pids x) (pid_id p) of
               None \<Rightarrow> Some None
             | Some a \<Rightarrow>
                 if n_descendants (heap x a) = [] then Some (Some [])
                 else map_option (\<lambda>ns. Some (live_pids x ns))
                        (collect (heap x) (rev (map snd (n_descendants (heap x a)))) [])))"

definition tree_count :: "pid_tree \<Rightarrow> int" where
  "tree_count x = tcounter x"

definition tree_root :: "pid_tree \<Rightarrow> apid option" where
  "tree_root x = n_pid (heap x (rootNode x))"

definition tree_parent :: "apid option \<Rightarrow> pid_tree \<Rightarrow> apid option" where
  "tree_parent pid x =
     (case pid of
        None \<Rightarrow> None
      | Some p \<Rightarrow>
          if is_noSender p x then None
          else
            (case map_of (pids x) (pid_id p) of
               None \<Rightarrow> None
             | Some a \<Rightarrow> (case n_parent (heap x a) of None \<Rightarrow> None | Some pa \<Rightarrow> n_pid (heap x pa))))"

definition watch_list ::
  "(pidNode \<Rightarrow> (string, apid) gomap option) \<Rightarrow> apid option \<Rightarrow> pid_tree \<Rightarrow> apid list option" where
  "watch_list field pid x =
     (case pid of
        None \<Rightarrow> None
      | Some p \<Rightarrow>
          if is_noSender p x then None
          else
            (case map_of (pids x) (pid_id p) of
               None \<Rightarrow> None
             | Some a \<Rightarrow> Some (case field (heap x a) of None \<Rightarrow> [] | Some l \<Rightarrow> map snd l)))"

definition watchers :: "apid option \<Rightarrow> pid_tree \<Rightarrow> apid list option" where
  "watchers = watch_list n_watchers"

definition watchees :: "apid option \<Rightarrow> pid_tree \<Rightarrow> apid list option" where
  "watchees = watch_list n_watchees"

subsection \<open>Invariant\<close>

text \<open>
  Every indexed node is live and carries its own key; watching is symmetric and only between
  indexed nodes; a child in a descendants map is indexed, points back to its parent and was
  allocated after it. The last point makes the tree acyclic.
\<close>

definition wrs :: "pid_tree \<Rightarrow> node_addr \<Rightarrow> string set" where
  "wrs x a = set (opt_keys (n_watchers (heap x a)))"

definition wes :: "pid_tree \<Rightarrow> node_addr \<Rightarrow> string set" where
  "wes x a = set (opt_keys (n_watchees (heap x a)))"

definition node_ok :: "pid_tree \<Rightarrow> string \<Rightarrow> node_addr \<Rightarrow> bool" where
  "node_ok x i a \<longleftrightarrow> a < nxt x \<and> n_id (heap x a) = i \<and>
     (\<exists>p. n_pid (heap x a) = Some p \<and> pid_id p = i \<and> pid_name p = n_name (heap x a)) \<and>
     n_watchers (heap x a) \<noteq> None \<and> n_watchees (heap x a) \<noteq> None \<and>
     wrs x a \<subseteq> dom (map_of (pids x)) \<and> wes x a \<subseteq> dom (map_of (pids x)) \<and>
     keys_ok (n_descendants (heap x a)) \<and>
     (\<forall>c ca. map_of (n_descendants (heap x a)) c = Some ca \<longrightarrow>
        map_of (pids x) c = Some ca \<and> n_parent (heap x ca) = Some a \<and> a < ca) \<and>
     (\<forall>pa. n_parent (heap x a) = Some pa \<longrightarrow> pa < a)"

definition tree_ok :: "pid_tree \<Rightarrow> bool" where
  "tree_ok x \<longleftrightarrow> keys_ok (pids x) \<and> tcounter x = int (length (pids x)) \<and> rootNode x < nxt x \<and>
     (\<forall>i a. map_of (pids x) i = Some a \<longrightarrow> node_ok x i a) \<and>
     (\<forall>nm a. map_of (names x) nm = Some a \<longrightarrow>
        n_name (heap x a) = nm \<and> map_of (pids x) (n_id (heap x a)) = Some a) \<and>
     (\<forall>i a j b. map_of (pids x) i = Some a \<longrightarrow> map_of (pids x) j = Some b \<longrightarrow> (j \<in> wrs x a \<longleftrightarrow> i \<in> wes x b))"

lemma tree_okD:
  assumes "tree_ok x"
  shows "keys_ok (pids x)" "tcounter x = int (length (pids x))" "rootNode x < nxt x"
    "map_of (pids x) i = Some a \<Longrightarrow> node_ok x i a"
    "map_of (names x) nm = Some a \<Longrightarrow> n_name (heap x a) = nm \<and> map_of (pids x) (n_id (heap x a)) = Some a"
    "map_of (pids x) i = Some a \<Longrightarrow> map_of (pids x) j = Some b \<Longrightarrow> j \<in> wrs x a \<longleftrightarrow> i \<in> wes x b"
  using assms unfolding tree_ok_def by blast+

lemma node_okD:
  assumes "node_ok x i a"
  shows "a < nxt x" "n_id (heap x a) = i" "n_pid (heap x a) \<noteq> None"
    "n_watchers (heap x a) \<noteq> None" "n_watchees (heap x a) \<noteq> None"
    "j \<in> wrs x a \<Longrightarrow> \<exists>b. map_of (pids x) j = Some b" "j \<in> wes x a \<Longrightarrow> \<exists>b. map_of (pids x) j = Some b"
    "keys_ok (n_descendants (heap x a))"
    "map_of (n_descendants (heap x a)) c = Some ca \<Longrightarrow>
       map_of (pids x) c = Some ca \<and> n_parent (heap x ca) = Some a \<and> a < ca"
    "n_parent (heap x a) = Some pa \<Longrightarrow> pa < a"
  using assms unfolding node_ok_def by auto

lemma tree_ok_addr_inj:
  "tree_ok x \<Longrightarrow> map_of (pids x) i = Some a \<Longrightarrow> map_of (pids x) j = Some a \<Longrightarrow> i = j"
  using tree_okD(4) node_okD(2) by blast

lemma upd_simps [simp]:
  "pids (upd a f x) = pids x" "names (upd a f x) = names x" "nxt (upd a f x) = nxt x"
  "rootNode (upd a f x) = rootNode x" "tcounter (upd a f x) = tcounter x" "noSender (upd a f x) = noSender x"
  "heap (upd a f x) = (heap x)(a := f (heap x a))"
  by (simp_all add: upd_def)

lemma map_keys_gdel [simp]: "set (map fst (gdel k m)) = set (map fst m) - {k}"
  by (simp add: delete_keys)

lemma opt_keys_simps [simp]:
  "opt_keys None = []" "opt_keys (Some l) = map fst l"
  "set (opt_keys (map_option (gdel k) m)) = set (opt_keys m) - {k}"
  by (auto simp: opt_keys_def delete_keys split: option.split)

lemma gdel_gdel [simp]: "gdel k (gdel k m) = gdel k m"
  by (simp add: delete_idem)

lemma map_option_gdel_idem [simp]: "map_option (gdel k) (map_option (gdel k) m) = map_option (gdel k) m"
  by (cases m) auto

text \<open>The two clean-up loops, as one update of the store.\<close>

lemma foldl_unwatch_from:
  "foldl (unwatch_from nid) x ks = x\<lparr>heap := \<lambda>b.
     if \<exists>k \<in> set ks. map_of (pids x) k = Some b
     then (heap x b)\<lparr>n_watchees := map_option (gdel nid) (n_watchees (heap x b))\<rparr> else heap x b\<rparr>"
proof (induction ks arbitrary: x)
  case (Cons k ks)
  show ?case
    unfolding foldl_Cons Cons.IH
    by (auto simp: unwatch_from_def fun_eq_iff upd_def split: option.split)
qed simp

lemma foldl_unwatch_to:
  "foldl (unwatch_to nid) x ks = x\<lparr>heap := \<lambda>b.
     if \<exists>k \<in> set ks. map_of (pids x) k = Some b
     then (heap x b)\<lparr>n_watchers := map_option (gdel nid) (n_watchers (heap x b))\<rparr> else heap x b\<rparr>"
proof (induction ks arbitrary: x)
  case (Cons k ks)
  show ?case
    unfolding foldl_Cons Cons.IH
    by (auto simp: unwatch_to_def fun_eq_iff upd_def split: option.split)
qed simp

definition points_to :: "pid_tree \<Rightarrow> string set \<Rightarrow> node_addr \<Rightarrow> bool" where
  "points_to x ks b \<longleftrightarrow> (\<exists>k \<in> ks. map_of (pids x) k = Some b)"

lemma clean_watchers_frame [simp]:
  "pids (clean_watchers a x) = pids x" "names (clean_watchers a x) = names x" "nxt (clean_watchers a x) = nxt x"
  "rootNode (clean_watchers a x) = rootNode x" "tcounter (clean_watchers a x) = tcounter x"
  "noSender (clean_watchers a x) = noSender x"
  by (simp_all add: clean_watchers_def foldl_unwatch_from)

lemma clean_watchees_frame [simp]:
  "pids (clean_watchees a x) = pids x" "names (clean_watchees a x) = names x" "nxt (clean_watchees a x) = nxt x"
  "rootNode (clean_watchees a x) = rootNode x" "tcounter (clean_watchees a x) = tcounter x"
  "noSender (clean_watchees a x) = noSender x"
  by (simp_all add: clean_watchees_def foldl_unwatch_to)

lemma unlink_parent_frame [simp]:
  "pids (unlink_parent a x) = pids x" "names (unlink_parent a x) = names x" "nxt (unlink_parent a x) = nxt x"
  "rootNode (unlink_parent a x) = rootNode x" "tcounter (unlink_parent a x) = tcounter x"
  "noSender (unlink_parent a x) = noSender x"
  by (simp_all add: unlink_parent_def split: option.split)

lemma clean_watchers_heap:
  "heap (clean_watchers a x) b = (heap x b)
     \<lparr>n_watchees := (if points_to x (wrs x a) b then map_option (gdel (n_id (heap x a))) (n_watchees (heap x b))
                     else n_watchees (heap x b)),
      n_watchers := (if b = a then None else n_watchers (heap x b))\<rparr>"
  by (simp add: clean_watchers_def foldl_unwatch_from points_to_def wrs_def)

lemma clean_watchees_heap:
  "heap (clean_watchees a x) b = (heap x b)
     \<lparr>n_watchers := (if points_to x (wes x a) b then map_option (gdel (n_id (heap x a))) (n_watchers (heap x b))
                     else n_watchers (heap x b)),
      n_watchees := (if b = a then None else n_watchees (heap x b))\<rparr>"
  by (simp add: clean_watchees_def foldl_unwatch_to points_to_def wes_def)

lemma unlink_parent_heap:
  "heap (unlink_parent a x) b =
     (if n_parent (heap x a) = Some b
      then (heap x b)\<lparr>n_descendants := gdel (n_id (heap x a)) (n_descendants (heap x b)),
                      n_watchees := map_option (gdel (n_id (heap x a))) (n_watchees (heap x b))\<rparr>
      else heap x b)"
  by (simp add: unlink_parent_def split: option.split)

lemma unlink_live:
  "n_pid (heap x a) \<noteq> None \<Longrightarrow>
     unlink x a = drop_index a (unlink_parent a (clean_watchees a (clean_watchers a x)))"
  unfolding unlink_def by (rule if_not_P)

lemma unlink_index:
  assumes "n_pid (heap x a) \<noteq> None"
  shows "pids (unlink x a) = gdel (n_id (heap x a)) (pids x)" "nxt (unlink x a) = nxt x"
    "rootNode (unlink x a) = rootNode x" "noSender (unlink x a) = noSender x" "tcounter (unlink x a) = tcounter x - 1"
    "names (unlink x a) =
       (if map_of (names x) (n_name (heap x a)) = Some a then gdel (n_name (heap x a)) (names x) else names x)"
  unfolding unlink_live [OF assms(1)] using assms
  by (simp_all add: drop_index_def Let_def unlink_parent_heap clean_watchees_heap clean_watchers_heap)

lemma unlink_fields:
  assumes "n_pid (heap x a) \<noteq> None" "b \<noteq> a"
  shows "n_pid (heap (unlink x a) b) = n_pid (heap x b)" "n_parent (heap (unlink x a) b) = n_parent (heap x b)"
    "n_id (heap (unlink x a) b) = n_id (heap x b)" "n_name (heap (unlink x a) b) = n_name (heap x b)"
    "n_descendants (heap (unlink x a) b) =
      (if n_parent (heap x a) = Some b then gdel (n_id (heap x a)) (n_descendants (heap x b)) else n_descendants (heap x b))"
  unfolding unlink_live [OF assms(1)] using assms
  by (simp_all add: drop_index_def Let_def unlink_parent_heap clean_watchees_heap clean_watchers_heap)

lemma unlink_watch:
  assumes "n_pid (heap x a) \<noteq> None" "b \<noteq> a" "map_of (pids x) (n_id (heap x a)) = Some a"
  shows "n_watchees (heap (unlink x a) b) =
      (if points_to x (wrs x a) b \<or> n_parent (heap x a) = Some b
       then map_option (gdel (n_id (heap x a))) (n_watchees (heap x b)) else n_watchees (heap x b))"
    "n_watchers (heap (unlink x a) b) =
      (if points_to x (wes x a) b then map_option (gdel (n_id (heap x a))) (n_watchers (heap x b)) else n_watchers (heap x b))"
proof -
  have "points_to x (wes (clean_watchers a x) a) b = points_to x (wes x a) b"
    using assms(2,3) by (auto simp: points_to_def wes_def clean_watchers_heap)
  moreover have "points_to (clean_watchers a x) ks b = points_to x ks b" for ks by (simp add: points_to_def)
  ultimately show
    "n_watchees (heap (unlink x a) b) =
      (if points_to x (wrs x a) b \<or> n_parent (heap x a) = Some b
       then map_option (gdel (n_id (heap x a))) (n_watchees (heap x b)) else n_watchees (heap x b))"
    "n_watchers (heap (unlink x a) b) =
      (if points_to x (wes x a) b then map_option (gdel (n_id (heap x a))) (n_watchers (heap x b)) else n_watchers (heap x b))"
    unfolding unlink_live [OF assms(1)] using assms(2)
    by (simp_all add: drop_index_def Let_def unlink_parent_heap clean_watchees_heap clean_watchers_heap)
qed

lemma unlink_wrs_wes:
  assumes ok: "tree_ok x" and a: "map_of (pids x) i = Some a" and b: "map_of (pids x) j = Some b" "b \<noteq> a"
  shows "wrs (unlink x a) b = wrs x b - {i}" "wes (unlink x a) b = wes x b - {i}"
proof -
  note aok = node_okD [OF tree_okD(4) [OF ok a]]
  have live: "n_pid (heap x a) \<noteq> None" "map_of (pids x) (n_id (heap x a)) = Some a" using aok(2,3) a by auto
  note w = unlink_watch [OF live(1) b(2) live(2)]
  have "points_to x (wrs x a) b \<longleftrightarrow> j \<in> wrs x a" "points_to x (wes x a) b \<longleftrightarrow> j \<in> wes x a"
    using tree_ok_addr_inj [OF ok _ b(1)] b(1) unfolding points_to_def by blast+
  then have pt: "points_to x (wrs x a) b \<longleftrightarrow> i \<in> wes x b" "points_to x (wes x a) b \<longleftrightarrow> i \<in> wrs x b"
    using tree_okD(6) [OF ok a b(1)] tree_okD(6) [OF ok b(1) a] by blast+
  show "wrs (unlink x a) b = wrs x b - {i}"
    using aok(2) pt(2) unfolding wrs_def w by auto
  show "wes (unlink x a) b = wes x b - {i}"
    using aok(2) pt(1) unfolding wes_def w by auto
qed

lemma length_gdel: "keys_ok m \<Longrightarrow> map_of m k = Some v \<Longrightarrow> int (length (gdel k m)) = int (length m) - 1"
proof (induction m)
  case (Cons y ys)
  obtain k' v' where y: "y = (k', v')" by force
  show ?case
  proof (cases "k' = k")
    case True
    then have "gdel k ys = ys" using Cons.prems y by (intro delete_id) (auto simp: keys_ok_def)
    then show ?thesis using y True by (simp add: AList.delete_eq)
  next
    case False
    then show ?thesis using Cons y by (simp add: keys_ok_def AList.delete_eq)
  qed
qed simp

lemma unlink_child:
  assumes ok: "tree_ok x" and a: "map_of (pids x) i = Some a" and b: "map_of (pids x) j = Some b" "b \<noteq> a"
  shows "map_of (n_descendants (heap (unlink x a) b)) = (map_of (n_descendants (heap x b)))(i := None)"
    "keys_ok (n_descendants (heap (unlink x a) b))"
proof -
  note aok = node_okD [OF tree_okD(4) [OF ok a]] and bok = node_okD [OF tree_okD(4) [OF ok b(1)]]
  note d = unlink_fields(5) [OF aok(3) b(2), unfolded aok(2)]
  have "map_of (n_descendants (heap x b)) i = None" if "n_parent (heap x a) \<noteq> Some b"
    using bok(9) [of i] a that by (cases "map_of (n_descendants (heap x b)) i") auto
  then show "map_of (n_descendants (heap (unlink x a) b)) = (map_of (n_descendants (heap x b)))(i := None)"
    unfolding d by (auto simp: fun_eq_iff)
  show "keys_ok (n_descendants (heap (unlink x a) b))"
    unfolding d using bok(8) by (simp add: keys_ok_def distinct_delete)
qed

lemma node_ok_unlink:
  assumes ok: "tree_ok x" and a: "map_of (pids x) i = Some a" and b: "map_of (pids x) j = Some b" "b \<noteq> a"
  shows "node_ok (unlink x a) j b"
proof -
  note aok = node_okD [OF tree_okD(4) [OF ok a]] and bok = node_okD [OF tree_okD(4) [OF ok b(1)]]
  have bn: "node_ok x j b" by (rule tree_okD(4) [OF ok b(1)])
  note f = unlink_fields [OF aok(3) b(2)] and w = unlink_wrs_wes [OF ok a b] and d = unlink_child [OF ok a b]
  have ai: "map_of (pids x) (n_id (heap x a)) = Some a" using aok(2) a by simp
  note uw = unlink_watch [OF aok(3) b(2) ai]
  have p: "pids (unlink x a) = gdel i (pids x)" "nxt (unlink x a) = nxt x" using unlink_index [OF aok(3)] aok(2) by auto
  have child: "map_of (pids (unlink x a)) c = Some ca \<and> n_parent (heap (unlink x a) ca) = Some b \<and> b < ca"
    if "map_of (n_descendants (heap (unlink x a) b)) c = Some ca" for c ca
  proof -
    have c: "c \<noteq> i" "map_of (n_descendants (heap x b)) c = Some ca" using that d(1) by (auto split: if_splits)
    from bok(9) [OF c(2)] have ca: "map_of (pids x) c = Some ca" "n_parent (heap x ca) = Some b" "b < ca" by auto
    then have "ca \<noteq> a" using tree_ok_addr_inj [OF ok ca(1)] a c(1) by blast
    then show ?thesis using ca c(1) unlink_fields(2) [OF aok(3)] by (simp add: p)
  qed
  have "n_watchers (heap (unlink x a) b) \<noteq> None" "n_watchees (heap (unlink x a) b) \<noteq> None"
    using bok(4,5) by (simp_all add: uw)
  moreover have "wrs (unlink x a) b \<subseteq> dom (map_of (pids (unlink x a)))" "wes (unlink x a) b \<subseteq> dom (map_of (pids (unlink x a)))"
    using bok(6,7) by (auto simp: w p)
  ultimately show ?thesis
    using bn d(2) child unfolding node_ok_def f p(2) by blast
qed

lemma tree_ok_unlink:
  assumes ok: "tree_ok x" and a: "map_of (pids x) i = Some a"
  shows "tree_ok (unlink x a)"
proof -
  note aok = node_okD [OF tree_okD(4) [OF ok a]]
  note ix = unlink_index [OF aok(3)]
  have p: "pids (unlink x a) = gdel i (pids x)" using ix(1) aok(2) by simp
  have other: "map_of (pids x) j = Some b \<and> b \<noteq> a" if "map_of (pids (unlink x a)) j = Some b" for j b
    using that tree_ok_addr_inj [OF ok a] by (auto simp: p split: if_splits)
  have "keys_ok (pids (unlink x a))" "tcounter (unlink x a) = int (length (pids (unlink x a)))"
    using tree_okD(1,2) [OF ok] length_gdel [OF tree_okD(1) [OF ok] a]
    by (simp_all add: p ix keys_ok_def distinct_delete)
  moreover have "rootNode (unlink x a) < nxt (unlink x a)" using tree_okD(3) [OF ok] by (simp add: ix)
  moreover have "node_ok (unlink x a) j b" if "map_of (pids (unlink x a)) j = Some b" for j b
    using node_ok_unlink [OF ok a] other [OF that] by blast
  moreover have "n_name (heap (unlink x a) b) = nm \<and> map_of (pids (unlink x a)) (n_id (heap (unlink x a) b)) = Some b"
    if nm: "map_of (names (unlink x a)) nm = Some b" for nm b
  proof -
    from nm have n: "map_of (names x) nm = Some b" by (auto simp: ix(6) split: if_splits)
    note nb = tree_okD(5) [OF ok n]
    have "b \<noteq> a" using nm n nb by (auto simp: ix(6) split: if_splits)
    moreover from this have "n_id (heap x b) \<noteq> i" using nb a by auto
    ultimately show ?thesis using nb unlink_fields [OF aok(3)] by (simp add: p)
  qed
  moreover have "j' \<in> wrs (unlink x a) b \<longleftrightarrow> j \<in> wes (unlink x a) b'"
    if "map_of (pids (unlink x a)) j = Some b" "map_of (pids (unlink x a)) j' = Some b'" for j b j' b'
    using other [OF that(1)] other [OF that(2)] that unlink_wrs_wes [OF ok a] tree_okD(6) [OF ok]
    by (auto simp: p split: if_splits)
  ultimately show ?thesis unfolding tree_ok_def by blast
qed

subsection \<open>The traversal\<close>

definition kids :: "pid_tree \<Rightarrow> node_addr \<Rightarrow> node_addr list" where
  "kids x a = map snd (n_descendants (heap x a))"

definition kid :: "pid_tree \<Rightarrow> node_addr \<Rightarrow> node_addr \<Rightarrow> bool" where
  "kid x a b \<longleftrightarrow> b \<in> set (kids x a)"

definition indexed :: "pid_tree \<Rightarrow> node_addr \<Rightarrow> bool" where
  "indexed x a \<longleftrightarrow> map_of (pids x) (n_id (heap x a)) = Some a"

definition subtree :: "pid_tree \<Rightarrow> node_addr \<Rightarrow> node_addr set" where
  "subtree x a = {b. (kid x)\<^sup>*\<^sup>* a b}"

lemma indexedI: "tree_ok x \<Longrightarrow> map_of (pids x) i = Some a \<Longrightarrow> indexed x a"
  using node_okD(2) [OF tree_okD(4)] by (simp add: indexed_def)

lemma kid_ok:
  assumes ok: "tree_ok x" and a: "indexed x a" and k: "kid x a b"
  shows "indexed x b" "n_parent (heap x b) = Some a" "a < b" "map_of (n_descendants (heap x a)) (n_id (heap x b)) = Some b"
proof -
  note aok = node_okD [OF tree_okD(4) [OF ok a [unfolded indexed_def]]]
  from k obtain c where "(c, b) \<in> set (n_descendants (heap x a))" by (auto simp: kid_def kids_def)
  then have c: "map_of (n_descendants (heap x a)) c = Some b" using aok(8) by (simp add: keys_ok_map_of)
  from aok(9) [OF c] have b: "map_of (pids x) c = Some b" "n_parent (heap x b) = Some a" "a < b" by auto
  then show "indexed x b" "n_parent (heap x b) = Some a" "a < b" by (auto intro: indexedI [OF ok])
  have "n_id (heap x b) = c" using node_okD(2) [OF tree_okD(4) [OF ok b(1)]] .
  with c show "map_of (n_descendants (heap x a)) (n_id (heap x b)) = Some b" by simp
qed

lemma distinct_kids:
  assumes ok: "tree_ok x" and a: "indexed x a"
  shows "distinct (kids x a)"
proof -
  have keys: "keys_ok (n_descendants (heap x a))" using node_okD(8) [OF tree_okD(4) [OF ok a [unfolded indexed_def]]] .
  have "c = n_id (heap x b)" if "(c, b) \<in> set (n_descendants (heap x a))" for c b
  proof -
    have "map_of (n_descendants (heap x a)) c = Some b" using that keys by (simp add: keys_ok_map_of)
    from node_okD(9) [OF tree_okD(4) [OF ok a [unfolded indexed_def]] this] have "map_of (pids x) c = Some b" by simp
    from node_okD(2) [OF tree_okD(4) [OF ok this]] show ?thesis by simp
  qed
  then have "inj_on snd (set (n_descendants (heap x a)))" by (intro inj_onI) (metis prod.collapse)
  then show ?thesis using keys by (simp add: kids_def keys_ok_def distinct_map)
qed

lemma kids_reach:
  assumes ok: "tree_ok x" and r: "(kid x)\<^sup>*\<^sup>* a b" and a: "indexed x a"
  shows "indexed x b \<and> a \<le> b"
  using r a
proof (induction rule: rtranclp_induct)
  case (step y z)
  then show ?case using kid_ok [OF ok, of y z] by auto
qed simp

lemma last_kid:
  assumes ok: "tree_ok x" and s: "indexed x s" "(kid x)\<^sup>*\<^sup>* s b" "s \<noteq> b" and a: "indexed x a" "kid x a b"
  shows "(kid x)\<^sup>*\<^sup>* s a"
proof -
  from s(2,3) obtain z where z: "(kid x)\<^sup>*\<^sup>* s z" "kid x z b" by (cases rule: rtranclp.cases) auto
  have "indexed x z" using kids_reach [OF ok z(1) s(1)] by simp
  then have "z = a" using kid_ok(2) [OF ok _ z(2)] kid_ok(2) [OF ok a] by simp
  with z(1) show ?thesis by simp
qed

lemma ancestors_chain:
  assumes ok: "tree_ok x" and r: "(kid x)\<^sup>*\<^sup>* s y" "(kid x)\<^sup>*\<^sup>* t y" and i: "indexed x s" "indexed x t"
  shows "(kid x)\<^sup>*\<^sup>* s t \<or> (kid x)\<^sup>*\<^sup>* t s"
  using r
proof (induction rule: rtranclp_induct)
  case (step y z)
  show ?case
  proof (cases "t = z")
    case True
    then show ?thesis using step.hyps by auto
  next
    case False
    have "indexed x y" using kids_reach [OF ok step.hyps(1) i(1)] by simp
    with last_kid [OF ok i(2) step.prems False _ step.hyps(2)] step.IH show ?thesis by simp
  qed
qed simp

text \<open>A stack of nodes none of which lies below another.\<close>

definition antichain :: "pid_tree \<Rightarrow> node_addr list \<Rightarrow> bool" where
  "antichain x st \<longleftrightarrow> distinct st \<and> (\<forall>s \<in> set st. indexed x s) \<and>
     (\<forall>s \<in> set st. \<forall>t \<in> set st. s \<noteq> t \<longrightarrow> \<not> (kid x)\<^sup>*\<^sup>* s t)"

lemma antichain_step:
  assumes ok: "tree_ok x" and st: "antichain x (n # st)"
  shows "antichain x (rev (kids x n) @ st)"
proof -
  have n: "indexed x n" "n \<notin> set st" using st by (auto simp: antichain_def)
  have sib: "\<not> (kid x)\<^sup>*\<^sup>* c c'" if "kid x n c" "kid x n c'" "c \<noteq> c'" for c c'
    using last_kid [OF ok _ _ that(3) n(1) that(2)] kid_ok [OF ok n(1) that(1)] kids_reach [OF ok, of c n] by fastforce
  have down: "\<not> (kid x)\<^sup>*\<^sup>* c s" if "kid x n c" "s \<in> set st" for c s
    using st that n(2) converse_rtranclp_into_rtranclp [of "kid x" n c s] by (auto simp: antichain_def)
  have up: "\<not> (kid x)\<^sup>*\<^sup>* s c" if "kid x n c" "s \<in> set st" for c s
  proof
    assume "(kid x)\<^sup>*\<^sup>* s c"
    moreover have "s \<noteq> c" using down [OF that] by auto
    moreover have "indexed x s" using st that by (simp add: antichain_def)
    ultimately have "(kid x)\<^sup>*\<^sup>* s n" using last_kid [OF ok _ _ _ n(1) that(1)] by blast
    then show False using st that n(2) by (auto simp: antichain_def)
  qed
  have "set (kids x n) \<inter> set st = {}" using down by (fastforce simp: kid_def)
  then show ?thesis
    using st distinct_kids [OF ok n(1)] kid_ok(1) [OF ok n(1)] sib down up
    by (auto simp: antichain_def kid_def)
qed

lemma subtree_unfold: "subtree x n = insert n (\<Union>c \<in> set (kids x n). subtree x c)"
  by (auto simp: subtree_def kid_def [symmetric] elim: converse_rtranclpE intro: converse_rtranclp_into_rtranclp)

lemma collect_simps [simp]:
  "collect h [] post = Some post"
  "collect h (n # st) post = collect h (rev (map snd (n_descendants (h n))) @ st) (post @ [n])"
  by (subst collect.simps; simp)+

lemma collect_spec:
  assumes ok: "tree_ok x" and st: "antichain x st"
  shows "\<exists>out. (\<forall>post. collect (heap x) st post = Some (post @ out)) \<and> distinct out \<and>
    set out = (\<Union>s \<in> set st. subtree x s)"
  using st
proof (induction st rule: wf_induct_rule [OF wf_inv_image [OF wf_mult1 [OF wf_less_than],
        where f = "\<lambda>st. mset (map (\<lambda>a. nxt x - a) st)"], case_names less])
  case (less st)
  show ?case
  proof (cases st)
    case Nil
    then show ?thesis by (intro exI [of _ "[]"]) simp
  next
    case (Cons n st')
    let ?st = "rev (kids x n) @ st'"
    have n: "indexed x n" using less.prems by (simp add: Cons antichain_def)
    have st': "antichain x ?st" by (rule antichain_step [OF ok less.prems [unfolded Cons]])
    have "nxt x - c < nxt x - n" if "c \<in> set (kids x n)" for c
      using kid_ok [OF ok n] that node_okD(1) [OF tree_okD(4) [OF ok]] unfolding kid_def indexed_def
      by (metis diff_less_mono2 order.strict_trans)
    then have "(mset (map (\<lambda>a. nxt x - a) ?st), mset (map (\<lambda>a. nxt x - a) st)) \<in> mult1 less_than"
      unfolding Cons by (intro mult1I [where a = "nxt x - n" and ?M0.0 = "mset (map (\<lambda>a. nxt x - a) st')"
          and K = "mset (map (\<lambda>a. nxt x - a) (kids x n))"]) auto
    then obtain out where out: "\<And>post. collect (heap x) ?st post = Some (post @ out)" "distinct out"
        "set out = (\<Union>s \<in> set ?st. subtree x s)"
      using less.IH [OF _ st'] by (auto simp: in_inv_image)
    have "n \<notin> set out"
    proof
      assume "n \<in> set out"
      then obtain s where s: "s \<in> set ?st" "(kid x)\<^sup>*\<^sup>* s n" using out(3) by (auto simp: subtree_def)
      then consider "kid x n s" | "s \<in> set st'" by (auto simp: kid_def)
      then show False
      proof cases
        case 1
        then show False using kid_ok [OF ok n 1] kids_reach [OF ok s(2)] by simp
      next
        case 2
        then show False using s(2) less.prems by (auto simp: Cons antichain_def)
      qed
    qed
    moreover have "collect (heap x) st post = Some (post @ n # out)" for post
      using out(1) [of "post @ [n]"] by (simp add: Cons kids_def)
    ultimately show ?thesis
      using out(2,3) subtree_unfold [of x n] by (intro exI [of _ "n # out"]) (auto simp: Cons)
  qed
qed

subsection \<open>What a deletion does\<close>

definition without :: "('k \<Rightarrow> node_addr option) \<Rightarrow> node_addr set \<Rightarrow> 'k \<Rightarrow> node_addr option" where
  "without m D = (\<lambda>k. case m k of None \<Rightarrow> None | Some b \<Rightarrow> if b \<in> D then None else Some b)"

lemma without_simps: "without m D k = Some b \<longleftrightarrow> m k = Some b \<and> b \<notin> D"
  by (auto simp: without_def split: option.splits)

definition ids :: "pid_tree \<Rightarrow> node_addr set \<Rightarrow> string set" where
  "ids x D = (\<lambda>a. n_id (heap x a)) ` D"

lemma unlink_pids:
  assumes ok: "tree_ok x" and a: "indexed x a"
  shows "map_of (pids (unlink x a)) = without (map_of (pids x)) {a}"
proof
  fix j
  have p: "pids (unlink x a) = gdel (n_id (heap x a)) (pids x)"
    by (rule unlink_index(1)) (rule node_okD(3) [OF tree_okD(4) [OF ok a [unfolded indexed_def]]])
  show "map_of (pids (unlink x a)) j = without (map_of (pids x)) {a} j"
  proof (cases "j = n_id (heap x a)")
    case True
    then show ?thesis using a by (simp add: p without_def indexed_def)
  next
    case False
    then have "map_of (pids x) j \<noteq> Some a" using tree_ok_addr_inj [OF ok _ a [unfolded indexed_def]] by blast
    then show ?thesis using False by (auto simp: p without_def split: option.split)
  qed
qed

lemma foldl_unlink:
  assumes "tree_ok x" "distinct L" "\<And>a. a \<in> set L \<Longrightarrow> indexed x a"
  shows "tree_ok (foldl unlink x L) \<and> map_of (pids (foldl unlink x L)) = without (map_of (pids x)) (set L) \<and>
    (\<forall>b. b \<notin> set L \<longrightarrow> indexed x b \<longrightarrow>
       n_pid (heap (foldl unlink x L) b) = n_pid (heap x b) \<and> n_parent (heap (foldl unlink x L) b) = n_parent (heap x b) \<and>
       wrs (foldl unlink x L) b = wrs x b - ids x (set L) \<and> wes (foldl unlink x L) b = wes x b - ids x (set L))"
  using assms
proof (induction L arbitrary: x)
  case Nil
  then show ?case by (auto simp: without_def ids_def split: option.split)
next
  case (Cons a L)
  let ?x = "unlink x a"
  have a: "indexed x a" and ok: "tree_ok x" using Cons.prems by auto
  note live = node_okD(3) [OF tree_okD(4) [OF ok a [unfolded indexed_def]]]
  have ok': "tree_ok ?x" by (rule tree_ok_unlink [OF ok a [unfolded indexed_def]])
  have keep: "indexed ?x b \<and> n_id (heap ?x b) = n_id (heap x b)" if "indexed x b" "b \<noteq> a" for b
    using that unlink_fields(3) [OF live that(2)] unlink_pids [OF ok a] by (auto simp: indexed_def without_def)
  have "\<And>b. b \<in> set L \<Longrightarrow> indexed ?x b" using keep Cons.prems(2,3) by auto
  note IH = Cons.IH [OF ok' _ this]
  have idL: "ids ?x (set L) = ids x (set L)" using keep Cons.prems(2,3) unfolding ids_def by (intro image_cong) auto
  have pids: "without (map_of (pids ?x)) (set L) = without (map_of (pids x)) (insert a (set L))"
    by (auto simp: unlink_pids [OF ok a] without_def fun_eq_iff split: option.split)
  show ?case
  proof (intro conjI allI impI)
    fix b assume b: "b \<notin> set (a # L)" "indexed x b"
    then have b': "b \<noteq> a" "b \<notin> set L" "indexed ?x b" using keep by auto
    note w = unlink_wrs_wes [OF ok a [unfolded indexed_def] b(2) [unfolded indexed_def] b'(1)]
    from IH Cons.prems(2) b'(2,3) have I: "n_pid (heap (foldl unlink ?x L) b) = n_pid (heap ?x b)"
      "n_parent (heap (foldl unlink ?x L) b) = n_parent (heap ?x b)"
      "wrs (foldl unlink ?x L) b = wrs ?x b - ids ?x (set L)" "wes (foldl unlink ?x L) b = wes ?x b - ids ?x (set L)"
      by auto
    show "n_pid (heap (foldl unlink x (a # L)) b) = n_pid (heap x b)"
      "n_parent (heap (foldl unlink x (a # L)) b) = n_parent (heap x b)"
      using I unlink_fields [OF live b'(1)] by simp_all
    show "wrs (foldl unlink x (a # L)) b = wrs x b - ids x (set (a # L))"
      "wes (foldl unlink x (a # L)) b = wes x b - ids x (set (a # L))"
      using I w idL by (auto simp: ids_def)
  qed (use IH Cons.prems(2) pids in auto)
qed

lemma subtree_indexed: "tree_ok x \<Longrightarrow> indexed x a \<Longrightarrow> b \<in> subtree x a \<Longrightarrow> indexed x b"
  using kids_reach by (auto simp: subtree_def)

lemma deleteNode_spec:
  assumes ok: "tree_ok x" and a: "map_of (pids x) (pid_id p) = Some a"
    and no: "\<not> pid_Equals (Some p) (if noSender x \<noteq> None then noSender x else ns)"
  obtains x' where "deleteNode ns (Some p) x = Some x'" "tree_ok x'"
    "map_of (pids x') = without (map_of (pids x)) (subtree x a)"
    "\<And>b. b \<notin> subtree x a \<Longrightarrow> indexed x b \<Longrightarrow>
       n_pid (heap x' b) = n_pid (heap x b) \<and> n_parent (heap x' b) = n_parent (heap x b) \<and>
       wrs x' b = wrs x b - ids x (subtree x a) \<and> wes x' b = wes x b - ids x (subtree x a)"
proof -
  have ia: "indexed x a" by (rule indexedI [OF ok a])
  then have "antichain x [a]" by (simp add: antichain_def)
  from collect_spec [OF ok this] obtain out where
    out: "collect (heap x) [a] [] = Some out" "distinct out" "set out = subtree x a" by fastforce
  have "deleteNode ns (Some p) x = Some (foldl unlink x (rev out))"
    using a no out(1) by (simp add: deleteNode_def del: collect_simps)
  moreover note foldl_unlink [OF ok, of "rev out"]
  ultimately show thesis using out(2,3) subtree_indexed [OF ok ia] by (intro that) auto
qed

subsection \<open>The other operations keep the invariant\<close>

lemma tree_ok_new: "tree_ok newTree"
  by (simp add: tree_ok_def newTree_def keys_ok_def)

lemma tree_ok_reset: "tree_ok (tree_reset x)"
  by (simp add: tree_ok_def tree_reset_def keys_ok_def)

lemma tree_ok_noSender [simp]: "tree_ok (x\<lparr>noSender := n\<rparr>) = tree_ok x"
  by (simp add: tree_ok_def node_ok_def wrs_def wes_def)

lemma cache_noSender_simps [simp]:
  "pids (cache_noSender ns x) = pids x" "heap (cache_noSender ns x) = heap x" "rootNode (cache_noSender ns x) = rootNode x"
  "names (cache_noSender ns x) = names x" "nxt (cache_noSender ns x) = nxt x" "tcounter (cache_noSender ns x) = tcounter x"
  "tree_ok (cache_noSender ns x) = tree_ok x"
  by (simp_all add: cache_noSender_def)

lemma length_gset: "map_of m k = None \<Longrightarrow> length (gset k v m) = Suc (length m)"
  by (induction m) (auto split: if_splits)

declare keys_gset [simp]

lemma not_indexed:
  assumes "tree_ok x" "map_of (pids x) k = Some c" "map_of (pids x) i = None"
  shows "i \<notin> wrs x c" "i \<notin> wes x c" "map_of (n_descendants (heap x c)) i = None"
proof -
  note c = node_okD [OF tree_okD(4) [OF assms(1,2)]]
  show "i \<notin> wrs x c" "i \<notin> wes x c" using c(6,7) assms(3) by fastforce+
  show "map_of (n_descendants (heap x c)) i = None"
    using c(9) [of i] assms(3) by (cases "map_of (n_descendants (heap x c)) i") auto
qed

lemma tree_ok_addRoot:
  assumes ok: "tree_ok x" and fresh: "heap x (rootNode x) = newPidNode None" and add: "addRootNode ns p x = TDone x'"
  shows "tree_ok x'"
proof -
  obtain q where q: "p = Some q" "map_of (pids x) (pid_id q) = None"
    and x': "heap x' = (heap x)(rootNode x := (newPidNode None)\<lparr>n_pid := Some q, n_id := pid_id q, n_name := pid_name q\<rparr>)"
      "pids x' = gset (pid_id q) (rootNode x) (pids x)" "names x' = gset (pid_name q) (rootNode x) (names x)"
      "nxt x' = nxt x" "rootNode x' = rootNode x" "tcounter x' = tcounter x + 1"
    using add fresh by (auto simp: addRootNode_def Let_def split: option.splits if_splits)
  have root: "map_of (pids x) i \<noteq> Some (rootNode x)" for i
    using node_okD(3) [OF tree_okD(4) [OF ok, of i "rootNode x"]] fresh by (auto simp: newPidNode_def)
  have h: "heap x' a = heap x a" "wrs x' a = wrs x a" "wes x' a = wes x a" if "map_of (pids x) i = Some a" for i a
    using that root by (auto simp: x' wrs_def wes_def)
  have r: "wrs x' (rootNode x) = {}" "wes x' (rootNode x) = {}" by (simp_all add: x' wrs_def wes_def newPidNode_def)
  have n: "map_of (names x) nm = Some a \<Longrightarrow> a \<noteq> rootNode x" for nm a using tree_okD(5) [OF ok] root by blast
  have node: "node_ok x' i a" if "map_of (pids x') i = Some a" for i a
  proof (cases "i = pid_id q")
    case True
    then have "a = rootNode x" using that by (simp add: x')
    then show ?thesis using True r tree_okD(3) [OF ok] by (simp add: node_ok_def x' newPidNode_def keys_ok_def)
  next
    case False
    then have a: "map_of (pids x) i = Some a" using that by (simp add: x')
    have "map_of (pids x') c = Some ca \<and> n_parent (heap x' ca) = Some a \<and> a < ca"
      if "map_of (n_descendants (heap x a)) c = Some ca" for c ca
    proof -
      from node_okD(9) [OF tree_okD(4) [OF ok a] that]
      have c: "map_of (pids x) c = Some ca" "n_parent (heap x ca) = Some a" "a < ca" by auto
      then show ?thesis using q(2) by (auto simp: h(1) [OF c(1)] x'(2))
    qed
    moreover have "dom (map_of (pids x)) \<subseteq> dom (map_of (pids x'))" by (auto simp: x')
    ultimately show ?thesis
      using tree_okD(4) [OF ok a] unfolding node_ok_def h [OF a] x'(4) by blast
  qed
  have sym: "j \<in> wrs x' a \<longleftrightarrow> i \<in> wes x' b" if "map_of (pids x') i = Some a" "map_of (pids x') j = Some b" for i a j b
  proof -
    show ?thesis
      using that h r not_indexed(1,2) [OF ok _ q(2)] tree_okD(6) [OF ok] by (auto simp: x'(2) split: if_splits)
  qed
  have nm: "n_name (heap x' a) = nm \<and> map_of (pids x') (n_id (heap x' a)) = Some a" if "map_of (names x') nm = Some a" for nm a
    using that tree_okD(5) [OF ok, of nm a] n [of nm a] q(2) by (auto simp: x' split: if_splits)
  show ?thesis
    using node sym nm tree_okD(1-3) [OF ok] length_gset [OF q(2)] unfolding tree_ok_def by (auto simp: x' gomap_ok)
qed

lemma addNodeLocked_cases:
  assumes ok: "tree_ok x"
  shows "(\<exists>e x'. addNodeLocked ns parent pid x = TFailed e x' \<and> tree_ok x' \<and> pids x' = pids x \<and> heap x' = heap x) \<or>
    (\<exists>p par pa x'. pid = Some p \<and> parent = Some par \<and> addNodeLocked ns parent pid x = TDone x' \<and>
       map_of (pids x) (pid_id p) = None \<and> map_of (pids x) (pid_id par) = Some pa \<and>
       heap x' = (heap x)(nxt x := \<lparr>n_pid = Some p, n_parent = Some pa, n_id = pid_id p, n_name = pid_name p,
           n_watchers = Some [(pid_id par, par)], n_watchees = Some [], n_descendants = []\<rparr>,
         pa := (heap x pa)\<lparr>n_descendants := gset (pid_id p) (nxt x) (n_descendants (heap x pa)),
           n_watchees := map_option (gset (pid_id p) p) (n_watchees (heap x pa))\<rparr>) \<and>
       pids x' = gset (pid_id p) (nxt x) (pids x) \<and> names x' = gset (pid_name p) (nxt x) (names x) \<and>
       nxt x' = Suc (nxt x) \<and> rootNode x' = rootNode x \<and> tcounter x' = tcounter x + 1)"
proof -
  have "pa < nxt x \<and> (\<exists>we. n_watchees (heap x pa) = Some we)" if "map_of (pids x) i = Some pa" for i pa
    using node_okD(1,5) [OF tree_okD(4) [OF ok that]] by auto
  then show ?thesis
    using ok by (fastforce simp: addNodeLocked_def Let_def fun_upd_twist split: option.split if_split)
qed

lemma tree_ok_addNode:
  assumes ok: "tree_ok x" and add: "addNodeLocked ns parent pid x = TDone x'"
  shows "tree_ok x'"
proof -
  from addNodeLocked_cases [OF ok, of ns parent pid] add obtain p par pa where
    p: "map_of (pids x) (pid_id p) = None" and par: "map_of (pids x) (pid_id par) = Some pa"
    and h: "heap x' = (heap x)(nxt x := \<lparr>n_pid = Some p, n_parent = Some pa, n_id = pid_id p, n_name = pid_name p,
           n_watchers = Some [(pid_id par, par)], n_watchees = Some [], n_descendants = []\<rparr>,
         pa := (heap x pa)\<lparr>n_descendants := gset (pid_id p) (nxt x) (n_descendants (heap x pa)),
           n_watchees := map_option (gset (pid_id p) p) (n_watchees (heap x pa))\<rparr>)"
    and x': "pids x' = gset (pid_id p) (nxt x) (pids x)" "names x' = gset (pid_name p) (nxt x) (names x)"
       "nxt x' = Suc (nxt x)" "rootNode x' = rootNode x" "tcounter x' = tcounter x + 1"
    by auto
  note pok = node_okD [OF tree_okD(4) [OF ok par]]
  have ix: "a < nxt x" if "map_of (pids x) i = Some a" for i a using node_okD(1) [OF tree_okD(4) [OF ok that]] .
  obtain we where we: "n_watchees (heap x pa) = Some we" using pok(5) by auto
  have hb: "n_pid (heap x' b) = n_pid (heap x b)" "n_parent (heap x' b) = n_parent (heap x b)" "n_id (heap x' b) = n_id (heap x b)"
      "n_name (heap x' b) = n_name (heap x b)" "n_watchers (heap x' b) = n_watchers (heap x b)"
      "n_watchees (heap x' b) = None \<longleftrightarrow> n_watchees (heap x b) = None"
      "n_descendants (heap x' b) = (if b = pa then gset (pid_id p) (nxt x) (n_descendants (heap x b)) else n_descendants (heap x b))"
      "wrs x' b = wrs x b" "wes x' b = (if b = pa then insert (pid_id p) (wes x b) else wes x b)"
    if "b < nxt x" for b
    using that we by (auto simp: h wrs_def wes_def)
  have hc: "wrs x' (nxt x) = {pid_id par}" "wes x' (nxt x) = {}" "n_parent (heap x' (nxt x)) = Some pa"
    using pok(1) by (auto simp: h wrs_def wes_def)
  have node: "node_ok x' i a" if i: "map_of (pids x') i = Some a" for i a
  proof (cases "i = pid_id p")
    case True
    then show ?thesis using i pok(1) hc par by (auto simp: node_ok_def x' h keys_ok_def)
  next
    case False
    then have a: "map_of (pids x) i = Some a" using i by (simp add: x')
    note aok = node_okD [OF tree_okD(4) [OF ok a]]
    have "map_of (pids x') c = Some ca \<and> n_parent (heap x' ca) = Some a \<and> a < ca"
      if d: "map_of (n_descendants (heap x' a)) c = Some ca" for c ca
    proof (cases "a = pa \<and> c = pid_id p")
      case True
      then have "ca = nxt x" using d hb(7) [OF pok(1)] by simp
      then show ?thesis using True hc aok(1) by (simp add: x')
    next
      case nt: False
      then have old: "map_of (n_descendants (heap x a)) c = Some ca" using d by (auto simp: hb [OF ix [OF a]] split: if_splits)
      note ca = aok(9) [OF old]
      then show ?thesis using p ix hb(2) [OF ix] by (auto simp: x')
    qed
    moreover have "dom (map_of (pids x')) = insert (pid_id p) (dom (map_of (pids x)))" by (simp add: x')
    ultimately show ?thesis
      using tree_okD(4) [OF ok a] ix [OF a] unfolding node_ok_def hb [OF ix [OF a]] x'(3) by auto
  qed
  have sym: "j \<in> wrs x' a \<longleftrightarrow> i \<in> wes x' b" if "map_of (pids x') i = Some a" "map_of (pids x') j = Some b" for i a j b
  proof (cases "i = pid_id p"; cases "j = pid_id p")
    assume "i = pid_id p" "j = pid_id p"
    then show ?thesis using that hc par p by (auto simp: x'(1))
  next
    assume c: "i = pid_id p" "j \<noteq> pid_id p"
    then have b: "map_of (pids x) j = Some b" "a = nxt x" using that by (auto simp: x'(1))
    have "j = pid_id par \<longleftrightarrow> b = pa" using tree_ok_addr_inj [OF ok par, of j] b(1) par by auto
    then show ?thesis using c b(2) hc hb(9) [OF ix [OF b(1)]] not_indexed(2) [OF ok b(1) p] by simp
  next
    assume c: "i \<noteq> pid_id p" "j = pid_id p"
    then have a: "map_of (pids x) i = Some a" "b = nxt x" using that by (auto simp: x'(1))
    then show ?thesis using c hc hb(8) [OF ix [OF a(1)]] not_indexed(1) [OF ok a(1) p] by simp
  next
    assume c: "i \<noteq> pid_id p" "j \<noteq> pid_id p"
    then have o: "map_of (pids x) i = Some a" "map_of (pids x) j = Some b" using that by (auto simp: x'(1))
    then show ?thesis using c(1) hb(8) [OF ix [OF o(1)]] hb(9) [OF ix [OF o(2)]] tree_okD(6) [OF ok o] by simp
  qed
  have nm: "n_name (heap x' a) = nm \<and> map_of (pids x') (n_id (heap x' a)) = Some a" if n: "map_of (names x') nm = Some a" for nm a
  proof (cases "nm = pid_name p")
    case True
    then show ?thesis using n pok(1) by (simp add: x' h)
  next
    case False
    then have "n_name (heap x a) = nm \<and> map_of (pids x) (n_id (heap x a)) = Some a"
      using n tree_okD(5) [OF ok] by (simp add: x')
    then show ?thesis using hb(3,4) [OF ix] p by (auto simp: x')
  qed
  show ?thesis
    using node sym nm tree_okD(1-3) [OF ok] length_gset [OF p] unfolding tree_ok_def by (auto simp: x')
qed

text \<open>Operations that only touch the watch and descendants maps of indexed nodes.\<close>

lemma tree_ok_transfer:
  assumes ok: "tree_ok x"
    and frame: "pids x' = pids x" "names x' = names x" "nxt x' = nxt x" "rootNode x' = rootNode x" "tcounter x' = tcounter x"
    and fields: "\<And>b. n_pid (heap x' b) = n_pid (heap x b) \<and> n_parent (heap x' b) = n_parent (heap x b) \<and>
        n_id (heap x' b) = n_id (heap x b) \<and> n_name (heap x' b) = n_name (heap x b) \<and>
        (n_watchers (heap x' b) = None \<longleftrightarrow> n_watchers (heap x b) = None) \<and>
        (n_watchees (heap x' b) = None \<longleftrightarrow> n_watchees (heap x b) = None)"
    and desc: "\<And>i a. map_of (pids x) i = Some a \<Longrightarrow> keys_ok (n_descendants (heap x' a)) \<and>
        (\<forall>c ca. map_of (n_descendants (heap x' a)) c = Some ca \<longrightarrow>
           map_of (pids x) c = Some ca \<and> n_parent (heap x ca) = Some a \<and> a < ca)"
    and watch: "\<And>i a. map_of (pids x) i = Some a \<Longrightarrow> wrs x' a \<subseteq> dom (map_of (pids x)) \<and> wes x' a \<subseteq> dom (map_of (pids x))"
    and sym: "\<And>i a j b. map_of (pids x) i = Some a \<Longrightarrow> map_of (pids x) j = Some b \<Longrightarrow> j \<in> wrs x' a \<longleftrightarrow> i \<in> wes x' b"
  shows "tree_ok x'"
proof -
  have "node_ok x' i a" if i: "map_of (pids x) i = Some a" for i a
    using tree_okD(4) [OF ok i] desc [OF i] watch [OF i] unfolding node_ok_def frame by (simp add: fields)
  then show ?thesis
    using tree_okD(1-3,5) [OF ok] sym unfolding tree_ok_def frame by (simp add: fields)
qed

lemma node_desc:
  assumes "tree_ok x" "map_of (pids x) i = Some a"
  shows "keys_ok (n_descendants (heap x a)) \<and>
    (\<forall>c ca. map_of (n_descendants (heap x a)) c = Some ca \<longrightarrow>
       map_of (pids x) c = Some ca \<and> n_parent (heap x ca) = Some a \<and> a < ca)"
  using node_okD(8,9) [OF tree_okD(4) [OF assms]] by blast

lemma node_watch:
  assumes "tree_ok x" "map_of (pids x) i = Some a"
  shows "wrs x a \<subseteq> dom (map_of (pids x))" "wes x a \<subseteq> dom (map_of (pids x))"
  using node_okD(6,7) [OF tree_okD(4) [OF assms]] by auto

lemma tree_ok_link_watch:
  assumes ok: "tree_ok x" and p: "map_of (pids x) i = Some a" and w: "map_of (pids x) j = Some b"
    and frame: "pids x' = pids x" "names x' = names x" "nxt x' = nxt x" "rootNode x' = rootNode x" "tcounter x' = tcounter x"
    and h: "\<And>c. heap x' c = (heap x c)
      \<lparr>n_watchers := (if c = a then map_option (gset j pw) (n_watchers (heap x c)) else n_watchers (heap x c)),
       n_watchees := (if c = b then map_option (gset i pp) (n_watchees (heap x c)) else n_watchees (heap x c))\<rparr>"
  shows "tree_ok x'"
proof -
  have wr: "wrs x' c = (if c = a then insert j (wrs x c) else wrs x c)" if "map_of (pids x) k = Some c" for k c
    using node_okD(4) [OF tree_okD(4) [OF ok that]] by (auto simp: wrs_def h)
  have we: "wes x' c = (if c = b then insert i (wes x c) else wes x c)" if "map_of (pids x) k = Some c" for k c
    using node_okD(5) [OF tree_okD(4) [OF ok that]] by (auto simp: wes_def h)
  have sym: "j' \<in> wrs x' a' \<longleftrightarrow> i' \<in> wes x' b'" if q: "map_of (pids x) i' = Some a'" "map_of (pids x) j' = Some b'" for i' a' j' b'
  proof -
    have "a' = a \<longleftrightarrow> i' = i" "b' = b \<longleftrightarrow> j' = j"
      using tree_ok_addr_inj [OF ok p, of i'] tree_ok_addr_inj [OF ok w, of j'] p w q by auto
    then show ?thesis using tree_okD(6) [OF ok q] by (auto simp: wr [OF q(1)] we [OF q(2)])
  qed
  have watch: "wrs x' c \<subseteq> dom (map_of (pids x)) \<and> wes x' c \<subseteq> dom (map_of (pids x))" if "map_of (pids x) k = Some c" for k c
    using node_watch [OF ok that] p w unfolding wr [OF that] we [OF that] by auto
  show ?thesis
  proof (rule tree_ok_transfer [OF ok frame _ _ watch sym])
    fix k c assume "map_of (pids x) k = Some c"
    from node_desc [OF ok this]
    show "keys_ok (n_descendants (heap x' c)) \<and> (\<forall>d da. map_of (n_descendants (heap x' c)) d = Some da \<longrightarrow>
        map_of (pids x) d = Some da \<and> n_parent (heap x da) = Some c \<and> c < da)"
      by (simp add: h)
  qed (simp_all add: h)
qed

lemma tree_ok_addWatcher:
  assumes ok: "tree_ok x"
  shows "\<exists>x'. addWatcher ns pid watcher x = TDone x' \<and> tree_ok x' \<and> pids x' = pids x"
proof -
  have "\<exists>x'. addWatcher ns (Some p) (Some w) x = TDone x' \<and> tree_ok x' \<and> pids x' = pids x"
    if p: "map_of (pids x) (pid_id p) = Some a" and w: "map_of (pids x) (pid_id w) = Some b"
      and no: "\<not> pid_Equals (Some p) (if noSender x \<noteq> None then noSender x else ns)"
        "\<not> pid_Equals (Some w) (if noSender x \<noteq> None then noSender x else ns)" for p w a b
  proof -
    let ?x1 = "upd a (\<lambda>n. n\<lparr>n_watchers := map_option (gset (pid_id w) w) (n_watchers n)\<rparr>) x"
    let ?x2 = "upd b (\<lambda>n. n\<lparr>n_watchees := map_option (gset (pid_id p) p) (n_watchees n)\<rparr>) ?x1"
    have "addWatcher ns (Some p) (Some w) x = TDone ?x2"
      using p w no node_okD(4) [OF tree_okD(4) [OF ok p]] node_okD(5) [OF tree_okD(4) [OF ok w]]
      by (auto simp: addWatcher_def Let_def upd_def)
    moreover have "tree_ok ?x2" by (rule tree_ok_link_watch [OF ok p w]) auto
    ultimately show ?thesis by simp
  qed
  then show ?thesis
    using ok by (cases pid; cases watcher) (auto simp: addWatcher_def Let_def split: option.splits)
qed

lemma tree_ok_removeDescendant:
  assumes ok: "tree_ok x"
  shows "tree_ok (removeDescendant i c x)"
proof (cases "map_of (pids x) i")
  case None
  then show ?thesis using ok by (simp add: removeDescendant_def)
next
  case (Some a)
  let ?x = "upd a (\<lambda>n. n\<lparr>n_descendants := gdel c (n_descendants n)\<rparr>) x"
  have w: "wrs ?x b = wrs x b" "wes ?x b = wes x b" for b by (simp_all add: wrs_def wes_def)
  have "tree_ok ?x"
  proof (rule tree_ok_transfer [OF ok])
    fix k b assume "map_of (pids x) k = Some b"
    from node_desc [OF ok this]
    show "keys_ok (n_descendants (heap ?x b)) \<and> (\<forall>d da. map_of (n_descendants (heap ?x b)) d = Some da \<longrightarrow>
        map_of (pids x) d = Some da \<and> n_parent (heap x da) = Some b \<and> b < da)"
      by (auto split: if_splits)
  qed (use node_watch [OF ok] tree_okD(6) [OF ok] in \<open>auto simp: w\<close>)
  then show ?thesis by (simp add: removeDescendant_def Some)
qed

lemma tree_ok_removeWatcher:
  assumes ok: "tree_ok x"
  shows "tree_ok (removeWatcher watchee watcher x)" "pids (removeWatcher watchee watcher x) = pids x"
proof -
  let ?x = "removeWatcher watchee watcher x"
  show pids: "pids ?x = pids x"
    by (cases watchee; cases watcher) (auto simp: removeWatcher_def Let_def split: option.split)
  show "tree_ok ?x"
  proof (cases "watchee = None \<or> watcher = None")
    case True
    then show ?thesis using ok by (cases watchee; cases watcher) (auto simp: removeWatcher_def)
  next
    case False
    then obtain we wr where w: "watchee = Some we" "watcher = Some wr" by auto
    have h: "heap ?x c = (heap x c)
        \<lparr>n_watchees := (if map_of (pids x) (pid_id wr) = Some c then map_option (gdel (pid_id we)) (n_watchees (heap x c))
                        else n_watchees (heap x c)),
         n_watchers := (if map_of (pids x) (pid_id we) = Some c then map_option (gdel (pid_id wr)) (n_watchers (heap x c))
                        else n_watchers (heap x c))\<rparr>" for c
      by (auto simp: removeWatcher_def w Let_def split: option.split)
    have frame: "names ?x = names x" "nxt ?x = nxt x" "rootNode ?x = rootNode x" "tcounter ?x = tcounter x"
      by (auto simp: removeWatcher_def w Let_def split: option.split)
    have wr': "wrs ?x c = (if k = pid_id we then wrs x c - {pid_id wr} else wrs x c)"
      and we': "wes ?x c = (if k = pid_id wr then wes x c - {pid_id we} else wes x c)"
      if k: "map_of (pids x) k = Some c" for k c
    proof -
      have "map_of (pids x) i = Some c \<longleftrightarrow> k = i" for i using tree_ok_addr_inj [OF ok k, of i] k by auto
      then show "wrs ?x c = (if k = pid_id we then wrs x c - {pid_id wr} else wrs x c)"
        "wes ?x c = (if k = pid_id wr then wes x c - {pid_id we} else wes x c)"
        by (simp_all add: wrs_def wes_def h)
    qed
    have sym: "j \<in> wrs ?x a \<longleftrightarrow> i \<in> wes ?x b" if q: "map_of (pids x) i = Some a" "map_of (pids x) j = Some b" for i a j b
      using tree_okD(6) [OF ok q] by (auto simp: wr' [OF q(1)] we' [OF q(2)])
    show ?thesis
    proof (rule tree_ok_transfer [OF ok pids frame _ _ _ sym])
      fix k b assume k: "map_of (pids x) k = Some b"
      from node_desc [OF ok k]
      show "keys_ok (n_descendants (heap ?x b)) \<and> (\<forall>d da. map_of (n_descendants (heap ?x b)) d = Some da \<longrightarrow>
          map_of (pids x) d = Some da \<and> n_parent (heap x da) = Some b \<and> b < da)" by (simp add: h)
      show "wrs ?x b \<subseteq> dom (map_of (pids x)) \<and> wes ?x b \<subseteq> dom (map_of (pids x))"
        using node_watch [OF ok k] unfolding wr' [OF k] we' [OF k] by auto
    qed (auto simp: h)
  qed
qed

text \<open>Attaching a node again below the parent it has, as a restart does.\<close>

lemma tree_ok_attach:
  assumes ok: "tree_ok x" and par: "map_of (pids x) (pid_id par) = Some pa" and p: "map_of (pids x) (pid_id p) = Some ca"
    and same: "n_parent (heap x ca) = Some pa" and no: "\<not> pid_Equals (Some par) ns"
  shows "\<exists>x'. attachNodeLocked ns (Some par) (Some p) x = TDone x' \<and> tree_ok x' \<and> pids x' = pids x"
proof -
  let ?x2 = "upd pa (\<lambda>n. n\<lparr>n_descendants := gset (pid_id p) ca (n_descendants n)\<rparr>) x"
  let ?x3 = "upd pa (\<lambda>n. n\<lparr>n_watchees := map_option (gset (pid_id p) p) (n_watchees n)\<rparr>) ?x2"
  let ?x4 = "upd ca (\<lambda>n. n\<lparr>n_watchers := map_option (gset (pid_id par) par) (n_watchers n)\<rparr>) ?x3"
  have w: "wrs ?x2 b = wrs x b" "wes ?x2 b = wes x b" for b by (simp_all add: wrs_def wes_def)
  have lt: "pa < ca" using node_okD(10) [OF tree_okD(4) [OF ok p] same] .
  have id: "upd ca (\<lambda>n. n\<lparr>n_parent := Some pa\<rparr>) x = x"
    using same by (simp add: upd_def fun_upd_idem_iff pidNode.surjective)
  have "attachNodeLocked ns (Some par) (Some p) x = TDone ?x4"
    using par p no id node_okD(5) [OF tree_okD(4) [OF ok par]] node_okD(4) [OF tree_okD(4) [OF ok p]] lt
    by (auto simp: attachNodeLocked_def Let_def upd_def)
  moreover have "tree_ok ?x2"
  proof (rule tree_ok_transfer [OF ok])
    fix k b assume "map_of (pids x) k = Some b"
    from node_desc [OF ok this]
    show "keys_ok (n_descendants (heap ?x2 b)) \<and> (\<forall>d da. map_of (n_descendants (heap ?x2 b)) d = Some da \<longrightarrow>
        map_of (pids x) d = Some da \<and> n_parent (heap x da) = Some b \<and> b < da)"
      using p same lt by (auto split: if_splits)
  qed (use node_watch [OF ok] tree_okD(6) [OF ok] in \<open>auto simp: w\<close>)
  then have "tree_ok ?x4"
    by (rule tree_ok_link_watch [where i = "pid_id p" and a = ca and j = "pid_id par" and b = pa and pw = par and pp = p])
       (use par p lt in auto)
  ultimately show ?thesis by simp
qed

subsection \<open>Runs\<close>

text \<open>
  The operations the actor system performs, in any order. \<open>tree_do\<close> is \<^const>\<open>None\<close> when the operation
  panics or does not return. The precondition records how the system calls two of them: the root is
  registered on a new or a reset tree, and \<^verbatim>\<open>addOrAttachNode\<close> attaches a registered actor below the
  parent it already has.
\<close>

datatype tree_op =
    OpRoot "apid option"
  | OpAdd "apid option" "apid option"
  | OpAttach "apid option" "apid option"
  | OpWatch "apid option" "apid option"
  | OpUnwatch "apid option" "apid option"
  | OpDisown string string
  | OpDelete "apid option"
  | OpReset

fun result_tree :: "tree_result \<Rightarrow> pid_tree option" where
  "result_tree (TDone x) = Some x"
| "result_tree (TFailed e x) = Some x"
| "result_tree TPanic = None"

fun tree_do :: "apid option \<Rightarrow> tree_op \<Rightarrow> pid_tree \<Rightarrow> pid_tree option" where
  "tree_do ns (OpRoot p) x = result_tree (addRootNode ns p x)"
| "tree_do ns (OpAdd par p) x = result_tree (addNode ns par p x)"
| "tree_do ns (OpAttach par p) x = result_tree (addOrAttachNode ns par p x)"
| "tree_do ns (OpWatch p w) x = result_tree (addWatcher ns p w x)"
| "tree_do ns (OpUnwatch p w) x = Some (removeWatcher p w x)"
| "tree_do ns (OpDisown i c) x = Some (removeDescendant i c x)"
| "tree_do ns (OpDelete p) x = deleteNode ns p x"
| "tree_do ns OpReset x = Some (tree_reset x)"

fun tree_pre :: "tree_op \<Rightarrow> pid_tree \<Rightarrow> bool" where
  "tree_pre (OpRoot p) x = (heap x (rootNode x) = newPidNode None)"
| "tree_pre (OpAttach (Some par) (Some p)) x =
     (case (map_of (pids x) (pid_id p), map_of (pids x) (pid_id par)) of
        (Some ca, Some pa) \<Rightarrow> n_parent (heap x ca) = Some pa
      | _ \<Rightarrow> True)"
| "tree_pre _ x = True"

inductive tree_run :: "pid_tree \<Rightarrow> bool" where
  tree_new: "tree_run newTree"
| tree_step: "tree_run x \<Longrightarrow> tree_pre op x \<Longrightarrow> tree_do ns op x = Some x' \<Longrightarrow> tree_run x'"

lemma tree_ok_addNodeLocked:
  assumes "tree_ok x"
  shows "\<exists>x'. result_tree (addNodeLocked ns par p x) = Some x' \<and> tree_ok x'"
  using addNodeLocked_cases [OF assms, of ns par p] tree_ok_addNode [OF assms, of ns par p] by auto

lemma tree_ok_addOrAttach:
  assumes ok: "tree_ok x" and pre: "tree_pre (OpAttach par p) x"
  shows "\<exists>x'. result_tree (addOrAttachNode ns par p x) = Some x' \<and> tree_ok x'"
proof (cases "\<exists>q r ca. p = Some q \<and> par = Some r \<and> \<not> pid_Equals par ns \<and> map_of (pids x) (pid_id q) = Some ca")
  case True
  then obtain q r ca where q: "p = Some q" "par = Some r" "\<not> pid_Equals par ns" "map_of (pids x) (pid_id q) = Some ca"
    by blast
  then have a: "addOrAttachNode ns par p x = attachNodeLocked ns par p x" by (simp add: addOrAttachNode_def)
  show ?thesis
  proof (cases "map_of (pids x) (pid_id r)")
    case None
    then show ?thesis using ok q unfolding a by (simp add: attachNodeLocked_def)
  next
    case (Some pa)
    then have "n_parent (heap x ca) = Some pa" using pre q by simp
    from tree_ok_attach [OF ok Some q(4) this, of ns] q show ?thesis unfolding a by auto
  qed
next
  case False
  then consider "p = None \<or> par = None \<or> pid_Equals par ns" | "addOrAttachNode ns par p x = addNodeLocked ns par p x"
    by (cases p; cases par; cases "pid_Equals par ns") (auto simp: addOrAttachNode_def)
  then show ?thesis
  proof cases
    case 1
    then show ?thesis using ok by (cases p; cases par) (auto simp: addOrAttachNode_def)
  next
    case 2
    then show ?thesis using tree_ok_addNodeLocked [OF ok] by simp
  qed
qed

lemma tree_ok_delete:
  assumes ok: "tree_ok x"
  shows "\<exists>x'. deleteNode ns p x = Some x' \<and> tree_ok x'"
proof (cases p)
  case None
  then show ?thesis using ok by (simp add: deleteNode_def)
next
  case (Some q)
  let ?no = "if noSender x \<noteq> None then noSender x else ns"
  consider "pid_Equals (Some q) ?no" | "map_of (pids x) (pid_id q) = None"
    | a where "\<not> pid_Equals (Some q) ?no" "map_of (pids x) (pid_id q) = Some a" by fastforce
  then show ?thesis
  proof cases
    case 1
    then show ?thesis using ok Some unfolding deleteNode_def by (simp only: option.case if_True) simp
  next
    case 2
    then show ?thesis using ok Some by (simp add: deleteNode_def)
  next
    case 3
    from deleteNode_spec [OF ok 3(2,1)] Some show ?thesis by metis
  qed
qed

lemma tree_do_ok:
  assumes ok: "tree_ok x" and pre: "tree_pre op x"
  shows "\<exists>x'. tree_do ns op x = Some x' \<and> tree_ok x'"
proof (cases op)
  case (OpRoot p)
  then show ?thesis
    using ok pre tree_ok_addRoot [OF ok, of ns p] by (cases "addRootNode ns p x")
      (auto simp: addRootNode_def Let_def split: option.splits if_splits)
next
  case (OpAdd par p)
  then show ?thesis using tree_ok_addNodeLocked [OF ok] by (simp add: addNode_def)
next
  case (OpAttach par p)
  then show ?thesis using tree_ok_addOrAttach [OF ok] pre by simp
next
  case (OpWatch p w)
  then show ?thesis using tree_ok_addWatcher [OF ok, of ns p w] by auto
qed (use ok in \<open>simp_all add: tree_ok_removeWatcher tree_ok_removeDescendant tree_ok_reset tree_ok_delete\<close>)

lemma tree_run_ok: "tree_run x \<Longrightarrow> tree_ok x"
proof (induction rule: tree_run.induct)
  case (tree_step x op ns x')
  then show ?case using tree_do_ok [of x op ns] by auto
qed (rule tree_ok_new)

lemma finite_range_pids: "finite (ran (map_of (pids x)))"
  by (rule finite_subset [of _ "snd ` set (pids x)"]) (auto simp: ran_def dest!: map_of_SomeD intro: rev_image_eqI)

lemma card_ran_pids:
  assumes ok: "tree_ok x"
  shows "card (ran (map_of (pids x))) = length (pids x)"
proof -
  have keys: "keys_ok (pids x)" by (rule tree_okD(1) [OF ok])
  have "inj_on snd (set (pids x))"
    using tree_ok_addr_inj [OF ok] by (auto simp: inj_on_def keys_ok_map_of [OF keys])
  then have "distinct (map snd (pids x))" using keys by (auto simp: keys_ok_def distinct_map)
  moreover have "ran (map_of (pids x)) = set (map snd (pids x))"
    using keys by (auto simp: ran_def keys_ok_map_of [symmetric] keys_ok_def intro: rev_image_eqI)
  ultimately show ?thesis by (metis distinct_card length_map)
qed

subsection \<open>A traversal that does not return\<close>

lemma collect_cycle:
  assumes "\<And>a. a \<in> C \<Longrightarrow> \<exists>c \<in> C. c \<in> snd ` set (n_descendants (h a))" and "set st \<inter> C \<noteq> {}"
  shows "collect h st post = None"
proof (rule ccontr)
  assume "collect h st post \<noteq> None"
  then obtain y where y: "collect h st post = Some y" by blast
  have "set st \<inter> C = {} \<or> (\<exists>a \<in> C. \<forall>c \<in> C. c \<notin> snd ` set (n_descendants (h a)))"
  proof (rule collect.raw_induct [where P =
        "\<lambda>h st post y. set st \<inter> C = {} \<or> (\<exists>a \<in> C. \<forall>c \<in> C. c \<notin> snd ` set (n_descendants (h a)))", OF _ y])
    fix f h st post y
    assume IH: "\<And>h st post y. f h st post = Some y \<Longrightarrow>
        set st \<inter> C = {} \<or> (\<exists>a \<in> C. \<forall>c \<in> C. c \<notin> snd ` set (n_descendants (h a)))"
      and body: "(case st of [] \<Rightarrow> Some post | n # st \<Rightarrow> f h (rev (map snd (n_descendants (h n))) @ st) (post @ [n])) = Some y"
    show "set st \<inter> C = {} \<or> (\<exists>a \<in> C. \<forall>c \<in> C. c \<notin> snd ` set (n_descendants (h a)))"
    proof (cases st)
      case (Cons n st')
      from IH [of h "rev (map snd (n_descendants (h n))) @ st'" "post @ [n]" y] body Cons
      have "set (map snd (n_descendants (h n))) \<inter> C = {} \<and> set st' \<inter> C = {} \<or>
          (\<exists>a \<in> C. \<forall>c \<in> C. c \<notin> snd ` set (n_descendants (h a)))"
        by (simp add: Int_Un_distrib2)
      then show ?thesis unfolding Cons by auto
    qed simp
  qed
  with assms show False by blast
qed

subsection \<open>Properties\<close>



text \<open>
  C37. Deleting an actor removes exactly its subtree: the index loses the actor and all actors
  below it and nothing else, the counter drops by their number, and every remaining actor loses
  precisely the removed ones from its watchers and watchees.
\<close>

theorem tree_delete_subtree:
  assumes "tree_run x" and a: "map_of (pids x) (pid_id p) = Some a"
    and "\<not> pid_Equals (Some p) (if noSender x \<noteq> None then noSender x else ns)"
  shows "\<exists>x'. deleteNode ns (Some p) x = Some x' \<and>
    (\<forall>i. node i x' = (case node i x of None \<Rightarrow> None | Some b \<Rightarrow> if b \<in> subtree x a then None else Some b)) \<and>
    tree_count x' = tree_count x - int (card (subtree x a)) \<and>
    (\<forall>i b. node i x' = Some b \<longrightarrow>
       wrs x' b = wrs x b - ids x (subtree x a) \<and> wes x' b = wes x b - ids x (subtree x a))"
proof -
  have ok: "tree_ok x" by (rule tree_run_ok [OF assms(1)])
  obtain x' where x': "deleteNode ns (Some p) x = Some x'" "tree_ok x'"
    and pids: "map_of (pids x') = without (map_of (pids x)) (subtree x a)"
    and keep: "\<And>b. b \<notin> subtree x a \<Longrightarrow> indexed x b \<Longrightarrow>
       n_pid (heap x' b) = n_pid (heap x b) \<and> n_parent (heap x' b) = n_parent (heap x b) \<and>
       wrs x' b = wrs x b - ids x (subtree x a) \<and> wes x' b = wes x b - ids x (subtree x a)"
    using deleteNode_spec [OF ok a assms(3)] by metis
  have sub: "subtree x a \<subseteq> ran (map_of (pids x))"
    using subtree_indexed [OF ok indexedI [OF ok a]] by (auto simp: indexed_def ran_def)
  moreover have "ran (map_of (pids x')) = ran (map_of (pids x)) - subtree x a"
    by (auto simp: ran_def pids without_simps)
  ultimately have "int (length (pids x')) = int (length (pids x)) - int (card (subtree x a))"
    using card_ran_pids [OF ok] card_ran_pids [OF x'(2)] finite_range_pids [of x] card_mono [OF _ sub]
    by (simp add: card_Diff_subset finite_subset [OF sub] of_nat_diff)
  then have count: "tree_count x' = tree_count x - int (card (subtree x a))"
    using tree_okD(2) [OF ok] tree_okD(2) [OF x'(2)] by (simp add: tree_count_def)
  show ?thesis
    using x'(1) count keep indexedI [OF ok] pids by (intro exI [of _ x']) (auto simp: node_def without_def split: option.splits if_splits)
qed

definition ex_pid :: "string \<Rightarrow> apid option" where
  "ex_pid s = Some \<lparr>pid_id = s, pid_name = s\<rparr>"

definition ex_step :: "tree_op \<Rightarrow> pid_tree \<Rightarrow> pid_tree" where
  "ex_step op x = (case tree_do None op x of Some x' \<Rightarrow> x' | None \<Rightarrow> newTree)"

definition ex_tree :: pid_tree where
  "ex_tree = ex_step (OpAdd (ex_pid ''a'') (ex_pid ''b''))
     (ex_step (OpAdd (ex_pid ''r'') (ex_pid ''a'')) (ex_step (OpRoot (ex_pid ''r'')) newTree))"

lemma tree_run_step: "tree_run x \<Longrightarrow> tree_pre op x \<Longrightarrow> tree_run (ex_step op x)"
  by (cases "tree_do None op x") (auto simp: ex_step_def simp del: tree_do.simps intro: tree_new tree_step)

lemma tree_run_ex: "tree_run ex_tree"
  unfolding ex_tree_def by (intro tree_run_step tree_new) (simp_all add: newTree_def)

theorem tree_delete_subtree_witness:
  "\<exists>x'. deleteNode None (ex_pid ''a'') ex_tree = Some x' \<and>
     tree_count x' = tree_count ex_tree - int (card (subtree ex_tree 1)) \<and> node ''b'' ex_tree = Some 2"
proof -
  have "map_of (pids ex_tree) ''a'' = Some 1" "noSender ex_tree = None" "node ''b'' ex_tree = Some 2"
    by code_simp+
  then show ?thesis
    using tree_delete_subtree [OF tree_run_ex, of "\<lparr>pid_id = ''a'', pid_name = ''a''\<rparr>" 1 None]
    by (auto simp: ex_pid_def)
qed

text \<open>
  C38. Re-parenting can make the tree cyclic: \<^verbatim>\<open>addOrAttachNode\<close> does not check whether the new
  parent lies below the actor, and it leaves the actor in the children of its old parent. Deleting
  an actor of the cycle never returns, with the mutex of the tree held.
\<close>

theorem tree_attach_cycle:
  "case addOrAttachNode None (ex_pid ''b'') (ex_pid ''a'') ex_tree of
     TDone x \<Rightarrow> deleteNode None (ex_pid ''a'') x = None \<and> node ''a'' x \<noteq> None \<and> node ''b'' x \<noteq> None
   | _ \<Rightarrow> False"
proof -
  obtain x where x: "addOrAttachNode None (ex_pid ''b'') (ex_pid ''a'') ex_tree = TDone x"
    and h: "n_descendants (heap x 1) = [(''b'', 2)]" "n_descendants (heap x 2) = [(''a'', 1)]"
    and ix: "map_of (pids x) ''a'' = Some 1" "map_of (pids x) ''b'' = Some 2" "noSender x = None"
  proof -
    have "case addOrAttachNode None (ex_pid ''b'') (ex_pid ''a'') ex_tree of
        TDone x \<Rightarrow> n_descendants (heap x 1) = [(''b'', 2)] \<and> n_descendants (heap x 2) = [(''a'', 1)] \<and>
          map_of (pids x) ''a'' = Some 1 \<and> map_of (pids x) ''b'' = Some 2 \<and> noSender x = None
      | _ \<Rightarrow> False"
      by code_simp
    then show thesis by (auto split: tree_result.splits intro: that)
  qed
  have "collect (heap x) [1] [] = None" by (rule collect_cycle [where C = "{1, 2}"]) (auto simp: h simp del: One_nat_def)
  then have "deleteNode None (ex_pid ''a'') x = None"
    using ix by (simp add: deleteNode_def ex_pid_def del: collect_simps)
  then show ?thesis using ix by (simp add: x node_def)
qed


end
