(* ===== verification/Pid_State.thy ===== *)
theory Pid_State
  imports Go_Prelude
begin

section \<open>The state bits of an actor\<close>

text \<open>
  \<^verbatim>\<open>actor/pid_state.go\<close>: ten flags in one 32-bit word. The loops of the code retry a compare-and-swap
  until no other goroutine interferes; the effect is one atomic update of the word.
\<close>

unbundle bit_operations_syntax

datatype pidState =
    runningState
  | stoppingState
  | suspendedState
  | passivatingState
  | passivationPausedState
  | passivationSkipNextState
  | singletonState
  | relocationState
  | systemState
  | remoteState

fun flag_index :: "pidState \<Rightarrow> nat" where
  "flag_index runningState = 0"
| "flag_index stoppingState = 1"
| "flag_index suspendedState = 2"
| "flag_index passivatingState = 3"
| "flag_index passivationPausedState = 4"
| "flag_index passivationSkipNextState = 5"
| "flag_index singletonState = 6"
| "flag_index relocationState = 7"
| "flag_index systemState = 8"
| "flag_index remoteState = 9"

definition state_bit :: "pidState \<Rightarrow> u32" where
  "state_bit f = push_bit (flag_index f) 1"

definition isStateSet :: "pidState \<Rightarrow> u32 \<Rightarrow> bool" where
  "isStateSet f st \<longleftrightarrow> st AND state_bit f \<noteq> 0"

definition setState :: "pidState \<Rightarrow> bool \<Rightarrow> u32 \<Rightarrow> u32" where
  "setState f enabled st = (if enabled then st OR state_bit f else st AND NOT (state_bit f))"

definition compareAndSwapState :: "pidState \<Rightarrow> bool \<Rightarrow> bool \<Rightarrow> u32 \<Rightarrow> bool \<times> u32" where
  "compareAndSwapState f prev new st =
     (if isStateSet f st \<noteq> prev then (False, st) else (True, setState f new st))"

lemma flag_index_inj [simp]: "flag_index f = flag_index g \<longleftrightarrow> f = g"
  by (cases f; cases g) auto

lemma flag_index_bound [simp]: "flag_index f < 32"
  by (cases f) auto

lemma bit_state_bit: "bit (state_bit f) n \<longleftrightarrow> n = flag_index f"
  by (auto simp: state_bit_def push_bit_eq_mult bit_exp_iff)

lemma isStateSet_bit: "isStateSet f st \<longleftrightarrow> bit st (flag_index f)"
proof -
  have "bit (st AND state_bit f) n \<longleftrightarrow> bit st n \<and> n = flag_index f" for n by (simp add: bit_and_iff bit_state_bit)
  then show ?thesis unfolding isStateSet_def by (metis bit_0_eq bot_apply bot_bool_def bit_eqI)
qed

text \<open>Setting a flag changes this flag and no other.\<close>

lemma isStateSet_setState [simp]: "isStateSet g (setState f b st) \<longleftrightarrow> (if g = f then b else isStateSet g st)"
  by (auto simp: isStateSet_bit setState_def bit_or_iff bit_and_iff bit_not_iff bit_state_bit)

lemma isStateSet_0 [simp]: "\<not> isStateSet f 0"
  by (simp add: isStateSet_def)

end
