(* ===== verification/Supervisor.thy ===== *)
theory Supervisor
  imports Go_Prelude
begin

section \<open>Supervisors\<close>

text \<open>
  \<^verbatim>\<open>supervisor/supervisor.go\<close>: which directive applies to which error. An error value is its dynamic
  type, \<^const>\<open>None\<close> for the nil error; the directives are keyed by the printed type with one pointer
  stripped. A \<open>SupervisorOption\<close> is a function on supervisors, as in the code; a call that would
  write to the nil map of a zero \<^verbatim>\<open>Supervisor\<close> panics, which is \<^const>\<open>None\<close>.
\<close>

datatype Strategy = OneForOneStrategy | OneForAllStrategy

datatype Directive = StopDirective | ResumeDirective | RestartDirective | EscalateDirective

fun Strategy_String :: "Strategy \<Rightarrow> string" where
  "Strategy_String OneForOneStrategy = ''OneForOne''"
| "Strategy_String OneForAllStrategy = ''OneForAll''"

fun Directive_String :: "Directive \<Rightarrow> string" where
  "Directive_String StopDirective = ''Stop''"
| "Directive_String ResumeDirective = ''Resume''"
| "Directive_String RestartDirective = ''Restart''"
| "Directive_String EscalateDirective = ''Escalate''"

datatype rtype = Named string | Pointer rtype

type_synonym go_error = "rtype option"

fun rtype_String :: "rtype \<Rightarrow> string" where
  "rtype_String (Named n) = n"
| "rtype_String (Pointer t) = ''*'' @ rtype_String t"

definition errorType :: "go_error \<Rightarrow> string" where
  "errorType e =
     (case e of
        None \<Rightarrow> ''nil''
      | Some t \<Rightarrow> rtype_String (case t of Pointer u \<Rightarrow> u | Named n \<Rightarrow> t))"

definition AnyError :: go_error where
  "AnyError = Some (Pointer (Named ''errors.AnyError''))"

definition PanicError :: go_error where
  "PanicError = Some (Pointer (Named ''errors.PanicError''))"

definition PanicNilError :: go_error where
  "PanicNilError = Some (Pointer (Named ''runtime.PanicNilError''))"

record Supervisor =
  sv_strategy :: Strategy
  sv_maxRetries :: u32
  sv_timeout :: int
  sv_directives :: "(string, Directive) gomap option"

type_synonym SupervisorOption = "Supervisor \<Rightarrow> Supervisor option"

definition set_directive :: "string \<Rightarrow> Directive \<Rightarrow> Supervisor \<Rightarrow> Supervisor option" where
  "set_directive t d s =
     (case sv_directives s of None \<Rightarrow> None | Some ds \<Rightarrow> Some (s\<lparr>sv_directives := Some (gset t d ds)\<rparr>))"

definition WithStrategy :: "Strategy \<Rightarrow> SupervisorOption" where
  "WithStrategy strategy s = Some (s\<lparr>sv_strategy := strategy\<rparr>)"

definition WithDirective :: "go_error \<Rightarrow> Directive \<Rightarrow> SupervisorOption" where
  "WithDirective err directive s = set_directive (errorType err) directive s"

definition WithRetry :: "u32 \<Rightarrow> int \<Rightarrow> SupervisorOption" where
  "WithRetry maxRetries timeout s = Some (s\<lparr>sv_maxRetries := maxRetries, sv_timeout := timeout\<rparr>)"

definition WithAnyErrorDirective :: "Directive \<Rightarrow> SupervisorOption" where
  "WithAnyErrorDirective directive s = set_directive (errorType AnyError) directive s"

fun apply_options :: "SupervisorOption list \<Rightarrow> Supervisor \<Rightarrow> Supervisor option" where
  "apply_options [] s = Some s"
| "apply_options (opt # opts) s = (case opt s of None \<Rightarrow> None | Some s1 \<Rightarrow> apply_options opts s1)"

definition default_Supervisor :: Supervisor where
  "default_Supervisor =
     \<lparr>sv_strategy = OneForOneStrategy, sv_maxRetries = 0, sv_timeout = -1,
      sv_directives = Some (gset (errorType PanicNilError) RestartDirective (gset (errorType PanicError) StopDirective []))\<rparr>"

definition NewSupervisor :: "SupervisorOption list \<Rightarrow> Supervisor option" where
  "NewSupervisor opts =
     (case apply_options opts default_Supervisor of
        None \<Rightarrow> None
      | Some s \<Rightarrow>
          (case sv_directives s of
             None \<Rightarrow> None
           | Some ds \<Rightarrow>
               (case map_of ds (errorType AnyError) of
                  None \<Rightarrow> Some s
                | Some directive \<Rightarrow> Some (s\<lparr>sv_directives := Some (gset (errorType AnyError) directive [])\<rparr>))))"

definition Directive_of :: "go_error \<Rightarrow> Supervisor \<Rightarrow> Directive option" where
  "Directive_of err s = (case sv_directives s of None \<Rightarrow> None | Some ds \<Rightarrow> map_of ds (errorType err))"

definition sv_Reset :: "Supervisor \<Rightarrow> Supervisor" where
  "sv_Reset s = s\<lparr>sv_strategy := OneForAllStrategy, sv_directives := Some []\<rparr>"

record DirectiveRule =
  dr_ErrorType :: string
  dr_Directive :: Directive

definition Rules :: "Supervisor \<Rightarrow> DirectiveRule list" where
  "Rules s =
     (case sv_directives s of
        None \<Rightarrow> []
      | Some ds \<Rightarrow> map (\<lambda>(t, d). \<lparr>dr_ErrorType = t, dr_Directive = d\<rparr>) ds)"

definition AnyErrorDirective :: "Supervisor \<Rightarrow> Directive option" where
  "AnyErrorDirective s = (case sv_directives s of None \<Rightarrow> None | Some ds \<Rightarrow> map_of ds (errorType AnyError))"

definition SetDirectiveByType :: "string \<Rightarrow> Directive \<Rightarrow> Supervisor \<Rightarrow> Supervisor" where
  "SetDirectiveByType t directive s =
     (if t = [] then s
      else s\<lparr>sv_directives := Some (gset t directive (case sv_directives s of None \<Rightarrow> [] | Some ds \<Rightarrow> ds))\<rparr>)"

subsection \<open>What the options configure\<close>

datatype sup_opt =
    OStrategy Strategy
  | ODirective go_error Directive
  | ORetry u32 int
  | OAny Directive

fun opt_fun :: "sup_opt \<Rightarrow> SupervisorOption" where
  "opt_fun (OStrategy st) = WithStrategy st"
| "opt_fun (ODirective e d) = WithDirective e d"
| "opt_fun (ORetry n t) = WithRetry n t"
| "opt_fun (OAny d) = WithAnyErrorDirective d"

text \<open>The directive the last option for an error type sets.\<close>

fun opt_directive :: "sup_opt \<Rightarrow> string \<Rightarrow> Directive option" where
  "opt_directive (ODirective e d) t = (if errorType e = t then Some d else None)"
| "opt_directive (OAny d) t = (if errorType AnyError = t then Some d else None)"
| "opt_directive _ t = None"

fun chosen :: "sup_opt list \<Rightarrow> string \<Rightarrow> Directive option" where
  "chosen [] t = None"
| "chosen (a # as) t = (case chosen as t of None \<Rightarrow> opt_directive a t | Some d \<Rightarrow> Some d)"

definition default_directive :: "string \<Rightarrow> Directive option" where
  "default_directive t =
     (if t = errorType PanicError then Some StopDirective
      else if t = errorType PanicNilError then Some RestartDirective else None)"

lemma errorType_consts:
  "errorType AnyError = ''errors.AnyError''" "errorType PanicError = ''errors.PanicError''"
  "errorType PanicNilError = ''runtime.PanicNilError''"
  by (simp_all add: errorType_def AnyError_def PanicError_def PanicNilError_def)

lemma apply_options_spec:
  "sv_directives s = Some ds \<Longrightarrow>
     \<exists>s' ds'. apply_options (map opt_fun os) s = Some s' \<and> sv_directives s' = Some ds' \<and>
       map_of ds' = (\<lambda>t. case chosen os t of None \<Rightarrow> map_of ds t | Some d \<Rightarrow> Some d)"
proof (induction os arbitrary: s ds)
  case (Cons a os)
  obtain s1 ds1 where s1: "opt_fun a s = Some s1" "sv_directives s1 = Some ds1"
      "map_of ds1 = (\<lambda>t. case opt_directive a t of None \<Rightarrow> map_of ds t | Some d \<Rightarrow> Some d)"
    using Cons.prems by (cases a)
      (auto simp: WithStrategy_def WithRetry_def WithDirective_def WithAnyErrorDirective_def set_directive_def fun_eq_iff)
  obtain s' ds' where "apply_options (map opt_fun os) s1 = Some s'" "sv_directives s' = Some ds'"
      "map_of ds' = (\<lambda>t. case chosen os t of None \<Rightarrow> map_of ds1 t | Some d \<Rightarrow> Some d)"
    using Cons.IH [OF s1(2)] by blast
  then show ?case using s1 by (auto simp: fun_eq_iff split: option.splits)
qed auto

lemma NewSupervisor_directives:
  "\<exists>s. NewSupervisor (map opt_fun os) = Some s \<and>
     (\<forall>e. Directive_of e s =
        (case chosen os (errorType AnyError) of
           Some d \<Rightarrow> if errorType e = errorType AnyError then Some d else None
         | None \<Rightarrow> (case chosen os (errorType e) of Some d \<Rightarrow> Some d | None \<Rightarrow> default_directive (errorType e))))"
proof -
  have "sv_directives default_Supervisor =
      Some (gset (errorType PanicNilError) RestartDirective (gset (errorType PanicError) StopDirective []))"
    by (simp add: default_Supervisor_def)
  from apply_options_spec [OF this, of os] obtain s ds where s: "apply_options (map opt_fun os) default_Supervisor = Some s"
      "sv_directives s = Some ds"
      "map_of ds = (\<lambda>t. case chosen os t of None \<Rightarrow> map_of (gset (errorType PanicNilError) RestartDirective (gset (errorType PanicError) StopDirective [])) t | Some d \<Rightarrow> Some d)"
    by blast
  have d: "map_of ds t = (case chosen os t of None \<Rightarrow> default_directive t | Some d \<Rightarrow> Some d)" for t
    unfolding s(3) by (auto simp: default_directive_def errorType_consts split: option.splits)
  have n: "default_directive (errorType AnyError) = None" by (simp add: default_directive_def errorType_consts)
  show ?thesis
  proof (cases "chosen os (errorType AnyError)")
    case None
    then show ?thesis using s(1,2) d n by (auto simp: NewSupervisor_def Directive_of_def)
  next
    case (Some dir)
    then show ?thesis using s(1,2) d by (auto simp: NewSupervisor_def Directive_of_def)
  qed
qed

end
