(* ===== verification/Supervision.thy ===== *)
theory Supervision
  imports Pid_Tree Pid_State Supervisor "HOL-Library.Sublist"
begin

section \<open>Failure handling of actors\<close>

text \<open>
  The supervision part of \<^verbatim>\<open>actor/pid.go\<close>: stopping, restarting, suspending and reinstating actors and
  the reaction to a failure. The world has the tree of actors, the mutable fields of every actor by
  its identifier, and the supervisors as shared objects: an actor holds a pointer to one, and several
  actors may hold the same. The user's hooks, the readiness probe, the cluster and the third-party
  retrier are parameters; the hooks see how often they ran before. The passivation manager, in-flight
  requests, metrics and logging do not influence this part and are left out. A call that does not
  return, because the tree of actors has a cycle, or that panics, is \<^const>\<open>None\<close>; the recursions
  through the tree take fuel.
\<close>

datatype passivation = NoPassivation | LongLived | Passivating

record actor =
  a_state :: u32
  a_sup :: nat
  a_behaviors :: "nat list"
  a_passivation :: passivation
  a_failures :: nat
  a_reinstates :: nat
  a_restarts :: nat
  a_disposed :: bool
  a_starts :: nat
  a_stops :: nat

datatype sys_event =
    ActorStarted string
  | ActorStopped string
  | ActorSuspended string
  | ActorReinstated string
  | ActorRestarted string
  | TerminatedMsg string string
  | PanicSignalMsg string string

record world =
  w_tree :: pid_tree
  w_actors :: "string \<Rightarrow> actor"
  w_sups :: "nat \<Rightarrow> Supervisor"
  w_default :: nat
  w_stopping :: bool
  w_count :: int
  w_events :: "sys_event list"

datatype sys_error = ErrShutdownForbidden | ErrPostStop string | ErrInitFailure string | ErrTree string | ErrCluster string | ErrHealth string

type_synonym run_result = "(sys_error option \<times> world) option"

record env =
  e_noSender :: apid
  e_deathWatch :: apid
  e_PreStart :: "string \<Rightarrow> nat \<Rightarrow> bool"
  e_PostStop :: "string \<Rightarrow> nat \<Rightarrow> bool"
  e_probe :: "string \<Rightarrow> nat \<Rightarrow> bool"
  e_cluster :: "string \<Rightarrow> bool"
  e_retry :: "u32 \<Rightarrow> int \<Rightarrow> (world \<Rightarrow> run_result) \<Rightarrow> world \<Rightarrow> run_result"

definition act :: "apid \<Rightarrow> world \<Rightarrow> actor" where
  "act p w = w_actors w (pid_id p)"

definition upd_act :: "apid \<Rightarrow> (actor \<Rightarrow> actor) \<Rightarrow> world \<Rightarrow> world" where
  "upd_act p f w = w\<lparr>w_actors := (w_actors w)(pid_id p := f (act p w))\<rparr>"

definition publish :: "sys_event \<Rightarrow> world \<Rightarrow> world" where
  "publish ev w = w\<lparr>w_events := w_events w @ [ev]\<rparr>"

definition p_set :: "pidState \<Rightarrow> bool \<Rightarrow> apid \<Rightarrow> world \<Rightarrow> world" where
  "p_set f b p w = upd_act p (\<lambda>a. a\<lparr>a_state := setState f b (a_state a)\<rparr>) w"

definition p_has :: "pidState \<Rightarrow> apid \<Rightarrow> world \<Rightarrow> bool" where
  "p_has f p w \<longleftrightarrow> isStateSet f (a_state (act p w))"

definition IsRunning :: "apid \<Rightarrow> world \<Rightarrow> bool" where
  "IsRunning p w \<longleftrightarrow>
     (let st = a_state (act p w) in
      isStateSet runningState st \<and> \<not> isStateSet stoppingState st \<and> \<not> isStateSet passivatingState st \<and> \<not> isStateSet suspendedState st)"

definition IsSuspended :: "apid \<Rightarrow> world \<Rightarrow> bool" where
  "IsSuspended p w \<longleftrightarrow> p_has suspendedState p w"

definition isSystemName :: "string \<Rightarrow> bool" where
  "isSystemName name \<longleftrightarrow> prefix ''GoAkt'' name"

subsection \<open>Suspending and reinstating\<close>

definition pausePassivation :: "apid \<Rightarrow> world \<Rightarrow> world" where
  "pausePassivation p w = (if a_passivation (act p w) = NoPassivation then w else p_set passivationPausedState True p w)"

definition resumePassivation :: "apid \<Rightarrow> world \<Rightarrow> world" where
  "resumePassivation p w =
     (if a_passivation (act p w) = NoPassivation then w
      else if p_has passivationPausedState p w then p_set passivationPausedState False p w else w)"

definition suspend :: "apid \<Rightarrow> world \<Rightarrow> world" where
  "suspend p w =
     publish (ActorSuspended (pid_id p))
       (pausePassivation p
         (upd_act p (\<lambda>a. a\<lparr>a_failures := a_failures a + 1\<rparr>) (p_set suspendedState True p w)))"

definition doReinstate :: "apid \<Rightarrow> world \<Rightarrow> world" where
  "doReinstate p w =
     (if IsRunning p w \<and> \<not> IsSuspended p w then w
      else publish (ActorReinstated (pid_id p))
             (resumePassivation p
               (p_set passivationSkipNextState True p
                 (upd_act p (\<lambda>a. a\<lparr>a_reinstates := a_reinstates a + 1\<rparr>) (p_set suspendedState False p w)))))"

subsection \<open>Stopping\<close>

definition reset_flags :: "u32 \<Rightarrow> u32" where
  "reset_flags st =
     fold (\<lambda>(f, b). setState f b)
       [(runningState, False), (stoppingState, False), (suspendedState, False), (singletonState, False), (relocationState, True),
        (passivationPausedState, False), (passivatingState, False), (passivationSkipNextState, False)] st"

definition p_reset :: "apid \<Rightarrow> world \<Rightarrow> world" where
  "p_reset p w =
     (let w1 = upd_act p (\<lambda>a. a\<lparr>a_state := reset_flags (a_state a), a_behaviors := [], a_failures := 0, a_reinstates := 0,
                                a_restarts := 0, a_disposed := True\<rparr>) w;
          s = a_sup (act p w)
      in if s = w_default w then w1 else w1\<lparr>w_sups := (w_sups w1)(s := sv_Reset (w_sups w1 s))\<rparr>)"

definition UnWatch :: "apid \<Rightarrow> apid \<Rightarrow> world \<Rightarrow> world" where
  "UnWatch p cid w = w\<lparr>w_tree := removeWatcher (Some cid) (Some p) (w_tree w)\<rparr>"

definition freeWatchees :: "apid \<Rightarrow> world \<Rightarrow> world" where
  "freeWatchees p w = fold (UnWatch p) (case watchees (Some p) (w_tree w) of None \<Rightarrow> [] | Some l \<Rightarrow> l) w"

definition freeWatchers :: "apid \<Rightarrow> world \<Rightarrow> world" where
  "freeWatchers p w =
     fold (\<lambda>wr v. if IsRunning wr v then UnWatch wr p (publish (TerminatedMsg (pid_id wr) (pid_id p)) v) else v)
       (case watchers (Some p) (w_tree w) of None \<Rightarrow> [] | Some l \<Rightarrow> l) w"

fun each :: "('a \<Rightarrow> world \<Rightarrow> run_result) \<Rightarrow> 'a list \<Rightarrow> world \<Rightarrow> run_result" where
  "each f [] w = Some (None, w)"
| "each f (x # xs) w =
     (case f x w of
        None \<Rightarrow> None
      | Some (e, w1) \<Rightarrow> (case each f xs w1 of None \<Rightarrow> None | Some (e2, w2) \<Rightarrow> Some (case e of None \<Rightarrow> e2 | Some _ \<Rightarrow> e, w2)))"

definition free_child :: "(apid \<Rightarrow> world \<Rightarrow> run_result) \<Rightarrow> apid \<Rightarrow> apid \<Rightarrow> world \<Rightarrow> run_result" where
  "free_child shut p child w =
     (let w1 = UnWatch p child w;
          w2 = w1\<lparr>w_tree := removeDescendant (pid_id p) (pid_id child) (w_tree w1)\<rparr>
      in if IsSuspended child w2 \<or> IsRunning child w2 then shut child w2 else Some (None, w2))"

definition freeChildren :: "(apid \<Rightarrow> world \<Rightarrow> run_result) \<Rightarrow> apid \<Rightarrow> world \<Rightarrow> run_result" where
  "freeChildren shut p w =
     (case node (pid_id p) (w_tree w) of
        None \<Rightarrow> Some (None, w)
      | Some _ \<Rightarrow> each (free_child shut p) (case children (Some p) (w_tree w) of None \<Rightarrow> [] | Some cs \<Rightarrow> cs) w)"

definition stopped :: "apid \<Rightarrow> world \<Rightarrow> world" where
  "stopped p w = p_reset p (p_set runningState False p w)"

definition doStop :: "(apid \<Rightarrow> world \<Rightarrow> run_result) \<Rightarrow> env \<Rightarrow> apid \<Rightarrow> world \<Rightarrow> run_result" where
  "doStop shut env p w =
     (case freeChildren shut p (freeWatchees p w) of
        None \<Rightarrow> None
      | Some (Some e, w1) \<Rightarrow> Some (Some e, stopped p w1)
      | Some (None, w1) \<Rightarrow>
          let w2 = upd_act p (\<lambda>a. a\<lparr>a_stops := a_stops a + 1\<rparr>) w1
          in if e_PostStop env (pid_id p) (a_stops (act p w1))
             then Some (None, stopped p (freeWatchers p w2))
             else Some (Some (ErrPostStop (pid_id p)), stopped p w2))"

primrec Shutdown :: "nat \<Rightarrow> env \<Rightarrow> apid \<Rightarrow> world \<Rightarrow> run_result" where
  "Shutdown 0 env p w = None"
| "Shutdown (Suc n) env p w =
     (if \<not> w_stopping w \<and> isSystemName (pid_name p) then Some (Some ErrShutdownForbidden, w)
      else if \<not> p_has runningState p w then Some (None, w)
      else (case doStop (Shutdown n env) env p (p_set stoppingState True p w) of
              None \<Rightarrow> None
            | Some (Some e, w1) \<Rightarrow> Some (Some e, w1)
            | Some (None, w1) \<Rightarrow> Some (None, publish (ActorStopped (pid_id p)) w1)))"

subsection \<open>Restarting\<close>

datatype restartNode = RNode apid "restartNode list"

fun rn_build :: "nat \<Rightarrow> apid \<Rightarrow> apid \<Rightarrow> apid list \<Rightarrow> pid_tree \<Rightarrow> restartNode" where
  "rn_build 0 root p ns x = RNode p []"
| "rn_build (Suc k) root p ns x =
     RNode p (map (\<lambda>c. rn_build k root c ns x)
       (filter (\<lambda>c. case tree_parent (Some c) x of
            None \<Rightarrow> False
          | Some par \<Rightarrow> if pid_Equals (Some par) (Some root) then p = root else p \<noteq> root \<and> pid_id par = pid_id p) ns))"

definition buildRestartSubtree :: "apid \<Rightarrow> world \<Rightarrow> restartNode option" where
  "buildRestartSubtree root w =
     (case descendants (Some root) (w_tree w) of
        None \<Rightarrow> None
      | Some ds \<Rightarrow>
          let ns = filter (\<lambda>d. IsRunning d w \<or> IsSuspended d w) (case ds of None \<Rightarrow> [] | Some l \<Rightarrow> l)
          in Some (rn_build (Suc (length ns)) root root ns (w_tree w)))"

definition p_init :: "env \<Rightarrow> apid \<Rightarrow> world \<Rightarrow> sys_error option \<times> world" where
  "p_init env p w =
     (let w1 = upd_act p (\<lambda>a. a\<lparr>a_starts := a_starts a + 1\<rparr>) w
      in if e_PreStart env (pid_id p) (a_starts (act p w))
         then (None, publish (ActorStarted (pid_id p)) (p_set runningState True p w1))
         else (Some (ErrInitFailure (pid_id p)), w1))"

definition resetBehavior :: "apid \<Rightarrow> world \<Rightarrow> world" where
  "resetBehavior p w = upd_act p (\<lambda>a. a\<lparr>a_behaviors := 0 # a_behaviors a\<rparr>) w"

definition restart_stop :: "nat \<Rightarrow> env \<Rightarrow> apid \<Rightarrow> world \<Rightarrow> (sys_error option \<times> bool \<times> world) option" where
  "restart_stop n env p w =
     (if IsRunning p w
      then map_option (\<lambda>(e, w1). (e, e = None, w1)) (Shutdown n env p w)
      else Some (None, False, w))"

definition restart_attach :: "env \<Rightarrow> apid \<Rightarrow> apid \<Rightarrow> world \<Rightarrow> run_result" where
  "restart_attach env parent p w =
     (case addOrAttachNode (Some (e_noSender env)) (Some parent) (Some p) (w_tree w) of
        TPanic \<Rightarrow> None
      | TFailed e x \<Rightarrow> Some (Some (ErrTree e), w\<lparr>w_tree := x\<rparr>)
      | TDone x \<Rightarrow>
          (case addWatcher (Some (e_noSender env)) (Some p) (Some (e_deathWatch env)) x of
             TPanic \<Rightarrow> None
           | TFailed e y \<Rightarrow> Some (Some (ErrTree e), w\<lparr>w_tree := y\<rparr>)
           | TDone y \<Rightarrow>
               Some (if e_cluster env (pid_id p) then None else Some (ErrCluster (pid_id p)), w\<lparr>w_tree := y\<rparr>)))"

definition restart_finish :: "nat \<Rightarrow> env \<Rightarrow> apid \<Rightarrow> bool \<Rightarrow> world \<Rightarrow> run_result" where
  "restart_finish n env p counted w =
     (let w1 = p_set suspendedState False p w in
      if \<not> p_has systemState p w1 \<and> \<not> e_probe env (pid_id p) (a_starts (act p w1))
      then map_option (\<lambda>(e, w2). (Some (ErrHealth (pid_id p)), w2)) (Shutdown n env p w1)
      else let w2 = publish (ActorRestarted (pid_id p)) (upd_act p (\<lambda>a. a\<lparr>a_restarts := a_restarts a + 1\<rparr>) w1)
           in Some (None, if \<not> p_has systemState p w2 \<and> counted then w2\<lparr>w_count := w_count w2 + 1\<rparr> else w2))"

fun restartSubtree :: "nat \<Rightarrow> env \<Rightarrow> apid \<Rightarrow> restartNode \<Rightarrow> world \<Rightarrow> run_result"
  and restartChildren :: "nat \<Rightarrow> env \<Rightarrow> apid \<Rightarrow> restartNode list \<Rightarrow> world \<Rightarrow> run_result" where
  "restartSubtree n env parent (RNode p cs) w =
     (let wasInTree = (node (pid_id p) (w_tree w) \<noteq> None) in
      case restart_stop n env p w of
        None \<Rightarrow> None
      | Some (Some e, _, w1) \<Rightarrow> Some (Some e, w1)
      | Some (None, didShutdown, w1) \<Rightarrow>
          (case p_init env p (resetBehavior p w1) of
             (Some e, w2) \<Rightarrow> Some (Some e, w2)
           | (None, w2) \<Rightarrow>
               (case restart_attach env parent p w2 of
                  None \<Rightarrow> None
                | Some (Some e, w3) \<Rightarrow> Some (Some e, w3)
                | Some (None, w3) \<Rightarrow>
                    (case restartChildren n env p cs w3 of
                       None \<Rightarrow> None
                     | Some (Some e, w4) \<Rightarrow> Some (Some e, p_set runningState False p (p_set stoppingState True p w4))
                     | Some (None, w4) \<Rightarrow> restart_finish n env p (didShutdown \<or> \<not> wasInTree) w4))))"
| "restartChildren n env parent [] w = Some (None, w)"
| "restartChildren n env parent (c # cs) w =
     (case restartSubtree n env parent c w of
        None \<Rightarrow> None
      | Some (e, w1) \<Rightarrow>
          (case restartChildren n env parent cs w1 of
             None \<Rightarrow> None
           | Some (e2, w2) \<Rightarrow> Some (case e of None \<Rightarrow> e2 | Some _ \<Rightarrow> e, w2)))"

definition Restart :: "nat \<Rightarrow> env \<Rightarrow> apid \<Rightarrow> world \<Rightarrow> run_result" where
  "Restart n env p w =
     (case buildRestartSubtree p w of
        None \<Rightarrow> None
      | Some t \<Rightarrow>
          restartSubtree n env (case tree_parent (Some p) (w_tree w) of None \<Rightarrow> e_noSender env | Some par \<Rightarrow> par) t w)"

subsection \<open>Reacting to a failure\<close>

text \<open>
  A failing actor looks up the directive of its supervisor and tells its parent; the parent applies
  it. \<open>dead\<close> says whether the error is \<^verbatim>\<open>ErrDead\<close>.
\<close>

record panicking =
  pk_Address :: string
  pk_Strategy :: Strategy
  pk_Directive :: Directive
  pk_Supervisor :: nat

definition notifyParent :: "env \<Rightarrow> apid \<Rightarrow> bool \<Rightarrow> go_error \<Rightarrow> world \<Rightarrow> panicking option \<times> world" where
  "notifyParent env p dead err w =
     (if dead then (None, w)
      else
        let s = w_sups w (a_sup (act p w)) in
        case (case Directive_of err s of None \<Rightarrow> Directive_of AnyError s | Some d \<Rightarrow> Some d) of
          None \<Rightarrow> (None, suspend p w)
        | Some directive \<Rightarrow>
            (case tree_parent (Some p) (w_tree w) of
               None \<Rightarrow> (None, suspend p w)
             | Some parent \<Rightarrow>
                 if pid_Equals (Some parent) (Some (e_noSender env)) then (None, suspend p w)
                 else if directive = ResumeDirective
                 then (None, let w1 = p_set passivationSkipNextState True p w in if IsSuspended p w1 then doReinstate p w1 else w1)
                 else (Some \<lparr>pk_Address = pid_id p, pk_Strategy = sv_strategy s, pk_Directive = directive, pk_Supervisor = a_sup (act p w)\<rparr>,
                       suspend p w)))"

definition group :: "apid \<Rightarrow> bool \<Rightarrow> world \<Rightarrow> apid list" where
  "group cid includeSiblings w =
     cid # (if includeSiblings then (case siblings (Some cid) (w_tree w) of None \<Rightarrow> [] | Some l \<Rightarrow> l) else [])"

definition stop_one :: "nat \<Rightarrow> env \<Rightarrow> apid \<Rightarrow> world \<Rightarrow> run_result" where
  "stop_one n env spid w =
     (case Shutdown n env spid w of
        None \<Rightarrow> None
      | Some (Some e, w1) \<Rightarrow> Some (None, suspend spid w1)
      | Some (None, w1) \<Rightarrow> map_option (\<lambda>x. (None, w1\<lparr>w_tree := x\<rparr>)) (deleteNode (Some (e_noSender env)) (Some spid) (w_tree w1)))"

definition handleStopDirective :: "nat \<Rightarrow> env \<Rightarrow> apid \<Rightarrow> bool \<Rightarrow> world \<Rightarrow> run_result" where
  "handleStopDirective n env cid includeSiblings w = each (stop_one n env) (group cid includeSiblings w) w"

definition restart_one :: "nat \<Rightarrow> env \<Rightarrow> apid \<Rightarrow> apid \<Rightarrow> u32 \<Rightarrow> int \<Rightarrow> apid \<Rightarrow> world \<Rightarrow> run_result" where
  "restart_one n env p cid maxRetries timeout spid w =
     (case (if maxRetries = 0 \<or> timeout \<le> 0 then Restart n env spid (UnWatch p spid w)
            else e_retry env maxRetries timeout (Restart n env cid) (UnWatch p spid w)) of
        None \<Rightarrow> None
      | Some (None, w1) \<Rightarrow> Some (None, w1)
      | Some (Some _, w1) \<Rightarrow>
          (case Shutdown n env spid w1 of
             None \<Rightarrow> None
           | Some (None, w2) \<Rightarrow> Some (None, w2)
           | Some (Some e, w2) \<Rightarrow> Some (None, suspend spid w2)))"

definition handleRestartDirective :: "nat \<Rightarrow> env \<Rightarrow> apid \<Rightarrow> apid \<Rightarrow> u32 \<Rightarrow> int \<Rightarrow> bool \<Rightarrow> world \<Rightarrow> run_result" where
  "handleRestartDirective n env p cid maxRetries timeout includeSiblings w =
     each (restart_one n env p cid maxRetries timeout) (group cid includeSiblings w) w"

definition handlePanicking :: "nat \<Rightarrow> env \<Rightarrow> apid \<Rightarrow> apid \<Rightarrow> panicking \<Rightarrow> world \<Rightarrow> run_result" where
  "handlePanicking n env p cid msg w =
     (if pid_id cid \<noteq> pk_Address msg then Some (None, w)
      else
        let includeSiblings = (pk_Strategy msg = OneForAllStrategy) in
        case pk_Directive msg of
          StopDirective \<Rightarrow> handleStopDirective n env cid includeSiblings w
        | RestartDirective \<Rightarrow>
            handleRestartDirective n env p cid (sv_maxRetries (w_sups w (pk_Supervisor msg)))
              (sv_timeout (w_sups w (pk_Supervisor msg))) includeSiblings w
        | ResumeDirective \<Rightarrow> Some (None, doReinstate cid w)
        | EscalateDirective \<Rightarrow> Some (None, publish (PanicSignalMsg (pid_id cid) (pid_id p)) w))"

subsection \<open>An actor without children\<close>

definition leaf :: "env \<Rightarrow> apid \<Rightarrow> apid \<Rightarrow> pid_tree \<Rightarrow> bool" where
  "leaf env parent p x \<longleftrightarrow> tree_ok x \<and> \<not> pid_Equals (Some parent) (Some (e_noSender env)) \<and> \<not> is_noSender p x \<and>
     (\<exists>a pa. map_of (pids x) (pid_id p) = Some a \<and> map_of (pids x) (pid_id parent) = Some pa \<and>
        n_parent (heap x a) = Some pa \<and> n_pid (heap x pa) = Some parent \<and> n_descendants (heap x a) = [])"

lemma removeWatcher_fields:
  "pids (removeWatcher c p x) = pids x" "noSender (removeWatcher c p x) = noSender x"
  "n_parent (heap (removeWatcher c p x) a) = n_parent (heap x a)" "n_pid (heap (removeWatcher c p x) a) = n_pid (heap x a)"
  "n_descendants (heap (removeWatcher c p x) a) = n_descendants (heap x a)"
  by (simp_all add: removeWatcher_def Let_def split: option.split)

lemma leaf_unwatch: "leaf env parent p x \<Longrightarrow> leaf env parent p (removeWatcher c q x)"
  using tree_ok_removeWatcher(1) [of x c q] by (auto simp: leaf_def removeWatcher_fields is_noSender_def)

lemma leaf_parent: "leaf env parent p x \<Longrightarrow> tree_parent (Some p) x = Some parent"
  by (auto simp: leaf_def tree_parent_def)

lemma leaf_node: "leaf env parent p x \<Longrightarrow> node (pid_id p) x \<noteq> None"
  by (auto simp: leaf_def node_def)

lemma leaf_children: "leaf env parent p x \<Longrightarrow> children (Some p) x = Some []"
  by (auto simp: leaf_def children_def live_pids_def)

lemma leaf_build: "leaf env parent p (w_tree w) \<Longrightarrow> buildRestartSubtree p w = Some (RNode p [])"
  by (auto simp: leaf_def buildRestartSubtree_def descendants_def)

lemma addWatcher_fields:
  assumes "addWatcher ns c q x = TDone y"
  shows "pids y = pids x" "noSender y = noSender x" "n_parent (heap y a) = n_parent (heap x a)" "n_pid (heap y a) = n_pid (heap x a)"
    "n_descendants (heap y a) = n_descendants (heap x a)"
  using assms by (auto simp: addWatcher_def Let_def split: option.splits if_splits)

lemma attach_fields:
  assumes "attachNodeLocked ns (Some parent) (Some p) x = TDone y" "map_of (pids x) (pid_id parent) = Some pa"
    "map_of (pids x) (pid_id p) = Some a" "n_parent (heap x a) = Some pa"
  shows "pids y = pids x" "noSender y = noSender x" "n_parent (heap y b) = n_parent (heap x b)" "n_pid (heap y b) = n_pid (heap x b)"
    "b \<noteq> pa \<Longrightarrow> n_descendants (heap y b) = n_descendants (heap x b)"
  using assms by (auto simp: attachNodeLocked_def Let_def split: option.splits if_splits)

lemma leaf_attach:
  assumes leaf: "leaf env parent p (w_tree w)" and cl: "e_cluster env (pid_id p)"
  shows "\<exists>y. restart_attach env parent p w = Some (None, w\<lparr>w_tree := y\<rparr>) \<and> leaf env parent p y"
proof -
  obtain a pa where a: "tree_ok (w_tree w)" "map_of (pids (w_tree w)) (pid_id p) = Some a"
      "map_of (pids (w_tree w)) (pid_id parent) = Some pa" "n_parent (heap (w_tree w) a) = Some pa"
      "\<not> pid_Equals (Some parent) (Some (e_noSender env))"
      and l: "n_pid (heap (w_tree w) pa) = Some parent" "n_descendants (heap (w_tree w) a) = []" "\<not> is_noSender p (w_tree w)"
    using leaf by (auto simp: leaf_def)
  have ne: "a \<noteq> pa" using node_okD(10) [OF tree_okD(4) [OF a(1,2)] a(4)] by simp
  obtain x where x: "attachNodeLocked (Some (e_noSender env)) (Some parent) (Some p) (w_tree w) = TDone x" "tree_ok x"
    using tree_ok_attach [OF a(1,3,2,4,5)] by blast
  then have ax: "addOrAttachNode (Some (e_noSender env)) (Some parent) (Some p) (w_tree w) = TDone x"
    using a(2,5) by (auto simp: addOrAttachNode_def)
  obtain y where y: "addWatcher (Some (e_noSender env)) (Some p) (Some (e_deathWatch env)) x = TDone y" "tree_ok y"
    using tree_ok_addWatcher [OF x(2)] by blast
  have "leaf env parent p y"
    using y(2) a l ne addWatcher_fields [OF y(1)] attach_fields [OF x(1) a(3,2,4)] by (auto simp: leaf_def is_noSender_def)
  then show ?thesis using ax y(1) cl by (auto simp: restart_attach_def)
qed

lemma act_upd [simp]:
  "act q (upd_act p f w) = (if pid_id q = pid_id p then f (act p w) else act q w)"
  "w_tree (upd_act p f w) = w_tree w" "w_sups (upd_act p f w) = w_sups w" "w_default (upd_act p f w) = w_default w"
  "w_stopping (upd_act p f w) = w_stopping w" "w_count (upd_act p f w) = w_count w"
  by (simp_all add: upd_act_def act_def)

lemma publish_simps [simp]:
  "act q (publish ev w) = act q w" "w_tree (publish ev w) = w_tree w" "w_sups (publish ev w) = w_sups w"
  "w_default (publish ev w) = w_default w" "w_stopping (publish ev w) = w_stopping w" "w_count (publish ev w) = w_count w"
  by (simp_all add: publish_def act_def)

lemma p_set_simps [simp]:
  "act q (p_set f b p w) = (if pid_id q = pid_id p then (act p w)\<lparr>a_state := setState f b (a_state (act p w))\<rparr> else act q w)"
  "w_tree (p_set f b p w) = w_tree w" "w_sups (p_set f b p w) = w_sups w" "w_default (p_set f b p w) = w_default w"
  "w_stopping (p_set f b p w) = w_stopping w" "w_count (p_set f b p w) = w_count w"
  by (simp_all add: p_set_def)

lemma act_tree [simp]: "act q (w\<lparr>w_tree := x\<rparr>) = act q w" "act q (w\<lparr>w_count := c\<rparr>) = act q w" "act q (w\<lparr>w_sups := ss\<rparr>) = act q w"
  by (simp_all add: act_def)

lemma suspend_simps:
  "w_tree (suspend p w) = w_tree w" "w_sups (suspend p w) = w_sups w" "w_default (suspend p w) = w_default w"
  "w_stopping (suspend p w) = w_stopping w" "w_count (suspend p w) = w_count w"
  "pid_id q \<noteq> pid_id p \<Longrightarrow> act q (suspend p w) = act q w"
  by (simp_all add: suspend_def pausePassivation_def)

lemma suspend_act:
  "a_sup (act p (suspend p w)) = a_sup (act p w)" "a_restarts (act p (suspend p w)) = a_restarts (act p w)"
  "a_starts (act p (suspend p w)) = a_starts (act p w)" "a_failures (act p (suspend p w)) = a_failures (act p w) + 1"
  "p_has suspendedState p (suspend p w)" "\<not> IsRunning p (suspend p w)"
  "f \<noteq> suspendedState \<Longrightarrow> f \<noteq> passivationPausedState \<Longrightarrow> p_has f p (suspend p w) = p_has f p w"
  by (auto simp: suspend_def pausePassivation_def p_has_def IsRunning_def Let_def)

text \<open>The restart of an actor that is not running: the hooks run, the flags and the counter change, nothing else.\<close>

definition up_again :: "env \<Rightarrow> apid \<Rightarrow> apid \<Rightarrow> world \<Rightarrow> world \<Rightarrow> bool" where
  "up_again env parent p w w' \<longleftrightarrow> leaf env parent p (w_tree w') \<and> a_starts (act p w') = Suc (a_starts (act p w)) \<and> IsRunning p w' \<and> \<not> IsSuspended p w' \<and> a_restarts (act p w') = a_restarts (act p w) + 1 \<and>
     a_sup (act p w') = a_sup (act p w) \<and> w_sups w' = w_sups w \<and> w_default w' = w_default w \<and>
     (\<forall>q. pid_id q \<noteq> pid_id p \<longrightarrow> act q w' = act q w)"

definition restart_leaf :: "nat \<Rightarrow> env \<Rightarrow> apid \<Rightarrow> apid \<Rightarrow> bool \<Rightarrow> world \<Rightarrow> run_result" where
  "restart_leaf n env parent p counted w =
     (case p_init env p (resetBehavior p w) of
        (Some e, w2) \<Rightarrow> Some (Some e, w2)
      | (None, w2) \<Rightarrow>
          (case restart_attach env parent p w2 of
             None \<Rightarrow> None
           | Some (Some e, w3) \<Rightarrow> Some (Some e, w3)
           | Some (None, w3) \<Rightarrow> restart_finish n env p counted w3))"

lemma restartSubtree_leaf:
  "restartSubtree n env parent (RNode p []) w =
     (case restart_stop n env p w of
        None \<Rightarrow> None
      | Some (Some e, _, w1) \<Rightarrow> Some (Some e, w1)
      | Some (None, d, w1) \<Rightarrow> restart_leaf n env parent p (d \<or> \<not> node (pid_id p) (w_tree w) \<noteq> None) w1)"
  by (simp add: restart_leaf_def Let_def split: option.split prod.split)

lemma restart_leaf_up:
  assumes leaf: "leaf env parent p (w_tree w)" and down: "\<not> p_has stoppingState p w" "\<not> p_has passivatingState p w"
    and hooks: "e_PreStart env (pid_id p) (a_starts (act p w))" "e_cluster env (pid_id p)"
      "e_probe env (pid_id p) (Suc (a_starts (act p w)))"
  shows "\<exists>w'. restart_leaf n env parent p counted w = Some (None, w') \<and> up_again env parent p w w'"
proof -
  define w2 where "w2 = snd (p_init env p (resetBehavior p w))"
  have i: "p_init env p (resetBehavior p w) = (None, w2)" using hooks(1) by (simp add: w2_def p_init_def resetBehavior_def)
  have w2: "w_tree w2 = w_tree w" "w_sups w2 = w_sups w" "w_default w2 = w_default w"
      "a_state (act p w2) = setState runningState True (a_state (act p w))" "a_restarts (act p w2) = a_restarts (act p w)"
      "a_sup (act p w2) = a_sup (act p w)" "a_starts (act p w2) = Suc (a_starts (act p w))"
    and frame: "\<And>q. pid_id q \<noteq> pid_id p \<Longrightarrow> act q w2 = act q w"
    using hooks(1) by (simp_all add: w2_def p_init_def resetBehavior_def)
  obtain y where y: "restart_attach env parent p w2 = Some (None, w2\<lparr>w_tree := y\<rparr>)" "leaf env parent p y"
    using leaf_attach [of env parent p w2] leaf hooks(2) w2(1) by auto
  define w4 where "w4 = w2\<lparr>w_tree := y\<rparr>"
  have eq: "restart_leaf n env parent p counted w = restart_finish n env p counted w4"
    by (simp add: restart_leaf_def i y(1) w4_def)
  show ?thesis unfolding eq
    using down hooks(3) w2 frame y(2) by (auto simp: w4_def restart_finish_def up_again_def IsRunning_def IsSuspended_def p_has_def Let_def)
qed

lemma Restart_leaf: "leaf env parent p (w_tree w) \<Longrightarrow> Restart n env p w = restartSubtree n env parent (RNode p []) w"
  by (simp add: Restart_def leaf_build leaf_parent)

lemma UnWatch_simps [simp]:
  "act q (UnWatch a b w) = act q w" "w_sups (UnWatch a b w) = w_sups w" "w_default (UnWatch a b w) = w_default w"
  "w_stopping (UnWatch a b w) = w_stopping w" "IsRunning q (UnWatch a b w) = IsRunning q w" "p_has f q (UnWatch a b w) = p_has f q w"
  by (simp_all add: UnWatch_def IsRunning_def p_has_def)

lemma leaf_UnWatch: "leaf env parent p (w_tree w) \<Longrightarrow> leaf env parent p (w_tree (UnWatch a b w))"
  by (simp add: UnWatch_def leaf_unwatch)

definition effective :: "go_error \<Rightarrow> Supervisor \<Rightarrow> Directive option" where
  "effective err s = (case Directive_of err s of None \<Rightarrow> Directive_of AnyError s | Some d \<Rightarrow> Some d)"

lemma effective_options:
  assumes "NewSupervisor (map opt_fun os) = Some s"
  shows "effective err s =
    (case chosen os (errorType AnyError) of
       Some d \<Rightarrow> Some d
     | None \<Rightarrow> (case chosen os (errorType err) of Some d \<Rightarrow> Some d | None \<Rightarrow> default_directive (errorType err)))"
proof -
  have "default_directive (errorType AnyError) = None" by (simp add: default_directive_def errorType_consts)
  then show ?thesis
    using NewSupervisor_directives [of os] assms by (auto simp: effective_def split: option.splits if_splits)
qed

text \<open>
  C8. What a failure does, for every list of supervisor options: a directive for any error wins over
  all others, otherwise the last one for the type of the error counts, otherwise the default (stop on
  a panic, restart on a nil panic). Without one the actor is suspended and nobody is told. To resume
  leaves a running actor running. Every other directive suspends the actor, counts the failure and is
  passed to the parent with the strategy.
\<close>

theorem failure_decision:
  assumes "NewSupervisor (map opt_fun os) = Some s" "w_sups w (a_sup (act p w)) = s"
    and "tree_parent (Some p) (w_tree w) = Some parent" "\<not> pid_Equals (Some parent) (Some (e_noSender env))"
  shows "case (case chosen os (errorType AnyError) of
       Some d \<Rightarrow> Some d
     | None \<Rightarrow> (case chosen os (errorType err) of Some d \<Rightarrow> Some d | None \<Rightarrow> default_directive (errorType err))) of
      None \<Rightarrow> notifyParent env p False err w = (None, suspend p w) \<and> \<not> IsRunning p (suspend p w)
    | Some ResumeDirective \<Rightarrow>
        (\<exists>w'. notifyParent env p False err w = (None, w') \<and> \<not> IsSuspended p w' \<and> (IsRunning p w \<longrightarrow> IsRunning p w'))
    | Some d \<Rightarrow>
        (\<exists>msg w'. notifyParent env p False err w = (Some msg, w') \<and> pk_Address msg = pid_id p \<and> pk_Directive msg = d \<and>
           pk_Strategy msg = sv_strategy s \<and> IsSuspended p w' \<and> \<not> IsRunning p w' \<and> a_failures (act p w') = a_failures (act p w) + 1)"
proof -
  note eff = effective_options [OF assms(1), of err, symmetric]
  have resume: "\<exists>w'. notifyParent env p False err w = (None, w') \<and> \<not> IsSuspended p w' \<and> (IsRunning p w \<longrightarrow> IsRunning p w')"
    if "effective err s = Some ResumeDirective"
    using that assms by (auto simp: notifyParent_def effective_def Let_def doReinstate_def resumePassivation_def IsSuspended_def IsRunning_def p_has_def)
  have "\<exists>msg w'. notifyParent env p False err w = (Some msg, w') \<and> pk_Address msg = pid_id p \<and> pk_Directive msg = d \<and>
      pk_Strategy msg = sv_strategy s \<and> IsSuspended p w' \<and> \<not> IsRunning p w' \<and> a_failures (act p w') = a_failures (act p w) + 1"
    if "effective err s = Some d" "d \<noteq> ResumeDirective" for d
    using that assms by (auto simp: notifyParent_def effective_def Let_def suspend_act IsSuspended_def)
  moreover have "notifyParent env p False err w = (None, suspend p w)" if "effective err s = None"
    using that assms by (simp add: notifyParent_def effective_def Let_def)
  ultimately show ?thesis unfolding eff using resume suspend_act(6) by (auto split: option.splits Directive.splits)
qed

lemma notify_directive:
  assumes "leaf env parent p (w_tree w)" "effective err (w_sups w (a_sup (act p w))) = Some d" "d \<noteq> ResumeDirective"
  shows "notifyParent env p False err w =
    (Some \<lparr>pk_Address = pid_id p, pk_Strategy = sv_strategy (w_sups w (a_sup (act p w))), pk_Directive = d, pk_Supervisor = a_sup (act p w)\<rparr>,
     suspend p w)"
  using assms leaf_parent [OF assms(1)] by (auto simp: notifyParent_def effective_def leaf_def Let_def)


subsection \<open>Restarting a running actor\<close>

definition tree_only :: "env \<Rightarrow> apid \<Rightarrow> apid \<Rightarrow> world \<Rightarrow> world \<Rightarrow> bool" where
  "tree_only env parent p w w' \<longleftrightarrow> leaf env parent p (w_tree w') \<and> w_actors w' = w_actors w \<and> w_sups w' = w_sups w \<and> w_default w' = w_default w"

lemma fold_tree_only:
  assumes "\<And>x v. f x v = v \<or> (\<exists>a b ev. f x v = UnWatch a b v \<or> f x v = UnWatch a b (publish ev v))" "leaf env parent p (w_tree w)"
  shows "tree_only env parent p w (fold f xs w)"
  using assms(2)
proof (induction xs arbitrary: w)
  case (Cons x xs)
  have "tree_only env parent p w (f x w)"
    using assms(1) [of x w] Cons.prems leaf_unwatch by (auto simp: tree_only_def UnWatch_def publish_def)
  with Cons.IH [of "f x w"] show ?case by (simp add: tree_only_def)
qed (simp add: tree_only_def)

lemma freeWatchees_tree_only: "leaf env parent p (w_tree w) \<Longrightarrow> tree_only env parent p w (freeWatchees p w)"
  unfolding freeWatchees_def by (rule fold_tree_only) blast+

lemma freeWatchers_tree_only: "leaf env parent p (w_tree w) \<Longrightarrow> tree_only env parent p w (freeWatchers p w)"
  unfolding freeWatchers_def by (rule fold_tree_only) auto

lemma isStateSet_reset_flags [simp]:
  "isStateSet f (reset_flags st) \<longleftrightarrow> (f = relocationState \<or> f \<in> {systemState, remoteState} \<and> isStateSet f st)"
  by (cases f) (auto simp: reset_flags_def)

definition reset_sups :: "apid \<Rightarrow> world \<Rightarrow> nat \<Rightarrow> Supervisor" where
  "reset_sups p w =
     (let s = a_sup (act p w) in if s = w_default w then w_sups w else (w_sups w)(s := sv_Reset (w_sups w s)))"

lemma Shutdown_leaf:
  assumes leaf: "leaf env parent p (w_tree w)" and run: "IsRunning p w" and name: "\<not> isSystemName (pid_name p)"
    and hook: "e_PostStop env (pid_id p) (a_stops (act p w))"
  shows "\<exists>w'. Shutdown (Suc n) env p w = Some (None, w') \<and> leaf env parent p (w_tree w') \<and>
    \<not> p_has runningState p w' \<and> \<not> p_has stoppingState p w' \<and> \<not> p_has passivatingState p w' \<and>
    a_restarts (act p w') = 0 \<and> a_starts (act p w') = a_starts (act p w) \<and> a_sup (act p w') = a_sup (act p w) \<and>
    w_sups w' = reset_sups p w \<and> (\<forall>q. pid_id q \<noteq> pid_id p \<longrightarrow> act q w' = act q w)"
proof -
  let ?w0 = "p_set stoppingState True p w"
  define w1 where "w1 = freeWatchees p ?w0"
  have w1: "leaf env parent p (w_tree w1)" "w_actors w1 = w_actors ?w0" "w_sups w1 = w_sups w" "w_default w1 = w_default w"
    using freeWatchees_tree_only [of env parent p ?w0] leaf by (simp_all add: w1_def tree_only_def)
  have fc: "freeChildren (Shutdown n env) p w1 = Some (None, w1)"
    using leaf_children [OF w1(1)] by (simp add: freeChildren_def split: option.split)
  define w2 where "w2 = upd_act p (\<lambda>a. a\<lparr>a_stops := a_stops a + 1\<rparr>) w1"
  define w3 where "w3 = freeWatchers p w2"
  have a1: "act p w1 = (act p w)\<lparr>a_state := setState stoppingState True (a_state (act p w))\<rparr>" using w1(2) by (simp add: act_def p_set_def upd_act_def)
  have w3: "leaf env parent p (w_tree w3)" "w_actors w3 = w_actors w2" "w_sups w3 = w_sups w2" "w_default w3 = w_default w2"
    using freeWatchers_tree_only [of env parent p w2] w1(1) by (simp_all add: w3_def w2_def tree_only_def)
  have a3: "act p w3 = (act p w1)\<lparr>a_stops := a_stops (act p w1) + 1\<rparr>" using w3(2) by (simp add: act_def w2_def upd_act_def)
  have d: "doStop (Shutdown n env) env p ?w0 = Some (None, stopped p w3)"
    using fc hook a1 by (simp add: doStop_def w1_def [symmetric] w3_def w2_def Let_def)
  have s: "Shutdown (Suc n) env p w = Some (None, publish (ActorStopped (pid_id p)) (stopped p w3))"
    using d name run by (simp add: IsRunning_def p_has_def Let_def)
  have sup: "w_sups w3 = w_sups w" "w_default w3 = w_default w" using w3(3,4) w1(3,4) by (simp_all add: w2_def)
  have frame: "act q w3 = act q w" if "pid_id q \<noteq> pid_id p" for q
    using that w1(2) w3(2) by (simp add: act_def w2_def upd_act_def p_set_def)
  show ?thesis unfolding s
    using w3(1) frame by (auto simp: stopped_def p_reset_def Let_def p_has_def a3 a1 sup reset_sups_def)
qed

lemma Restart_running:
  assumes leaf: "leaf env parent p (w_tree w)" and run: "IsRunning p w" and name: "\<not> isSystemName (pid_name p)"
    and hooks: "e_PostStop env (pid_id p) (a_stops (act p w))" "e_PreStart env (pid_id p) (a_starts (act p w))"
      "e_cluster env (pid_id p)" "e_probe env (pid_id p) (Suc (a_starts (act p w)))"
  shows "\<exists>w'. Restart (Suc n) env p w = Some (None, w') \<and> leaf env parent p (w_tree w') \<and> IsRunning p w' \<and> a_restarts (act p w') = 1 \<and>
    a_starts (act p w') = Suc (a_starts (act p w)) \<and> a_sup (act p w') = a_sup (act p w) \<and> w_sups w' = reset_sups p w \<and>
    (\<forall>q. pid_id q \<noteq> pid_id p \<longrightarrow> act q w' = act q w)"
proof -
  obtain w1 where w1: "Shutdown (Suc n) env p w = Some (None, w1)" "leaf env parent p (w_tree w1)" "\<not> p_has runningState p w1"
      "\<not> p_has stoppingState p w1" "\<not> p_has passivatingState p w1" "a_restarts (act p w1) = 0" "a_starts (act p w1) = a_starts (act p w)"
      "a_sup (act p w1) = a_sup (act p w)" "w_sups w1 = reset_sups p w" "\<And>q. pid_id q \<noteq> pid_id p \<Longrightarrow> act q w1 = act q w"
    using Shutdown_leaf [OF leaf run name hooks(1), of n] by blast
  have "restartSubtree (Suc n) env parent (RNode p []) w = restart_leaf (Suc n) env parent p True w1"
    unfolding restartSubtree_leaf restart_stop_def using run w1(1) by (simp del: Shutdown.simps)
  then have "Restart (Suc n) env p w = restart_leaf (Suc n) env parent p True w1" by (simp add: Restart_leaf [OF leaf])
  with restart_leaf_up [OF w1(2,4,5), of "Suc n" True] hooks w1(6-10) show ?thesis by (auto simp: up_again_def)
qed

text \<open>
  C32. Restarting a running actor that has a supervisor of its own makes the supervisor forget its
  directives: the actor runs again with the restart counter at one, whatever it was before, and from
  then on no error of it has a directive, so every failure only suspends it and the parent is not told.
\<close>

theorem restart_forgets_directives:
  assumes "leaf env parent p (w_tree w)" "IsRunning p w" "\<not> isSystemName (pid_name p)" "a_sup (act p w) \<noteq> w_default w"
    and "e_PostStop env (pid_id p) (a_stops (act p w))" "e_PreStart env (pid_id p) (a_starts (act p w))"
    and "e_cluster env (pid_id p)" "e_probe env (pid_id p) (Suc (a_starts (act p w)))"
  shows "\<exists>w'. Restart (Suc n) env p w = Some (None, w') \<and> IsRunning p w' \<and> a_restarts (act p w') = 1 \<and>
    (\<forall>err. notifyParent env p False err w' = (None, suspend p w'))"
proof -
  obtain w' where w': "Restart (Suc n) env p w = Some (None, w')" "IsRunning p w'" "a_restarts (act p w') = 1"
      "w_sups w' (a_sup (act p w')) = sv_Reset (w_sups w (a_sup (act p w)))"
    using Restart_running [OF assms(1-3,5-8), of n] assms(4) by (auto simp: reset_sups_def Let_def)
  then have "notifyParent env p False err w' = (None, suspend p w')" for err
    by (simp add: notifyParent_def Directive_of_def sv_Reset_def Let_def)
  with w' show ?thesis by blast
qed

subsection \<open>Restarting a group\<close>

text \<open>With a retry limit the retrier is given the restart of the failed child for every actor of the group.\<close>

lemma retry_group:
  assumes name: "\<not> isSystemName (pid_name p)" and limit: "k \<noteq> 0" "0 < t" and cluster: "e_cluster env (pid_id p)"
    and hooks: "\<And>j. e_PreStart env (pid_id p) j" "\<And>j. e_PostStop env (pid_id p) j" "\<And>j. e_probe env (pid_id p) j"
    and retry: "\<And>f v v'. f v = Some (None, v') \<Longrightarrow> e_retry env k t f v = Some (None, v')"
  shows "leaf env parent p (w_tree w) \<Longrightarrow> IsRunning p w \<Longrightarrow>
    \<exists>w'. each (restart_one (Suc n) env parent p k t) ss w = Some (None, w') \<and> a_starts (act p w') = a_starts (act p w) + length ss \<and>
      (\<forall>q. pid_id q \<noteq> pid_id p \<longrightarrow> act q w' = act q w)"
proof (induction ss arbitrary: w)
  case (Cons s ss)
  let ?u = "UnWatch parent s w"
  have u: "leaf env parent p (w_tree ?u)" "IsRunning p ?u" using Cons.prems leaf_UnWatch by auto
  obtain v where v: "Restart (Suc n) env p ?u = Some (None, v)" "leaf env parent p (w_tree v)" "IsRunning p v"
      "a_starts (act p v) = Suc (a_starts (act p w))" "\<And>q. pid_id q \<noteq> pid_id p \<Longrightarrow> act q v = act q w"
    using Restart_running [OF u name hooks(2,1) cluster hooks(3), of n] by auto
  have "restart_one (Suc n) env parent p k t s w = Some (None, v)"
    using limit retry [of "Restart (Suc n) env p" ?u v] v(1) by (simp add: restart_one_def)
  with Cons.IH [OF v(2,3)] v(4,5) show ?case by auto
qed simp

lemma siblings_other: "siblings (Some p) x = Some ss \<Longrightarrow> q \<in> set ss \<Longrightarrow> pid_id q \<noteq> pid_id p"
  by (auto simp: siblings_def EqualFold_def split: if_splits option.splits)

lemma siblings_unwatch: "siblings c (removeWatcher a b x) = siblings c x"
  by (auto simp: siblings_def is_noSender_def removeWatcher_fields live_pids_def split: option.splits)


subsection \<open>A small system\<close>

text \<open>An actor \<open>a\<close> with the children \<open>b\<close> and \<open>c\<close>, all running; the children share one supervisor.\<close>

definition sys_pid :: "string \<Rightarrow> apid" where
  "sys_pid s = \<lparr>pid_id = s, pid_name = s\<rparr>"

definition sys_env :: env where
  "sys_env = \<lparr>e_noSender = sys_pid ''n'', e_deathWatch = sys_pid ''d'', e_PreStart = (\<lambda>_ _. True), e_PostStop = (\<lambda>_ _. True),
     e_probe = (\<lambda>_ _. True), e_cluster = (\<lambda>_. True), e_retry = (\<lambda>_ _ f w. f w)\<rparr>"

definition sys_tree :: pid_tree where
  "sys_tree = ex_step (OpAdd (ex_pid ''a'') (ex_pid ''c'')) ex_tree"

definition sys_world :: "Supervisor \<Rightarrow> world" where
  "sys_world s = \<lparr>w_tree = sys_tree,
     w_actors = (\<lambda>_. \<lparr>a_state = state_bit runningState, a_sup = 1, a_behaviors = [0], a_passivation = NoPassivation, a_failures = 0,
       a_reinstates = 0, a_restarts = 0, a_disposed = False, a_starts = 1, a_stops = 0\<rparr>),
     w_sups = (\<lambda>_. s), w_default = 0, w_stopping = False, w_count = 3, w_events = []\<rparr>"

definition sys_sup :: "Strategy \<Rightarrow> u32 \<Rightarrow> Supervisor" where
  "sys_sup st retries = \<lparr>sv_strategy = st, sv_maxRetries = retries, sv_timeout = 1,
     sv_directives = Some [(errorType AnyError, RestartDirective)]\<rparr>"

lemma sys_leaf: "leaf sys_env (sys_pid ''a'') (sys_pid ''b'') sys_tree"
proof -
  have "tree_run sys_tree" unfolding sys_tree_def by (intro tree_run_step tree_run_ex) simp
  then have "tree_ok sys_tree" by (rule tree_run_ok)
  moreover have "\<not> pid_Equals (Some (sys_pid ''a'')) (Some (e_noSender sys_env))" by code_simp
  moreover have "\<not> is_noSender (sys_pid ''b'') sys_tree" by code_simp
  moreover have "map_of (pids sys_tree) (pid_id (sys_pid ''b'')) = Some 2" "map_of (pids sys_tree) (pid_id (sys_pid ''a'')) = Some 1"
    "n_parent (heap sys_tree 2) = Some 1" "n_pid (heap sys_tree 1) = Some (sys_pid ''a'')" "n_descendants (heap sys_tree 2) = []"
    by code_simp+
  ultimately show ?thesis unfolding leaf_def by blast
qed

lemma sys_act: "act p (sys_world s) = \<lparr>a_state = state_bit runningState, a_sup = 1, a_behaviors = [0], a_passivation = NoPassivation, a_failures = 0,
       a_reinstates = 0, a_restarts = 0, a_disposed = False, a_starts = 1, a_stops = 0\<rparr>"
  by (simp add: act_def sys_world_def)

lemma sys_running: "IsRunning p (sys_world s)"
  by (simp add: IsRunning_def sys_act Let_def isStateSet_bit bit_state_bit)


theorem restart_forgets_directives_witness:
  "let w = sys_world (sys_sup OneForOneStrategy 0); b = sys_pid ''b'' in
   \<exists>w'. Restart (Suc 2) sys_env b w = Some (None, w') \<and> IsRunning b w' \<and> (\<forall>err. notifyParent sys_env b False err w' = (None, suspend b w'))"
proof -
  let ?w = "sys_world (sys_sup OneForOneStrategy 0)"
  have w: "w_tree ?w = sys_tree" "w_default ?w = 0" by (simp_all add: sys_world_def)
  have n: "\<not> isSystemName (pid_name (sys_pid ''b''))" by (simp add: isSystemName_def sys_pid_def)
  show ?thesis
    using restart_forgets_directives [of sys_env "sys_pid ''a''" "sys_pid ''b''" ?w 2] sys_leaf sys_running [of "sys_pid ''b''"] n
    by (auto simp: w sys_act sys_env_def)
qed


theorem failure_decision_witness:
  "\<exists>s. NewSupervisor (map opt_fun [ODirective PanicError ResumeDirective]) = Some s \<and>
     (\<exists>w'. notifyParent sys_env (sys_pid ''b'') False PanicError (sys_world s) = (None, w') \<and> IsRunning (sys_pid ''b'') w')"
proof -
  obtain s where s: "NewSupervisor (map opt_fun [ODirective PanicError ResumeDirective]) = Some s"
    using NewSupervisor_directives [of "[ODirective PanicError ResumeDirective]"] by blast
  have w: "w_sups (sys_world s) (a_sup (act (sys_pid ''b'') (sys_world s))) = s" "w_tree (sys_world s) = sys_tree" by (simp_all add: sys_world_def)
  have p: "tree_parent (Some (sys_pid ''b'')) (w_tree (sys_world s)) = Some (sys_pid ''a'')"
      "\<not> pid_Equals (Some (sys_pid ''a'')) (Some (e_noSender sys_env))"
    using leaf_parent [OF sys_leaf] sys_leaf w(2) by (auto simp: leaf_def)
  from failure_decision [OF s w(1) p, of PanicError] sys_running [of "sys_pid ''b''" s] show ?thesis
    using s by (auto simp: errorType_consts)
qed

end
