(* ===== verification/Mailbox_Spec.thy ===== *)
theory Mailbox_Spec
  imports Go_Prelude
begin

section \<open>The contract of a FIFO mailbox\<close>

text \<open>
  What the code above a mailbox relies on (\<^verbatim>\<open>actor/mailbox.go\<close> and the queues with the same
  operations): a mailbox stands for a list of messages; \<open>enq\<close> appends a message or refuses it when
  the mailbox is full, \<open>deq\<close> takes the first message or reports that there is none. A message may
  only be enqueued when it is \<open>free\<close>: the linked mailboxes use the message itself as the list node.
  The client's lemma is the FIFO property of whole runs. Each mailbox interprets the locale.
\<close>

datatype 'm box_op = Put 'm | Take

locale fifo_mailbox =
  fixes ok :: "'q \<Rightarrow> bool"
    and contents :: "'q \<Rightarrow> 'm list"
    and full :: "'q \<Rightarrow> bool"
    and free :: "'q \<Rightarrow> 'm \<Rightarrow> bool"
    and enq :: "'m \<Rightarrow> 'q \<Rightarrow> bool \<times> 'q"
    and deq :: "'q \<Rightarrow> 'm option \<times> 'q"
  assumes enq_full: "ok q \<Longrightarrow> full q \<Longrightarrow> enq m q = (False, q)"
    and enq_put: "ok q \<Longrightarrow> \<not> full q \<Longrightarrow> free q m \<Longrightarrow>
          \<exists>q'. enq m q = (True, q') \<and> ok q' \<and> contents q' = contents q @ [m]"
    and deq_none: "ok q \<Longrightarrow> contents q = [] \<Longrightarrow> \<exists>q'. deq q = (None, q') \<and> ok q' \<and> contents q' = []"
    and deq_some: "ok q \<Longrightarrow> contents q = m # ms \<Longrightarrow> \<exists>q'. deq q = (Some m, q') \<and> ok q' \<and> contents q' = ms"
begin

fun run :: "'m box_op list \<Rightarrow> 'q \<Rightarrow> 'm list \<times> 'm list \<times> 'q" where
  "run [] q = ([], [], q)"
| "run (Put m # ops) q =
     (case enq m q of (b, q1) \<Rightarrow> (case run ops q1 of (ins, outs, q2) \<Rightarrow> (if b then m # ins else ins, outs, q2)))"
| "run (Take # ops) q =
     (case deq q of (r, q1) \<Rightarrow>
        (case run ops q1 of (ins, outs, q2) \<Rightarrow> (ins, (case r of None \<Rightarrow> outs | Some m \<Rightarrow> m # outs), q2)))"

fun allowed :: "'m box_op list \<Rightarrow> 'q \<Rightarrow> bool" where
  "allowed [] q = True"
| "allowed (Put m # ops) q = ((full q \<or> free q m) \<and> allowed ops (snd (enq m q)))"
| "allowed (Take # ops) q = allowed ops (snd (deq q))"

lemma fifo_run:
  assumes "ok q" "allowed ops q" "run ops q = (ins, outs, q')"
  shows "ok q' \<and> contents q @ ins = outs @ contents q'"
  using assms
proof (induction ops arbitrary: q ins outs)
  case Nil
  then show ?case by simp
next
  case (Cons op ops)
  show ?case
  proof (cases op)
    case (Put m)
    obtain b q1 where e: "enq m q = (b, q1)" by force
    obtain ins1 outs1 where r: "run ops q1 = (ins1, outs1, q')" "ins = (if b then m # ins1 else ins1)" "outs = outs1"
      using Cons.prems(3) Put e by (auto split: prod.splits)
    have q1: "ok q1" "contents q1 = contents q @ (if b then [m] else [])"
      using Cons.prems(1,2) Put e enq_full [of q m] enq_put [of q m] by (cases "full q"; auto)+
    show ?thesis using Cons.IH [OF q1(1) _ r(1)] Cons.prems(2) Put e q1(2) r by (auto split: if_splits)
  next
    case Take
    obtain x q1 where e: "deq q = (x, q1)" by force
    obtain outs1 where r: "run ops q1 = (ins, outs1, q')" "outs = (case x of None \<Rightarrow> outs1 | Some m \<Rightarrow> m # outs1)"
      using Cons.prems(3) Take e by (auto split: prod.splits)
    have q1: "ok q1" "contents q = (case x of None \<Rightarrow> contents q1 | Some m \<Rightarrow> m # contents q1)"
      using Cons.prems(1) e deq_none [of q] deq_some [of q] by (cases "contents q"; auto)+
    show ?thesis using Cons.IH [OF q1(1) _ r(1)] Cons.prems(2) Take e q1(2) r by (auto split: option.splits)
  qed
qed

text \<open>Taking until the mailbox is empty hands out everything in order.\<close>

lemma drain: "ok q \<Longrightarrow> length (contents q) = n \<Longrightarrow> fst (snd (run (replicate n Take) q)) = contents q"
proof (induction n arbitrary: q)
  case (Suc n)
  then obtain m ms where c: "contents q = m # ms" by (cases "contents q") auto
  obtain q1 where d: "deq q = (Some m, q1)" "ok q1" "contents q1 = ms" using deq_some [OF Suc.prems(1) c] by blast
  then have "fst (snd (run (replicate n Take) q1)) = ms" using Suc.IH [of q1] Suc.prems c by auto
  then show ?case using c d(1) by (auto split: prod.split)
qed simp

end

end
