(* ===== verification/Mpsc_Mailbox.thy ===== *)
theory Mpsc_Mailbox
  imports Mailbox_Spec
begin

section \<open>The linked multi-producer mailboxes\<close>

text \<open>
  \<^verbatim>\<open>actor/unbounded_mailbox.go\<close>, \<^verbatim>\<open>actor/grain_mailbox.go\<close>. A mailbox is a linked list whose nodes are
  the message contexts themselves. Addresses of contexts are numbers, \<open>m_next\<close> is the \<^verbatim>\<open>next\<close> field of
  every context. \<^verbatim>\<open>Enqueue\<close> is two atomic actions of a producer: it swaps the tail, and later links
  the previous tail to its node. Between the two the list has a gap. The consumer is single, so
  \<^verbatim>\<open>Dequeue\<close> is one action.
\<close>

type_synonym ctx = nat

record mpsc =
  m_next :: "ctx \<Rightarrow> ctx option"
  m_head :: ctx
  m_tail :: ctx

definition NewUnboundedMailbox :: "ctx \<Rightarrow> mpsc" where
  "NewUnboundedMailbox sentinel = \<lparr>m_next = (\<lambda>_. None), m_head = sentinel, m_tail = sentinel\<rparr>"

definition enq_swap :: "ctx \<Rightarrow> mpsc \<Rightarrow> ctx \<times> mpsc" where
  "enq_swap v m = (m_tail m, m\<lparr>m_next := (m_next m)(v := None), m_tail := v\<rparr>)"

definition enq_link :: "ctx \<Rightarrow> ctx \<Rightarrow> mpsc \<Rightarrow> mpsc" where
  "enq_link prev v m = m\<lparr>m_next := (m_next m)(prev := Some v)\<rparr>"

definition mb_Enqueue :: "ctx \<Rightarrow> mpsc \<Rightarrow> bool \<times> mpsc" where
  "mb_Enqueue v m = (case enq_swap v m of (prev, m1) \<Rightarrow> (True, enq_link prev v m1))"

definition mb_Dequeue :: "mpsc \<Rightarrow> ctx option \<times> mpsc" where
  "mb_Dequeue m =
     (case m_next m (m_head m) of
        None \<Rightarrow> (None, m)
      | Some n \<Rightarrow> (Some n, m\<lparr>m_head := n, m_next := (m_next m)(m_head m := None)\<rparr>))"

partial_function (option) mb_count :: "(ctx \<Rightarrow> ctx option) \<Rightarrow> ctx option \<Rightarrow> int \<Rightarrow> int option" where
  "mb_count nx cur k = (case cur of None \<Rightarrow> Some k | Some c \<Rightarrow> mb_count nx (nx c) (k + 1))"

definition mb_Len :: "mpsc \<Rightarrow> int option" where
  "mb_Len m = mb_count (m_next m) (m_next m (m_head m)) 0"

definition mb_IsEmpty :: "mpsc \<Rightarrow> bool" where
  "mb_IsEmpty m \<longleftrightarrow> m_next m (m_head m) = None"

subsection \<open>The list with gaps\<close>

text \<open>
  \<open>links nx P a bs\<close>: from node \<open>a\<close> the nodes \<open>bs\<close> follow; a link that some producer in \<open>P\<close> has yet to
  write is missing.
\<close>

fun links :: "(ctx \<Rightarrow> ctx option) \<Rightarrow> (ctx \<times> ctx) set \<Rightarrow> ctx \<Rightarrow> ctx list \<Rightarrow> bool" where
  "links nx P a [] = (nx a = None)"
| "links nx P a (b # bs) = (nx a = (if (a, b) \<in> P then None else Some b) \<and> links nx P b bs)"

definition mp_inv :: "mpsc \<Rightarrow> (ctx \<times> ctx) set \<Rightarrow> ctx list \<Rightarrow> bool" where
  "mp_inv m P rest \<longleftrightarrow> distinct (m_head m # rest) \<and> m_tail m = last (m_head m # rest) \<and>
     links (m_next m) P (m_head m) rest \<and> P \<subseteq> set (zip (m_head m # rest) rest)"

lemma zip_snoc: "set (zip (a # bs @ [v]) (bs @ [v])) = insert (last (a # bs), v) (set (zip (a # bs) bs))"
  by (induction bs arbitrary: a) auto

lemma links_upd_other: "v \<notin> set (a # bs) \<Longrightarrow> links (nx(v := x)) P a bs = links nx P a bs"
  by (induction bs arbitrary: a) auto

lemma links_cong: "(\<And>p. p \<in> set (zip (a # bs) bs) \<Longrightarrow> p \<in> P \<longleftrightarrow> p \<in> Q) \<Longrightarrow> links nx P a bs = links nx Q a bs"
  by (induction bs arbitrary: a) auto

lemma links_snoc:
  "distinct (a # bs @ [v]) \<Longrightarrow> links nx P a bs \<Longrightarrow> nx v = None \<Longrightarrow> links nx (insert (last (a # bs), v) P) a (bs @ [v])"
proof (induction bs arbitrary: a)
  case (Cons b bs)
  then have "links nx (insert (last (b # bs), v) P) b (bs @ [v])" by simp
  moreover have "(a, b) \<noteq> (last (b # bs), v)" using Cons.prems(1) by auto
  ultimately show ?case using Cons.prems(2) by auto
qed simp

lemma links_fill:
  "distinct (a # bs) \<Longrightarrow> (c, d) \<in> set (zip (a # bs) bs) \<Longrightarrow> links nx P a bs \<Longrightarrow> links (nx(c := Some d)) (P - {(c, d)}) a bs"
proof (induction bs arbitrary: a)
  case (Cons b bs)
  show ?case
  proof (cases "(c, d) = (a, b)")
    case True
    then have "links nx (P - {(c, d)}) b bs"
      using Cons.prems by (subst links_cong [where Q = P]) (auto dest: set_zip_leftD)
    then have "links (nx(c := Some d)) (P - {(c, d)}) b bs"
      using True Cons.prems(1) by (subst links_upd_other) auto
    then show ?thesis using True unfolding links.simps by (simp del: fun_upd_apply add: fun_upd_same)
  next
    case False
    then have cd: "(c, d) \<in> set (zip (b # bs) bs)" using Cons.prems(2) by auto
    then have "c \<noteq> a" using Cons.prems(1) by (auto dest: set_zip_leftD)
    then have "(nx(c := Some d)) a = nx a" by simp
    then show ?thesis
      using Cons.IH [OF _ cd] Cons.prems False unfolding links.simps by (auto simp del: fun_upd_apply)
  qed
qed simp

lemma mp_inv_new: "mp_inv (NewUnboundedMailbox s) {} []"
  by (simp add: mp_inv_def NewUnboundedMailbox_def)

lemma mp_inv_swap:
  assumes "mp_inv m P rest" "v \<notin> set (m_head m # rest)" "enq_swap v m = (prev, m')"
  shows "mp_inv m' (insert (prev, v) P) (rest @ [v])"
proof -
  have "links ((m_next m)(v := None)) P (m_head m) rest"
    using assms(1,2) unfolding mp_inv_def by (subst links_upd_other) auto
  then have "links ((m_next m)(v := None)) (insert (last (m_head m # rest), v) P) (m_head m) (rest @ [v])"
    using assms(1,2) by (intro links_snoc) (auto simp: mp_inv_def)
  then show ?thesis
    using assms zip_snoc [of "m_head m" rest v] by (auto simp: mp_inv_def enq_swap_def)
qed

lemma mp_inv_link:
  assumes "mp_inv m P rest" "(a, b) \<in> P"
  shows "mp_inv (enq_link a b m) (P - {(a, b)}) rest"
  using assms links_fill [of "m_head m" rest a b "m_next m" P] by (auto simp: mp_inv_def enq_link_def)

lemma mp_inv_take:
  assumes "mp_inv m P rest" "mb_Dequeue m = (Some v, m')"
  shows "\<exists>rest'. rest = v # rest' \<and> mp_inv m' P rest'"
proof (cases rest)
  case Nil
  then show ?thesis using assms by (auto simp: mp_inv_def mb_Dequeue_def)
next
  case (Cons b bs)
  then have b: "b = v" "(m_head m, b) \<notin> P" "m' = m\<lparr>m_head := v, m_next := (m_next m)(m_head m := None)\<rparr>"
    using assms by (auto simp: mp_inv_def mb_Dequeue_def split: if_splits option.splits)
  have "P \<subseteq> set (zip (b # bs) bs)" using assms(1) Cons b(2) by (auto simp: mp_inv_def)
  moreover have "links ((m_next m)(m_head m := None)) P b bs"
    using assms(1) Cons by (subst links_upd_other) (auto simp: mp_inv_def)
  ultimately show ?thesis
    using assms(1) Cons b by (auto simp: mp_inv_def)
qed

lemma mp_inv_miss:
  assumes "mp_inv m P rest" "mb_Dequeue m = (None, m')"
  shows "m' = m \<and> (rest = [] \<or> (\<exists>b bs. rest = b # bs \<and> (m_head m, b) \<in> P))"
  using assms by (cases rest) (auto simp: mp_inv_def mb_Dequeue_def split: if_splits option.splits)

lemma mb_count_simps [simp, code]:
  "mb_count nx None k = Some k" "mb_count nx (Some c) k = mb_count nx (nx c) (k + 1)"
  by (subst mb_count.simps; simp)+

lemma mb_count_links: "links nx {} a bs \<Longrightarrow> mb_count nx (nx a) k = Some (k + int (length bs))"
  by (induction bs arbitrary: a k) auto

subsection \<open>One thread at a time\<close>

text \<open>Without a producer between its two actions the mailbox meets the contract of a FIFO mailbox.\<close>

fun mb_walk :: "nat \<Rightarrow> (ctx \<Rightarrow> ctx option) \<Rightarrow> ctx \<Rightarrow> ctx list" where
  "mb_walk 0 nx a = []"
| "mb_walk (Suc k) nx a = (case nx a of None \<Rightarrow> [] | Some b \<Rightarrow> b # mb_walk k nx b)"

definition mb_contents :: "mpsc \<Rightarrow> ctx list" where
  "mb_contents m = mb_walk (case mb_Len m of None \<Rightarrow> 0 | Some k \<Rightarrow> nat k) (m_next m) (m_head m)"

definition mb_ok :: "mpsc \<Rightarrow> bool" where
  "mb_ok m \<longleftrightarrow> (\<exists>rest. mp_inv m {} rest)"

lemma mb_walk_links: "links nx {} a bs \<Longrightarrow> mb_walk (length bs) nx a = bs"
  by (induction bs arbitrary: a) auto

lemma mb_Len_inv: "mp_inv m {} rest \<Longrightarrow> mb_Len m = Some (int (length rest))"
  using mb_count_links [of "m_next m" "m_head m" rest 0] by (simp add: mp_inv_def mb_Len_def)

lemma mb_contents_inv: "mp_inv m {} rest \<Longrightarrow> mb_contents m = rest"
  by (simp add: mb_contents_def mb_Len_inv) (simp add: mp_inv_def mb_walk_links)

lemma mb_enqueue_ok:
  assumes inv: "mp_inv m {} rest" and "v \<notin> set (m_head m # rest)"
  shows "\<exists>m'. mb_Enqueue v m = (True, m') \<and> mp_inv m' {} (rest @ [v])"
proof -
  obtain prev m1 where s: "enq_swap v m = (prev, m1)" by force
  from mp_inv_link [OF mp_inv_swap [OF assms s], of prev v] s show ?thesis by (simp add: mb_Enqueue_def)
qed

interpretation unbounded: fifo_mailbox mb_ok mb_contents "\<lambda>m. False" "\<lambda>m v. v \<notin> set (m_head m # mb_contents m)" mb_Enqueue mb_Dequeue
proof
  fix q v assume ok: "mb_ok q" and free: "v \<notin> set (m_head q # mb_contents q)"
  then obtain rest where inv: "mp_inv q {} rest" by (auto simp: mb_ok_def)
  with free mb_enqueue_ok [OF inv, of v]
  show "\<exists>q'. mb_Enqueue v q = (True, q') \<and> mb_ok q' \<and> mb_contents q' = mb_contents q @ [v]"
    by (metis mb_contents_inv mb_ok_def)
next
  fix q assume ok: "mb_ok q" and empty: "mb_contents q = []"
  then have inv: "mp_inv q {} []" using mb_contents_inv by (auto simp: mb_ok_def)
  then have "mb_Dequeue q = (None, q)" by (simp add: mp_inv_def mb_Dequeue_def)
  with ok empty show "\<exists>q'. mb_Dequeue q = (None, q') \<and> mb_ok q' \<and> mb_contents q' = []" by simp
next
  fix q v ms assume ok: "mb_ok q" and c: "mb_contents q = v # ms"
  then have inv: "mp_inv q {} (v # ms)" using mb_contents_inv by (auto simp: mb_ok_def)
  then obtain q' where q': "mb_Dequeue q = (Some v, q')" by (simp add: mp_inv_def mb_Dequeue_def)
  then have "mp_inv q' {} ms" using mp_inv_take [OF inv q'] by simp
  then show "\<exists>q'. mb_Dequeue q = (Some v, q') \<and> mb_ok q' \<and> mb_contents q' = ms"
    using q' mb_contents_inv by (auto simp: mb_ok_def)
qed simp

subsection \<open>Concurrent producers\<close>

text \<open>
  The system: the mailbox, the producers that swapped and have not linked, and the history of both
  sides, the contexts in the order of the swaps and the contexts the consumer received. A context
  may be enqueued when it is neither the current sentinel nor waiting in the mailbox.
\<close>

record mpsc_sys =
  box :: mpsc
  linking :: "(ctx \<times> ctx) list"
  queued :: "ctx list"
  taken :: "ctx list"

definition waiting :: "mpsc_sys \<Rightarrow> ctx list" where
  "waiting s = drop (length (taken s)) (queued s)"

inductive mpsc_step :: "mpsc_sys \<Rightarrow> mpsc_sys \<Rightarrow> bool" where
  mp_swap: "v \<notin> set (m_head (box s) # waiting s) \<Longrightarrow> enq_swap v (box s) = (prev, m) \<Longrightarrow>
     mpsc_step s (s\<lparr>box := m, linking := (prev, v) # linking s, queued := queued s @ [v]\<rparr>)"
| mp_link: "(a, b) \<in> set (linking s) \<Longrightarrow>
     mpsc_step s (s\<lparr>box := enq_link a b (box s), linking := removeAll (a, b) (linking s)\<rparr>)"
| mp_take: "mb_Dequeue (box s) = (Some v, m) \<Longrightarrow> mpsc_step s (s\<lparr>box := m, taken := taken s @ [v]\<rparr>)"
| mp_miss: "mb_Dequeue (box s) = (None, m) \<Longrightarrow> mpsc_step s (s\<lparr>box := m\<rparr>)"

definition mpsc_start :: "ctx \<Rightarrow> mpsc_sys" where
  "mpsc_start sentinel = \<lparr>box = NewUnboundedMailbox sentinel, linking = [], queued = [], taken = []\<rparr>"

definition mpsc_ok :: "mpsc_sys \<Rightarrow> bool" where
  "mpsc_ok s \<longleftrightarrow> queued s = taken s @ waiting s \<and> mp_inv (box s) (set (linking s)) (waiting s)"

lemma mpsc_okI: "queued s = taken s @ w \<Longrightarrow> mp_inv (box s) (set (linking s)) w \<Longrightarrow> mpsc_ok s"
  by (simp add: mpsc_ok_def waiting_def)

lemma mpsc_okE:
  assumes "mpsc_ok s"
  obtains w where "queued s = taken s @ w" "waiting s = w" "mp_inv (box s) (set (linking s)) w"
  using assms by (auto simp: mpsc_ok_def)

lemma mpsc_step_ok: "mpsc_step s t \<Longrightarrow> mpsc_ok s \<Longrightarrow> mpsc_ok t"
proof (induction rule: mpsc_step.induct)
  case (mp_swap v s prev m)
  obtain w where w: "queued s = taken s @ w" "waiting s = w" "mp_inv (box s) (set (linking s)) w"
    by (rule mpsc_okE [OF mp_swap.prems])
  with mp_inv_swap [OF w(3) _ mp_swap.hyps(2)] mp_swap.hyps(1) show ?case by (intro mpsc_okI [where w = "w @ [v]"]) auto
next
  case (mp_link a b s)
  obtain w where w: "queued s = taken s @ w" "mp_inv (box s) (set (linking s)) w" by (rule mpsc_okE [OF mp_link.prems])
  with mp_inv_link [OF w(2) mp_link.hyps] show ?case by (intro mpsc_okI [where w = w]) auto
next
  case (mp_take s v m)
  obtain w where w: "queued s = taken s @ w" "mp_inv (box s) (set (linking s)) w" by (rule mpsc_okE [OF mp_take.prems])
  from mp_inv_take [OF w(2) mp_take.hyps] obtain r where "w = v # r" "mp_inv m (set (linking s)) r" by blast
  with w(1) show ?case by (intro mpsc_okI [where w = r]) auto
next
  case (mp_miss s m)
  obtain w where w: "queued s = taken s @ w" "mp_inv (box s) (set (linking s)) w" by (rule mpsc_okE [OF mp_miss.prems])
  with mp_inv_miss [OF w(2) mp_miss.hyps] show ?case by (intro mpsc_okI [where w = w]) auto
qed

lemma mpsc_reach_ok: "mpsc_step\<^sup>*\<^sup>* (mpsc_start a) s \<Longrightarrow> mpsc_ok s"
proof (induction rule: rtranclp_induct)
  case base
  show ?case by (rule mpsc_okI [where w = "[]"]) (simp_all add: mpsc_start_def mp_inv_new)
qed (rule mpsc_step_ok)

subsection \<open>The grain mailbox\<close>

text \<open>
  The same list with a counter and an optional capacity. In bounded mode a producer first reserves
  a place by incrementing the counter, in unbounded mode it increments it after linking. The
  consumer waits while a producer is between its swap and its link; a call that still waits is
  \<^const>\<open>None\<close>.
\<close>

record grainMailbox =
  g_box :: mpsc
  g_len :: int
  g_cap :: int

definition newGrainMailbox :: "ctx \<Rightarrow> int \<Rightarrow> grainMailbox" where
  "newGrainMailbox sentinel cap = \<lparr>g_box = NewUnboundedMailbox sentinel, g_len = 0, g_cap = cap\<rparr>"

definition g_reserve :: "grainMailbox \<Rightarrow> bool \<times> grainMailbox" where
  "g_reserve m =
     (if 0 < g_cap m then (if g_cap m \<le> g_len m then (False, m) else (True, m\<lparr>g_len := g_len m + 1\<rparr>)) else (True, m))"

definition g_swap :: "ctx \<Rightarrow> grainMailbox \<Rightarrow> ctx \<times> grainMailbox" where
  "g_swap v m = (case enq_swap v (g_box m) of (prev, b) \<Rightarrow> (prev, m\<lparr>g_box := b\<rparr>))"

definition g_link :: "ctx \<Rightarrow> ctx \<Rightarrow> grainMailbox \<Rightarrow> grainMailbox" where
  "g_link prev v m = m\<lparr>g_box := enq_link prev v (g_box m)\<rparr>"

definition g_count :: "grainMailbox \<Rightarrow> grainMailbox" where
  "g_count m = (if g_cap m \<le> 0 then m\<lparr>g_len := g_len m + 1\<rparr> else m)"

definition tryEnqueue :: "ctx \<Rightarrow> grainMailbox \<Rightarrow> bool \<times> grainMailbox" where
  "tryEnqueue v m =
     (case g_reserve m of
        (False, m1) \<Rightarrow> (False, m1)
      | (True, m1) \<Rightarrow> (case g_swap v m1 of (prev, m2) \<Rightarrow> (True, g_count (g_link prev v m2))))"

datatype grain_error = ErrMailboxFull

definition g_Enqueue :: "ctx \<Rightarrow> grainMailbox \<Rightarrow> grain_error option \<times> grainMailbox" where
  "g_Enqueue v m = (case tryEnqueue v m of (ok, m') \<Rightarrow> (if ok then None else Some ErrMailboxFull, m'))"

definition g_Dequeue :: "grainMailbox \<Rightarrow> (ctx option \<times> grainMailbox) option" where
  "g_Dequeue m =
     (case mb_Dequeue (g_box m) of
        (None, b) \<Rightarrow> if m_head (g_box m) = m_tail (g_box m) then Some (None, m) else None
      | (Some v, b) \<Rightarrow> Some (Some v, m\<lparr>g_box := b, g_len := g_len m - 1\<rparr>))"

definition g_Len :: "grainMailbox \<Rightarrow> int" where
  "g_Len m = g_len m"

definition g_IsEmpty :: "grainMailbox \<Rightarrow> bool" where
  "g_IsEmpty m \<longleftrightarrow> g_Len m = 0"

definition g_Capacity :: "grainMailbox \<Rightarrow> int" where
  "g_Capacity m = g_cap m"

record grain_sys =
  gbox :: grainMailbox
  reserving :: nat
  glinking :: "(ctx \<times> ctx) list"
  counting :: nat
  gqueued :: "ctx list"
  gtaken :: "ctx list"

definition gwaiting :: "grain_sys \<Rightarrow> ctx list" where
  "gwaiting s = drop (length (gtaken s)) (gqueued s)"

inductive grain_step :: "grain_sys \<Rightarrow> grain_sys \<Rightarrow> bool" where
  g_admit: "g_reserve (gbox s) = (True, m) \<Longrightarrow> grain_step s (s\<lparr>gbox := m, reserving := reserving s + 1\<rparr>)"
| g_refuse: "g_reserve (gbox s) = (False, m) \<Longrightarrow> grain_step s (s\<lparr>gbox := m\<rparr>)"
| g_swapped: "0 < reserving s \<Longrightarrow> v \<notin> set (m_head (g_box (gbox s)) # gwaiting s) \<Longrightarrow> g_swap v (gbox s) = (prev, m) \<Longrightarrow>
     grain_step s (s\<lparr>gbox := m, reserving := reserving s - 1, glinking := (prev, v) # glinking s, gqueued := gqueued s @ [v]\<rparr>)"
| g_linked: "(a, b) \<in> set (glinking s) \<Longrightarrow>
     grain_step s (s\<lparr>gbox := g_link a b (gbox s), glinking := removeAll (a, b) (glinking s), counting := counting s + 1\<rparr>)"
| g_counted: "0 < counting s \<Longrightarrow> grain_step s (s\<lparr>gbox := g_count (gbox s), counting := counting s - 1\<rparr>)"
| g_take: "g_Dequeue (gbox s) = Some (Some v, m) \<Longrightarrow> grain_step s (s\<lparr>gbox := m, gtaken := gtaken s @ [v]\<rparr>)"
| g_miss: "g_Dequeue (gbox s) = Some (None, m) \<Longrightarrow> grain_step s (s\<lparr>gbox := m\<rparr>)"

definition grain_start :: "ctx \<Rightarrow> int \<Rightarrow> grain_sys" where
  "grain_start sentinel cap =
     \<lparr>gbox = newGrainMailbox sentinel cap, reserving = 0, glinking = [], counting = 0, gqueued = [], gtaken = []\<rparr>"

text \<open>
  The counter: in bounded mode the reservations and the waiting messages; in unbounded mode the
  waiting messages whose producer has counted them.
\<close>

lemma length_removeAll_distinct: "distinct xs \<Longrightarrow> x \<in> set xs \<Longrightarrow> Suc (length (removeAll x xs)) = length xs"
  by (induction xs) auto

definition grain_ok_at :: "grain_sys \<Rightarrow> ctx list \<Rightarrow> bool" where
  "grain_ok_at s w \<longleftrightarrow> gqueued s = gtaken s @ w \<and> mp_inv (g_box (gbox s)) (set (glinking s)) w \<and> distinct (glinking s) \<and>
     (if 0 < g_cap (gbox s)
      then g_len (gbox s) = int (reserving s + length w) \<and> g_len (gbox s) \<le> g_cap (gbox s)
      else g_len (gbox s) = int (length w) - int (length (glinking s)) - int (counting s))"

lemma grain_ok_at: "grain_ok_at s w \<Longrightarrow> gwaiting s = w"
  by (simp add: grain_ok_at_def gwaiting_def)

lemma grain_step_ok:
  assumes "grain_step s t" "grain_ok_at s w" "gwaiting s = w"
  shows "\<exists>w'. grain_ok_at t w'"
  using assms
proof (induction rule: grain_step.induct)
  case (g_swapped s v prev m)
  then have inv: "mp_inv (g_box (gbox s)) (set (glinking s)) w" by (simp add: grain_ok_at_def)
  obtain b where b: "enq_swap v (g_box (gbox s)) = (prev, b)" "m = (gbox s)\<lparr>g_box := b\<rparr>"
    using g_swapped.hyps(3) by (auto simp: g_swap_def split: prod.splits)
  have v: "v \<notin> set (m_head (g_box (gbox s)) # w)" using g_swapped.hyps(2) g_swapped.prems(2) by simp
  then have "(prev, v) \<notin> set (glinking s)" using inv by (auto simp: mp_inv_def dest: set_zip_rightD)
  then show ?case
    using g_swapped.prems(1) g_swapped.hyps(1) mp_inv_swap [OF inv v b(1)]
    by (intro exI [of _ "w @ [v]"]) (auto simp: grain_ok_at_def b(2))
next
  case (g_linked a b s)
  then show ?case
    using mp_inv_link [of "g_box (gbox s)" "set (glinking s)" w a b] length_removeAll_distinct [of "glinking s" "(a, b)"]
    by (intro exI [of _ w]) (auto simp: grain_ok_at_def g_link_def distinct_removeAll)
next
  case (g_take s v m)
  then have inv: "mp_inv (g_box (gbox s)) (set (glinking s)) w" by (simp add: grain_ok_at_def)
  obtain b where b: "mb_Dequeue (g_box (gbox s)) = (Some v, b)" "m = (gbox s)\<lparr>g_box := b, g_len := g_len (gbox s) - 1\<rparr>"
    using g_take.hyps by (auto simp: g_Dequeue_def split: prod.splits option.splits if_splits)
  from mp_inv_take [OF inv b(1)] obtain r where r: "w = v # r" "mp_inv b (set (glinking s)) r" by blast
  then show ?case using g_take.prems(1) by (intro exI [of _ r]) (auto simp: grain_ok_at_def b(2))
next
  case (g_miss s m)
  then have "m = gbox s" by (auto simp: g_Dequeue_def split: prod.splits option.splits if_splits)
  then show ?case using g_miss by (intro exI [of _ w]) (auto simp: grain_ok_at_def split: if_splits)
next
  case (g_admit s m)
  then show ?case by (intro exI [of _ w]) (auto simp: grain_ok_at_def g_reserve_def split: if_splits)
next
  case (g_refuse s m)
  then show ?case by (intro exI [of _ w]) (auto simp: grain_ok_at_def g_reserve_def split: if_splits)
next
  case (g_counted s)
  then show ?case by (intro exI [of _ w]) (auto simp: grain_ok_at_def g_count_def split: if_splits)
qed

lemma grain_reach_ok: "grain_step\<^sup>*\<^sup>* (grain_start a cap) s \<Longrightarrow> grain_ok_at s (gwaiting s)"
proof (induction rule: rtranclp_induct)
  case base
  have "grain_ok_at (grain_start a cap) []"
    using mp_inv_new by (simp add: grain_ok_at_def grain_start_def newGrainMailbox_def)
  then show ?case using grain_ok_at [of "grain_start a cap" "[]"] by simp
next
  case (step s t)
  obtain w where "grain_ok_at t w" using grain_step_ok [OF step.hyps(2) step.IH refl] by blast
  then show ?case using grain_ok_at [of t w] by simp
qed



lemma grain_step_cap: "grain_step s t \<Longrightarrow> g_cap (gbox t) = g_cap (gbox s)"
  by (induction rule: grain_step.induct)
     (auto simp: g_reserve_def g_swap_def g_link_def g_count_def g_Dequeue_def split: if_splits prod.splits option.splits)

lemma grain_reach_cap: "grain_step\<^sup>*\<^sup>* (grain_start a cap) s \<Longrightarrow> g_cap (gbox s) = cap"
  by (induction rule: rtranclp_induct) (simp_all add: grain_start_def newGrainMailbox_def grain_step_cap)

text \<open>One thread at a time the grain mailbox, too, is a FIFO mailbox, full at its capacity.\<close>

definition gm_ok :: "grainMailbox \<Rightarrow> bool" where
  "gm_ok m \<longleftrightarrow> mb_ok (g_box m) \<and> g_len m = int (length (mb_contents (g_box m)))"

definition gm_full :: "grainMailbox \<Rightarrow> bool" where
  "gm_full m \<longleftrightarrow> 0 < g_cap m \<and> g_cap m \<le> g_len m"

definition gm_Dequeue :: "grainMailbox \<Rightarrow> ctx option \<times> grainMailbox" where
  "gm_Dequeue m = the (g_Dequeue m)"

interpretation grain: fifo_mailbox gm_ok "\<lambda>m. mb_contents (g_box m)" gm_full
  "\<lambda>m v. v \<notin> set (m_head (g_box m) # mb_contents (g_box m))" tryEnqueue gm_Dequeue
proof
  fix q v assume "gm_full q"
  then show "tryEnqueue v q = (False, q)" by (simp add: tryEnqueue_def g_reserve_def gm_full_def)
next
  fix q v assume ok: "gm_ok q" "\<not> gm_full q" "v \<notin> set (m_head (g_box q) # mb_contents (g_box q))"
  then obtain b where b: "mb_Enqueue v (g_box q) = (True, b)" "mb_ok b" "mb_contents b = mb_contents (g_box q) @ [v]"
    using unbounded.enq_put [of "g_box q" v] by (auto simp: gm_ok_def)
  then have "tryEnqueue v q = (True, q\<lparr>g_box := b, g_len := g_len q + 1\<rparr>)"
    using ok(2) by (auto simp: tryEnqueue_def g_reserve_def g_swap_def g_link_def g_count_def mb_Enqueue_def gm_full_def split: prod.splits)
  with b ok(1) show "\<exists>q'. tryEnqueue v q = (True, q') \<and> gm_ok q' \<and> mb_contents (g_box q') = mb_contents (g_box q) @ [v]"
    by (simp add: gm_ok_def)
next
  fix q assume ok: "gm_ok q" and c: "mb_contents (g_box q) = []"
  then have inv: "mp_inv (g_box q) {} []" using mb_contents_inv by (auto simp: mb_ok_def gm_ok_def)
  then have "gm_Dequeue q = (None, q)" by (simp add: mp_inv_def mb_Dequeue_def g_Dequeue_def gm_Dequeue_def)
  with ok c show "\<exists>q'. gm_Dequeue q = (None, q') \<and> gm_ok q' \<and> mb_contents (g_box q') = []" by simp
next
  fix q v ms assume ok: "gm_ok q" and c: "mb_contents (g_box q) = v # ms"
  then obtain b where b: "mb_Dequeue (g_box q) = (Some v, b)" "mb_ok b" "mb_contents b = ms"
    using unbounded.deq_some [of "g_box q" v ms] by (auto simp: gm_ok_def)
  with ok c show "\<exists>q'. gm_Dequeue q = (Some v, q') \<and> gm_ok q' \<and> mb_contents (g_box q') = ms"
    by (simp add: gm_Dequeue_def g_Dequeue_def gm_ok_def)
qed

subsection \<open>Nothing is lost\<close>

lemma mpsc_link_all: "\<exists>t. mpsc_step\<^sup>*\<^sup>* s t \<and> linking t = [] \<and> queued t = queued s \<and> taken t = taken s"
proof (induction "length (linking s)" arbitrary: s rule: less_induct)
  case less
  show ?case
  proof (cases "linking s")
    case (Cons p ps)
    obtain a b where p: "p = (a, b)" by force
    let ?u = "s\<lparr>box := enq_link a b (box s), linking := removeAll (a, b) (linking s)\<rparr>"
    have u: "mpsc_step s ?u" using Cons p by (intro mp_link) simp
    have "length (linking ?u) < length (linking s)" using Cons p by (simp add: le_imp_less_Suc)
    from less [OF this] obtain t where "mpsc_step\<^sup>*\<^sup>* ?u t" "linking t = []" "queued t = queued s" "taken t = taken s" by auto
    with u show ?thesis by (meson converse_rtranclp_into_rtranclp)
  qed auto
qed

lemma mpsc_drain:
  "mpsc_ok s \<Longrightarrow> linking s = [] \<Longrightarrow> \<exists>t. mpsc_step\<^sup>*\<^sup>* s t \<and> linking t = [] \<and> queued t = queued s \<and> taken t = queued s"
proof (induction "length (waiting s)" arbitrary: s)
  case 0
  then show ?case by (auto simp: mpsc_ok_def)
next
  case (Suc n)
  obtain w where w: "queued s = taken s @ w" "waiting s = w" "mp_inv (box s) (set (linking s)) w" by (rule mpsc_okE [OF Suc.prems(1)])
  then obtain v r where r: "w = v # r" using Suc.hyps(2) by (cases w) auto
  then obtain m where m: "mb_Dequeue (box s) = (Some v, m)" using w(3) Suc.prems(2) by (simp add: mp_inv_def mb_Dequeue_def)
  let ?u = "s\<lparr>box := m, taken := taken s @ [v]\<rparr>"
  have u: "mpsc_step s ?u" by (rule mp_take [OF m])
  have "waiting ?u = r" using w(1) r by (simp add: waiting_def)
  then have "n = length (waiting ?u)" using Suc.hyps(2) w(2) r by simp
  from Suc.hyps(1) [OF this mpsc_step_ok [OF u Suc.prems(1)]] Suc.prems(2)
  obtain t where "mpsc_step\<^sup>*\<^sup>* ?u t" "linking t = []" "queued t = queued s" "taken t = queued s" by auto
  with u show ?case by (meson converse_rtranclp_into_rtranclp)
qed

text \<open>
  C4. In every interleaving of any number of producers with the consumer, the unbounded mailbox
  hands out the messages in the order of the producers' swaps: what was received is a prefix of
  what was enqueued; \<^verbatim>\<open>Dequeue\<close> returns the next message, or nothing only when the mailbox is empty
  or a producer has not linked its message yet; with no producer in between, \<^verbatim>\<open>Len\<close> and \<^verbatim>\<open>IsEmpty\<close>
  are exact. From every such state the mailbox can go on to deliver everything.
\<close>

theorem mailbox_fifo:
  assumes "mpsc_step\<^sup>*\<^sup>* (mpsc_start a) s"
  shows "\<exists>rest. queued s = taken s @ rest \<and>
    (case fst (mb_Dequeue (box s)) of
       None \<Rightarrow> rest = [] \<or> linking s \<noteq> []
     | Some v \<Rightarrow> rest \<noteq> [] \<and> v = hd rest) \<and>
    (linking s = [] \<longrightarrow> mb_Len (box s) = Some (int (length rest)) \<and> mb_IsEmpty (box s) = (rest = [])) \<and>
    (\<exists>t. mpsc_step\<^sup>*\<^sup>* s t \<and> linking t = [] \<and> taken t = taken s @ rest)"
proof -
  obtain w where w: "queued s = taken s @ w" "mp_inv (box s) (set (linking s)) w"
    by (rule mpsc_okE [OF mpsc_reach_ok [OF assms]])
  have d: "case fst (mb_Dequeue (box s)) of None \<Rightarrow> w = [] \<or> linking s \<noteq> [] | Some v \<Rightarrow> w \<noteq> [] \<and> v = hd w"
    using mp_inv_take [OF w(2)] mp_inv_miss [OF w(2)] by (cases "mb_Dequeue (box s)") (fastforce split: option.splits)
  have e: "mb_Len (box s) = Some (int (length w)) \<and> mb_IsEmpty (box s) = (w = [])" if "linking s = []"
    using w(2) mb_Len_inv [of "box s" w] that by (cases w) (auto simp: mb_IsEmpty_def mp_inv_def)
  obtain u where u: "mpsc_step\<^sup>*\<^sup>* s u" "linking u = []" "queued u = queued s" using mpsc_link_all by blast
  have "mpsc_ok u" using mpsc_reach_ok rtranclp_trans [OF assms u(1)] by blast
  from mpsc_drain [OF this u(2)] obtain t where "mpsc_step\<^sup>*\<^sup>* u t" "linking t = []" "taken t = queued s" using u(3) by auto
  then have "\<exists>t. mpsc_step\<^sup>*\<^sup>* s t \<and> linking t = [] \<and> taken t = taken s @ w" using u(1) w(1) by (metis rtranclp_trans)
  with w(1) d e show ?thesis by blast
qed

theorem mailbox_fifo_witness:
  "\<exists>s. mpsc_step\<^sup>*\<^sup>* (mpsc_start 0) s \<and> queued s = [1, 2] \<and> linking s = [(0, 1)] \<and>
     (\<exists>rest. queued s = taken s @ rest \<and> (\<exists>t. mpsc_step\<^sup>*\<^sup>* s t \<and> linking t = [] \<and> taken t = taken s @ rest))"
proof -
  obtain s1 s2 s3 where s: "s1 = \<lparr>box = \<lparr>m_next = \<lambda>_. None, m_head = 0, m_tail = 1\<rparr>, linking = [(0, 1)], queued = [1], taken = []\<rparr>"
    "s2 = \<lparr>box = \<lparr>m_next = \<lambda>_. None, m_head = 0, m_tail = 2\<rparr>, linking = [(1, 2), (0, 1)], queued = [1, 2], taken = []\<rparr>"
    "s3 = \<lparr>box = enq_link 1 2 (box s2), linking = [(0, 1)], queued = [1, 2], taken = []\<rparr>" by simp
  have "mpsc_step (mpsc_start 0) s1"
    using mp_swap [of 1 "mpsc_start 0"] by (simp add: s mpsc_start_def NewUnboundedMailbox_def waiting_def enq_swap_def fun_upd_def)
  moreover have "mpsc_step s1 s2"
    using mp_swap [of 2 s1] by (simp add: s waiting_def enq_swap_def fun_upd_def)
  moreover have "mpsc_step s2 s3"
    using mp_link [of 1 2 s2] by (simp add: s)
  ultimately have r: "mpsc_step\<^sup>*\<^sup>* (mpsc_start 0) s3" by (meson rtranclp.rtrancl_into_rtrancl rtranclp.rtrancl_refl)
  with mailbox_fifo [OF r] show ?thesis by (intro exI [of _ s3]) (auto simp: s)
qed

text \<open>
  C34. In every interleaving the grain mailbox is FIFO; with a positive capacity it never holds more
  messages than the capacity, messages still being linked included, and its counter stays between
  the number of messages and the capacity; with no producer in between the counter is exact and
  \<^verbatim>\<open>Dequeue\<close> returns the next message. \<^verbatim>\<open>Dequeue\<close> spins only while a producer is about to link.
\<close>

theorem grain_mailbox_bounded:
  assumes "grain_step\<^sup>*\<^sup>* (grain_start a cap) s"
  shows "\<exists>rest. gqueued s = gtaken s @ rest \<and>
    (0 < cap \<longrightarrow> int (length rest) \<le> g_Len (gbox s) \<and> g_Len (gbox s) \<le> g_Capacity (gbox s) \<and> g_Capacity (gbox s) = cap) \<and>
    (reserving s = 0 \<and> glinking s = [] \<and> counting s = 0 \<longrightarrow>
       g_Len (gbox s) = int (length rest) \<and> g_IsEmpty (gbox s) = (rest = []) \<and>
       map_option fst (g_Dequeue (gbox s)) = Some (case rest of [] \<Rightarrow> None | v # _ \<Rightarrow> Some v)) \<and>
    (g_Dequeue (gbox s) = None \<longrightarrow> glinking s \<noteq> [])"
proof -
  obtain w where w: "grain_ok_at s w" using grain_reach_ok [OF assms] by blast
  have cap: "g_cap (gbox s) = cap" by (rule grain_reach_cap [OF assms])
  let ?b = "g_box (gbox s)"
  have inv: "mp_inv ?b (set (glinking s)) w" using w by (simp add: grain_ok_at_def)
  have spin: "glinking s \<noteq> []" if "g_Dequeue (gbox s) = None"
  proof -
    from that have "fst (mb_Dequeue ?b) = None" "m_head ?b \<noteq> m_tail ?b"
      by (auto simp: g_Dequeue_def split: prod.splits option.splits if_splits)
    then have "w \<noteq> []" "w = [] \<or> glinking s \<noteq> []"
      using inv mp_inv_miss [OF inv, of "snd (mb_Dequeue ?b)"] by (auto simp: mp_inv_def prod_eq_iff)
    then show ?thesis by simp
  qed
  have deq: "map_option fst (g_Dequeue (gbox s)) = Some (case w of [] \<Rightarrow> None | v # _ \<Rightarrow> Some v)" if "glinking s = []"
    using inv that by (cases w) (simp_all add: mp_inv_def g_Dequeue_def mb_Dequeue_def)
  have len: "g_Len (gbox s) = int (length w)" if "reserving s = 0" "glinking s = []" "counting s = 0"
    using w that by (auto simp: grain_ok_at_def g_Len_def split: if_splits)
  have "0 < cap \<longrightarrow> int (length w) \<le> g_Len (gbox s) \<and> g_Len (gbox s) \<le> g_Capacity (gbox s) \<and> g_Capacity (gbox s) = cap"
    using w cap by (auto simp: grain_ok_at_def g_Len_def g_Capacity_def)
  then show ?thesis
    using w deq len spin by (intro exI [of _ w]) (auto simp: grain_ok_at_def g_IsEmpty_def)
qed

theorem grain_mailbox_bounded_witness:
  "\<exists>s. grain_step\<^sup>*\<^sup>* (grain_start 0 1) s \<and> gqueued s = [1] \<and> g_Dequeue (gbox s) = None \<and>
     (\<exists>rest. gqueued s = gtaken s @ rest \<and> int (length rest) \<le> g_Len (gbox s) \<and> g_Len (gbox s) \<le> 1)"
proof -
  obtain s1 s2 where s: "s1 = (grain_start 0 1)\<lparr>gbox := (newGrainMailbox 0 1)\<lparr>g_len := 1\<rparr>, reserving := 1\<rparr>"
    "s2 = s1\<lparr>gbox := snd (g_swap 1 (gbox s1)), reserving := 0, glinking := [(0, 1)], gqueued := [1]\<rparr>" by simp
  have "grain_step (grain_start 0 1) s1"
    using g_admit [of "grain_start 0 1"] by (simp add: s grain_start_def newGrainMailbox_def g_reserve_def)
  moreover have "grain_step s1 s2"
    using g_swapped [of s1 1 0 "snd (g_swap 1 (gbox s1))"]
    by (simp add: s grain_start_def newGrainMailbox_def NewUnboundedMailbox_def gwaiting_def g_swap_def enq_swap_def)
  ultimately have r: "grain_step\<^sup>*\<^sup>* (grain_start 0 1) s2" by (meson rtranclp.rtrancl_into_rtrancl rtranclp.rtrancl_refl)
  from grain_mailbox_bounded [OF r] have "\<exists>rest. gqueued s2 = gtaken s2 @ rest \<and> int (length rest) \<le> g_Len (gbox s2) \<and> g_Len (gbox s2) \<le> 1"
    by fastforce
  moreover have "gqueued s2 = [1] \<and> g_Dequeue (gbox s2) = None"
    by (simp add: s grain_start_def newGrainMailbox_def NewUnboundedMailbox_def g_swap_def enq_swap_def g_Dequeue_def mb_Dequeue_def)
  ultimately show ?thesis using r by blast
qed

end
