(* ===== verification/Fair_Mailbox.thy ===== *)
theory Fair_Mailbox
  imports Mpsc_Mailbox
begin

section \<open>The fair mailbox\<close>

text \<open>
  \<^verbatim>\<open>actor/unbounded_fair_mailbox.go\<close>: one linked mailbox per sender and a queue of the senders that
  have messages. A sender box is a pointer shared between the map of senders and the queue; it is
  named here by its sender's key, which \<^verbatim>\<open>LoadOrStore\<close> makes unique. The nodes of the queue come from
  a pool. In a sender's mailbox the address 0 is the sentinel that was allocated with it, so a
  message has another address.
\<close>

subsection \<open>The queue of active senders\<close>

record activeSenders =
  as_list :: mpsc
  as_value :: "nat \<Rightarrow> string option"
  as_pool :: "nat list"
  as_fresh :: nat

definition newActiveSenders :: activeSenders where
  "newActiveSenders = \<lparr>as_list = NewUnboundedMailbox 0, as_value = (\<lambda>_. None), as_pool = [], as_fresh = 1\<rparr>"

definition as_get :: "activeSenders \<Rightarrow> nat \<times> activeSenders" where
  "as_get q = (case as_pool q of [] \<Rightarrow> (as_fresh q, q\<lparr>as_fresh := as_fresh q + 1\<rparr>) | n # ns \<Rightarrow> (n, q\<lparr>as_pool := ns\<rparr>))"

definition as_enqueue :: "string \<Rightarrow> activeSenders \<Rightarrow> activeSenders" where
  "as_enqueue sq q =
     (case as_get q of (n, q1) \<Rightarrow>
        q1\<lparr>as_value := (as_value q1)(n := Some sq), as_list := snd (mb_Enqueue n (as_list q1))\<rparr>)"

definition as_dequeue :: "activeSenders \<Rightarrow> string option \<times> activeSenders" where
  "as_dequeue q =
     (let head = m_head (as_list q) in
      case mb_Dequeue (as_list q) of
        (None, _) \<Rightarrow> (None, q)
      | (Some next, l) \<Rightarrow>
          (as_value q next, q\<lparr>as_list := l, as_value := (as_value q)(head := None), as_pool := head # as_pool q\<rparr>))"

definition as_contents :: "activeSenders \<Rightarrow> string list" where
  "as_contents q = map (\<lambda>n. the (as_value q n)) (mb_contents (as_list q))"

definition as_used :: "activeSenders \<Rightarrow> nat list" where
  "as_used q = m_head (as_list q) # mb_contents (as_list q)"

definition as_ok :: "activeSenders \<Rightarrow> bool" where
  "as_ok q \<longleftrightarrow> mb_ok (as_list q) \<and> distinct (as_used q @ as_pool q) \<and>
     (\<forall>n \<in> set (as_used q @ as_pool q). n < as_fresh q) \<and> (\<forall>n \<in> set (mb_contents (as_list q)). as_value q n \<noteq> None)"

lemma mb_contents_new [simp]: "mb_contents (NewUnboundedMailbox a) = []"
  by (rule mb_contents_inv [OF mp_inv_new])

lemma mb_ok_new [simp]: "mb_ok (NewUnboundedMailbox a)"
  using mp_inv_new by (auto simp: mb_ok_def)

lemma as_ok_new: "as_ok newActiveSenders \<and> as_contents newActiveSenders = []"
  by (simp add: as_ok_def newActiveSenders_def as_contents_def as_used_def) (simp add: NewUnboundedMailbox_def)

lemma mb_Enqueue_head: "m_head (snd (mb_Enqueue v m)) = m_head m"
  by (simp add: mb_Enqueue_def enq_swap_def enq_link_def)

lemma mb_Dequeue_head: "mb_Dequeue m = (Some v, m') \<Longrightarrow> m_head m' = v"
  by (auto simp: mb_Dequeue_def split: option.splits)

lemma as_get_ok:
  assumes "as_ok q" "as_get q = (n, q1)"
  shows "n \<notin> set (as_used q @ as_pool q1)" "distinct (as_pool q1)" "n < as_fresh q1" "set (as_pool q1) \<subseteq> set (as_pool q)"
    "as_fresh q \<le> as_fresh q1" "as_list q1 = as_list q" "as_value q1 = as_value q"
  using assms by (auto simp: as_ok_def as_get_def split: list.splits)

lemma as_enqueue_ok: "as_ok q \<Longrightarrow> as_ok (as_enqueue sq q) \<and> as_contents (as_enqueue sq q) = as_contents q @ [sq]"
proof -
  assume ok: "as_ok q"
  obtain n q1 where g: "as_get q = (n, q1)" by force
  note n = as_get_ok [OF ok g]
  have "n \<notin> set (m_head (as_list q) # mb_contents (as_list q))" using n(1) by (simp add: as_used_def)
  with ok obtain l where l: "mb_Enqueue n (as_list q) = (True, l)" "mb_ok l" "mb_contents l = mb_contents (as_list q) @ [n]"
    using unbounded.enq_put [of "as_list q" n] by (auto simp: as_ok_def)
  have h: "m_head l = m_head (as_list q)" using mb_Enqueue_head [of n "as_list q"] l(1) by simp
  have e: "as_enqueue sq q = q1\<lparr>as_value := (as_value q)(n := Some sq), as_list := l\<rparr>"
    using g n(6,7) l(1) by (simp add: as_enqueue_def)
  have c: "as_contents (as_enqueue sq q) = as_contents q @ [sq]"
    using n(1) by (auto simp: as_contents_def e l(3) as_used_def)
  have u: "as_used (as_enqueue sq q) = as_used q @ [n]" "as_pool (as_enqueue sq q) = as_pool q1"
    by (simp_all add: as_used_def e l(3) h)
  have "distinct (as_used (as_enqueue sq q) @ as_pool (as_enqueue sq q))" "as_fresh (as_enqueue sq q) = as_fresh q1"
    using ok n(1,2,4) unfolding u by (auto simp: as_ok_def) (simp add: e)
  moreover have "k < as_fresh q1" if "k \<in> set (as_used q @ as_pool q)" for k
    using ok n(5) that unfolding as_ok_def by (meson less_le_trans)
  then have "\<forall>k \<in> set (as_used (as_enqueue sq q) @ as_pool (as_enqueue sq q)). k < as_fresh q1"
    using n(3,4) unfolding u by auto
  ultimately have "as_ok (as_enqueue sq q)"
    using ok l(2) unfolding as_ok_def by (auto simp: e l(3))
  with c show ?thesis by simp
qed

lemma as_dequeue_nil: "as_ok q \<Longrightarrow> as_contents q = [] \<Longrightarrow> as_dequeue q = (None, q)"
  using unbounded.deq_none [of "as_list q"] by (auto simp: as_ok_def as_contents_def as_dequeue_def)

lemma as_dequeue_cons:
  assumes ok: "as_ok q" and c: "as_contents q = sq # r"
  shows "\<exists>q'. as_dequeue q = (Some sq, q') \<and> as_ok q' \<and> as_contents q' = r"
proof -
  obtain n ns where n: "mb_contents (as_list q) = n # ns" "the (as_value q n) = sq" "map (\<lambda>n. the (as_value q n)) ns = r"
    using c by (auto simp: as_contents_def)
  then obtain l where l: "mb_Dequeue (as_list q) = (Some n, l)" "mb_ok l" "mb_contents l = ns"
    using unbounded.deq_some [of "as_list q" n ns] ok by (auto simp: as_ok_def)
  have h: "m_head l = n" by (rule mb_Dequeue_head [OF l(1)])
  let ?h = "m_head (as_list q)"
  let ?q = "q\<lparr>as_list := l, as_value := (as_value q)(?h := None), as_pool := ?h # as_pool q\<rparr>"
  have d: "?h \<notin> set (n # ns)" using ok n(1) by (auto simp: as_ok_def as_used_def)
  have "as_value q n = Some sq" using ok n by (auto simp: as_ok_def)
  then have "as_dequeue q = (Some sq, ?q)" by (simp add: as_dequeue_def l(1) Let_def)
  moreover have "as_ok ?q" using ok n l h d by (auto simp: as_ok_def as_used_def)
  moreover have "as_contents ?q = r" using d by (auto simp: as_contents_def l(3) n(3) [symmetric])
  ultimately show ?thesis by blast
qed

interpretation active: fifo_mailbox as_ok as_contents "\<lambda>_. False" "\<lambda>_ _. True" "\<lambda>sq q. (True, as_enqueue sq q)" as_dequeue
  using as_enqueue_ok as_dequeue_nil as_dequeue_cons by unfold_locales auto

subsection \<open>The mailbox\<close>

record senderBox =
  sb_mailbox :: mpsc
  sb_active :: bool
  sb_pending :: int

record fairMailbox =
  fm_senders :: "string \<Rightarrow> senderBox option"
  fm_active :: activeSenders
  fm_length :: int

definition NewUnboundedFairMailbox :: fairMailbox where
  "NewUnboundedFairMailbox = \<lparr>fm_senders = (\<lambda>_. None), fm_active = newActiveSenders, fm_length = 0\<rparr>"

definition fm_box :: "string \<Rightarrow> fairMailbox \<Rightarrow> senderBox" where
  "fm_box key m = the (fm_senders m key)"

definition set_box :: "string \<Rightarrow> senderBox \<Rightarrow> fairMailbox \<Rightarrow> fairMailbox" where
  "set_box key b m = m\<lparr>fm_senders := (fm_senders m)(key \<mapsto> b)\<rparr>"

text \<open>The atomic actions of \<^verbatim>\<open>Enqueue\<close>, in its order.\<close>

definition fe_load :: "string \<Rightarrow> fairMailbox \<Rightarrow> fairMailbox" where
  "fe_load key m =
     (case fm_senders m key of
        Some b \<Rightarrow> m
      | None \<Rightarrow> set_box key \<lparr>sb_mailbox = NewUnboundedMailbox 0, sb_active = False, sb_pending = 0\<rparr> m)"

definition fe_swap :: "string \<Rightarrow> ctx \<Rightarrow> fairMailbox \<Rightarrow> ctx \<times> fairMailbox" where
  "fe_swap key v m =
     (let b = fm_box key m in case enq_swap v (sb_mailbox b) of (prev, l) \<Rightarrow> (prev, set_box key (b\<lparr>sb_mailbox := l\<rparr>) m))"

definition fe_link :: "string \<Rightarrow> ctx \<Rightarrow> ctx \<Rightarrow> fairMailbox \<Rightarrow> fairMailbox" where
  "fe_link key prev v m =
     (let b = fm_box key m in set_box key (b\<lparr>sb_mailbox := enq_link prev v (sb_mailbox b)\<rparr>) m)"

definition fe_length :: "fairMailbox \<Rightarrow> fairMailbox" where
  "fe_length m = m\<lparr>fm_length := fm_length m + 1\<rparr>"

definition fe_pending :: "string \<Rightarrow> fairMailbox \<Rightarrow> int \<times> fairMailbox" where
  "fe_pending key m =
     (let b = fm_box key m in (sb_pending b + 1, set_box key (b\<lparr>sb_pending := sb_pending b + 1\<rparr>) m))"

definition fe_activate :: "string \<Rightarrow> fairMailbox \<Rightarrow> fairMailbox" where
  "fe_activate key m =
     (let b = fm_box key m in
      if sb_active b then m
      else (set_box key (b\<lparr>sb_active := True\<rparr>) m)\<lparr>fm_active := as_enqueue key (fm_active m)\<rparr>)"

definition fe_finish :: "string \<Rightarrow> fairMailbox \<Rightarrow> fairMailbox" where
  "fe_finish key m = (case fe_pending key (fe_length m) of (pending, m1) \<Rightarrow> if pending = 1 then fe_activate key m1 else m1)"

definition fm_Enqueue :: "string \<Rightarrow> ctx \<Rightarrow> fairMailbox \<Rightarrow> fairMailbox" where
  "fm_Enqueue key v m = (case fe_swap key v (fe_load key m) of (prev, m1) \<Rightarrow> fe_finish key (fe_link key prev v m1))"

definition finalizeSender :: "string \<Rightarrow> int \<Rightarrow> fairMailbox \<Rightarrow> fairMailbox" where
  "finalizeSender key remaining m =
     (if 0 < remaining then m\<lparr>fm_active := as_enqueue key (fm_active m)\<rparr>
      else let b = fm_box key m;
               m1 = set_box key (b\<lparr>sb_pending := (if remaining < 0 then 0 else sb_pending b), sb_active := False\<rparr>) m
           in if 0 < sb_pending (fm_box key m1) then fe_activate key m1 else m1)"

definition fm_Dequeue :: "fairMailbox \<Rightarrow> ctx option \<times> fairMailbox" where
  "fm_Dequeue m =
     (case as_dequeue (fm_active m) of
        (None, q) \<Rightarrow> (None, m)
      | (Some key, q) \<Rightarrow>
          let m1 = m\<lparr>fm_active := q\<rparr>; b = fm_box key m1 in
          case mb_Dequeue (sb_mailbox b) of
            (None, l) \<Rightarrow> (None, set_box key (b\<lparr>sb_active := False\<rparr>) m1)
          | (Some msg, l) \<Rightarrow>
              let remaining = sb_pending b - 1;
                  m2 = (set_box key (b\<lparr>sb_mailbox := l, sb_pending := remaining\<rparr>) m1)\<lparr>fm_length := fm_length m1 - 1\<rparr>
              in (Some msg, finalizeSender key remaining m2))"

definition fm_Len :: "fairMailbox \<Rightarrow> int" where
  "fm_Len m = fm_length m"

definition fm_IsEmpty :: "fairMailbox \<Rightarrow> bool" where
  "fm_IsEmpty m \<longleftrightarrow> fm_Len m = 0"

subsection \<open>The specification: a rotation of senders\<close>

text \<open>
  The mailbox stands for the senders in the order they are served next and for every sender its
  messages. A message of a sender without messages puts the sender at the end of the rotation; the
  sender that is served goes to the end while it has messages.
\<close>

record fair_spec =
  rot :: "string list"
  msgs :: "string \<Rightarrow> ctx list"

definition spec_put :: "string \<Rightarrow> ctx \<Rightarrow> fair_spec \<Rightarrow> fair_spec" where
  "spec_put key v a =
     a\<lparr>rot := (if msgs a key = [] then rot a @ [key] else rot a), msgs := (msgs a)(key := msgs a key @ [v])\<rparr>"

definition spec_take :: "fair_spec \<Rightarrow> ctx option \<times> fair_spec" where
  "spec_take a =
     (case rot a of
        [] \<Rightarrow> (None, a)
      | key # r \<Rightarrow>
          (Some (hd (msgs a key)),
           a\<lparr>rot := (if tl (msgs a key) = [] then r else r @ [key]), msgs := (msgs a)(key := tl (msgs a key))\<rparr>))"

definition rot_ok :: "fair_spec \<Rightarrow> bool" where
  "rot_ok a \<longleftrightarrow> distinct (rot a) \<and> (\<forall>k. k \<in> set (rot a) \<longleftrightarrow> msgs a k \<noteq> [])"

definition box_rel :: "senderBox option \<Rightarrow> ctx list \<Rightarrow> bool" where
  "box_rel sb w \<longleftrightarrow>
     (case sb of
        None \<Rightarrow> w = []
      | Some b \<Rightarrow> mb_ok (sb_mailbox b) \<and> mb_contents (sb_mailbox b) = w \<and> sb_active b = (w \<noteq> []) \<and> sb_pending b = int (length w))"

definition fair_rel :: "fairMailbox \<Rightarrow> fair_spec \<Rightarrow> bool" where
  "fair_rel m a \<longleftrightarrow> rot_ok a \<and> as_ok (fm_active m) \<and> as_contents (fm_active m) = rot a \<and>
     (\<forall>k. box_rel (fm_senders m k) (msgs a k))"

definition fm_free :: "string \<Rightarrow> ctx \<Rightarrow> fairMailbox \<Rightarrow> bool" where
  "fm_free key v m \<longleftrightarrow>
     (let b = sb_mailbox (fm_box key (fe_load key m)) in v \<notin> set (m_head b # mb_contents b))"

lemma rot_ok_put: "rot_ok a \<Longrightarrow> rot_ok (spec_put key v a)"
  by (auto simp: rot_ok_def spec_put_def)

lemma rot_ok_take:
  assumes "rot_ok a"
  shows "rot_ok (snd (spec_take a))"
proof (cases "rot a")
  case (Cons key r)
  let ?t = "tl (msgs a key)"
  have d: "distinct r" "key \<notin> set r" and mem: "msgs a k \<noteq> [] \<longleftrightarrow> k = key \<or> k \<in> set r" for k
    using assms Cons unfolding rot_ok_def by (simp, simp, metis list.set_intros set_ConsD)
  have "k \<in> set (if ?t = [] then r else r @ [key]) \<longleftrightarrow> ((msgs a)(key := ?t)) k \<noteq> []" for k
    using mem [of k] d(2) by (cases "k = key") auto
  then show ?thesis using Cons d by (simp add: rot_ok_def spec_take_def)
qed (use assms in \<open>simp add: spec_take_def\<close>)

lemma fair_rel_new: "fair_rel NewUnboundedFairMailbox \<lparr>rot = [], msgs = \<lambda>_. []\<rparr>"
  using as_ok_new by (simp add: fair_rel_def rot_ok_def box_rel_def NewUnboundedFairMailbox_def)

lemma set_box_simps [simp]:
  "fm_senders (set_box k b m) = (fm_senders m)(k \<mapsto> b)" "fm_active (set_box k b m) = fm_active m"
  "fm_length (set_box k b m) = fm_length m" "fm_box k (set_box k b m) = b" "set_box k b (set_box k c m) = set_box k b m"
  by (simp_all add: set_box_def fm_box_def)

lemma fair_rel_box: "fair_rel m a \<Longrightarrow> box_rel (fm_senders m k) (msgs a k)"
  by (simp add: fair_rel_def)

lemma fe_load_rel: "fair_rel m a \<Longrightarrow> fair_rel (fe_load key m) a \<and> fm_senders (fe_load key m) key \<noteq> None"
  using fair_rel_box [of m a key]
  by (cases "fm_senders m key") (simp_all add: fair_rel_def fe_load_def box_rel_def)

text \<open>The effect of the whole \<^verbatim>\<open>Enqueue\<close> on the box of its sender.\<close>

lemma fm_Enqueue_eq:
  "fm_Enqueue key v m =
     (let m0 = fe_load key m; b = fm_box key m0; l = snd (mb_Enqueue v (sb_mailbox b)); p = sb_pending b + 1;
          m1 = set_box key (b\<lparr>sb_mailbox := l, sb_pending := p\<rparr>) (m0\<lparr>fm_length := fm_length m0 + 1\<rparr>)
      in if p = 1 then fe_activate key m1 else m1)"
  by (auto simp: fm_Enqueue_def fe_swap_def fe_link_def fe_finish_def fe_length_def fe_pending_def mb_Enqueue_def Let_def
      set_box_def fm_box_def split: prod.splits)

lemma fm_Enqueue_spec:
  assumes rel: "fair_rel m a" and free: "fm_free key v m"
  shows "fair_rel (fm_Enqueue key v m) (spec_put key v a)"
proof -
  let ?m = "fe_load key m"
  have rel': "fair_rel ?m a" and "fm_senders ?m key \<noteq> None" using fe_load_rel [OF rel] by auto
  then obtain b where b: "fm_senders ?m key = Some b" by blast
  then have bm: "fm_box key ?m = b" by (simp add: fm_box_def)
  have br: "mb_ok (sb_mailbox b)" "mb_contents (sb_mailbox b) = msgs a key" "sb_active b = (msgs a key \<noteq> [])"
      "sb_pending b = int (length (msgs a key))"
    using fair_rel_box [OF rel', of key] b by (simp_all add: box_rel_def)
  obtain l where l: "mb_Enqueue v (sb_mailbox b) = (True, l)" "mb_ok l" "mb_contents l = msgs a key @ [v]"
    using unbounded.enq_put [of "sb_mailbox b" v] br(1,2) free bm by (auto simp: fm_free_def Let_def)
  have act: "as_ok (as_enqueue key (fm_active ?m))" "as_contents (as_enqueue key (fm_active ?m)) = rot a @ [key]"
    using as_enqueue_ok [of "fm_active ?m" key] rel' by (auto simp: fair_rel_def)
  show ?thesis
  proof (cases "msgs a key = []")
    case True
    then show ?thesis
      using rel' rot_ok_put [of a key v] act br l bm
      by (auto simp: fm_Enqueue_eq Let_def fair_rel_def spec_put_def fe_activate_def fm_box_def box_rel_def)
  next
    case False
    then show ?thesis
      using rel' rot_ok_put [of a key v] br l bm by (auto simp: fm_Enqueue_eq Let_def fair_rel_def spec_put_def box_rel_def)
  qed
qed

lemma fm_Dequeue_spec:
  assumes rel: "fair_rel m a"
  shows "\<exists>m'. fm_Dequeue m = (fst (spec_take a), m') \<and> fair_rel m' (snd (spec_take a))"
proof (cases "rot a")
  case Nil
  then show ?thesis
    using rel as_dequeue_nil [of "fm_active m"] by (auto simp: fm_Dequeue_def fair_rel_def spec_take_def)
next
  case (Cons key r)
  obtain q where q: "as_dequeue (fm_active m) = (Some key, q)" "as_ok q" "as_contents q = r"
    using as_dequeue_cons [of "fm_active m" key r] rel Cons by (auto simp: fair_rel_def)
  have ne: "msgs a key \<noteq> []" using rel Cons by (auto simp: fair_rel_def rot_ok_def)
  then obtain v w where w: "msgs a key = v # w" by (cases "msgs a key") auto
  have "box_rel (fm_senders m key) (v # w)" using fair_rel_box [OF rel, of key] w by simp
  then obtain b where b: "fm_senders m key = Some b" "mb_ok (sb_mailbox b)" "mb_contents (sb_mailbox b) = v # w" "sb_active b"
      "sb_pending b = int (length (v # w))"
    by (auto simp: box_rel_def split: option.splits)
  obtain l where l: "mb_Dequeue (sb_mailbox b) = (Some v, l)" "mb_ok l" "mb_contents l = w"
    using unbounded.deq_some [OF b(2,3)] by blast
  have act: "as_ok (as_enqueue key q)" "as_contents (as_enqueue key q) = r @ [key]" using as_enqueue_ok [OF q(2), of key] q(3) by auto
  let ?b = "\<lambda>act. b\<lparr>sb_mailbox := l, sb_pending := int (length w), sb_active := act\<rparr>"
  let ?m' = "(set_box key (?b (w \<noteq> [])) (m\<lparr>fm_active := (if w = [] then q else as_enqueue key q)\<rparr>))\<lparr>fm_length := fm_length m - 1\<rparr>"
  have ba: "b\<lparr>sb_mailbox := l, sb_pending := p, sb_active := True\<rparr> = b\<lparr>sb_mailbox := l, sb_pending := p\<rparr>" for p
    using b(4) by (cases b) simp
  have d: "fm_Dequeue m = (Some v, ?m')"
    using b l q(1) by (cases w) (auto simp: ba fm_Dequeue_def Let_def fm_box_def finalizeSender_def set_box_def)
  have "fair_rel ?m' (snd (spec_take a))"
    using rot_ok_take [of a] rel Cons w q act l by (auto simp: fair_rel_def spec_take_def box_rel_def)
  moreover have "fst (spec_take a) = Some v" using Cons w by (simp add: spec_take_def)
  ultimately show ?thesis using d by simp
qed

subsection \<open>Runs\<close>

text \<open>\<open>sender\<close> is \<^verbatim>\<open>deriveSenderKey\<close>: the identity of the sender a message carries.\<close>

fun fm_run :: "(ctx \<Rightarrow> string) \<Rightarrow> ctx box_op list \<Rightarrow> fairMailbox \<Rightarrow> ctx list \<times> fairMailbox" where
  "fm_run sender [] m = ([], m)"
| "fm_run sender (Put v # ops) m = fm_run sender ops (fm_Enqueue (sender v) v m)"
| "fm_run sender (Take # ops) m =
     (case fm_Dequeue m of (r, m1) \<Rightarrow>
        (case fm_run sender ops m1 of (outs, m2) \<Rightarrow> ((case r of None \<Rightarrow> outs | Some v \<Rightarrow> v # outs), m2)))"

fun fm_allowed :: "(ctx \<Rightarrow> string) \<Rightarrow> ctx box_op list \<Rightarrow> fairMailbox \<Rightarrow> bool" where
  "fm_allowed sender [] m = True"
| "fm_allowed sender (Put v # ops) m = (fm_free (sender v) v m \<and> fm_allowed sender ops (fm_Enqueue (sender v) v m))"
| "fm_allowed sender (Take # ops) m = fm_allowed sender ops (snd (fm_Dequeue m))"

fun spec_run :: "(ctx \<Rightarrow> string) \<Rightarrow> ctx box_op list \<Rightarrow> fair_spec \<Rightarrow> ctx list \<times> fair_spec" where
  "spec_run sender [] a = ([], a)"
| "spec_run sender (Put v # ops) a = spec_run sender ops (spec_put (sender v) v a)"
| "spec_run sender (Take # ops) a =
     (case spec_take a of (r, a1) \<Rightarrow>
        (case spec_run sender ops a1 of (outs, a2) \<Rightarrow> ((case r of None \<Rightarrow> outs | Some v \<Rightarrow> v # outs), a2)))"

fun puts :: "'m box_op list \<Rightarrow> 'm list" where
  "puts [] = []"
| "puts (Put v # ops) = v # puts ops"
| "puts (Take # ops) = puts ops"

fun takes :: "'m box_op list \<Rightarrow> nat" where
  "takes [] = 0"
| "takes (Put v # ops) = takes ops"
| "takes (Take # ops) = Suc (takes ops)"

definition fm_waiting :: "string \<Rightarrow> fairMailbox \<Rightarrow> ctx list" where
  "fm_waiting key m = (case fm_senders m key of None \<Rightarrow> [] | Some b \<Rightarrow> mb_contents (sb_mailbox b))"

lemma fm_run_refines:
  "fair_rel m a \<Longrightarrow> fm_allowed sender ops m \<Longrightarrow> fm_run sender ops m = (outs, m') \<Longrightarrow>
     \<exists>a'. spec_run sender ops a = (outs, a') \<and> fair_rel m' a'"
proof (induction sender ops m arbitrary: a outs rule: fm_run.induct)
  case (2 sender v ops m)
  then show ?case using fm_Enqueue_spec [of m a "sender v" v] by auto
next
  case (3 sender ops m)
  obtain m1 where m1: "fm_Dequeue m = (fst (spec_take a), m1)" "fair_rel m1 (snd (spec_take a))"
    using fm_Dequeue_spec [OF "3.prems"(1)] by blast
  obtain o1 where o1: "fm_run sender ops m1 = (o1, m')" "outs = (case fst (spec_take a) of None \<Rightarrow> o1 | Some v \<Rightarrow> v # o1)"
    using "3.prems"(3) m1(1) by (auto split: prod.splits)
  then show ?case using "3.IH" [OF m1(1) [symmetric] m1(2) _ o1(1)] "3.prems"(2) m1(1) by (auto simp: case_prod_unfold split: option.splits)
qed simp

definition owned :: "(ctx \<Rightarrow> string) \<Rightarrow> fair_spec \<Rightarrow> bool" where
  "owned sender a \<longleftrightarrow> (\<forall>k. \<forall>v \<in> set (msgs a k). sender v = k)"

lemma spec_take_step:
  assumes "rot_ok a" "owned sender a" "spec_take a = (r, a1)"
  shows "owned sender a1 \<and> msgs a k = filter (\<lambda>v. sender v = k) (case r of None \<Rightarrow> [] | Some v \<Rightarrow> [v]) @ msgs a1 k"
proof (cases "rot a")
  case (Cons key s)
  then have "msgs a key \<noteq> []" using assms(1) by (auto simp: rot_ok_def)
  then obtain v w where w: "msgs a key = v # w" by (cases "msgs a key") auto
  then have "sender v = key" "\<forall>u \<in> set w. sender u = key" using assms(2) by (force simp: owned_def)+
  then show ?thesis using assms(2,3) Cons w by (auto simp: spec_take_def owned_def split: if_splits)
qed (use assms in \<open>simp add: spec_take_def\<close>)

lemma spec_fifo:
  "rot_ok a \<Longrightarrow> owned sender a \<Longrightarrow> spec_run sender ops a = (outs, a') \<Longrightarrow>
     msgs a k @ filter (\<lambda>v. sender v = k) (puts ops) = filter (\<lambda>v. sender v = k) outs @ msgs a' k"
proof (induction sender ops a arbitrary: outs rule: spec_run.induct)
  case (2 sender v ops a)
  moreover have "owned sender (spec_put (sender v) v a)" using "2.prems"(2) by (auto simp: owned_def spec_put_def)
  ultimately have "msgs (spec_put (sender v) v a) k @ filter (\<lambda>v. sender v = k) (puts ops) = filter (\<lambda>v. sender v = k) outs @ msgs a' k"
    using rot_ok_put by simp
  then show ?case by (auto simp: spec_put_def split: if_splits)
next
  case (3 sender ops a)
  obtain r a1 where t: "spec_take a = (r, a1)" by force
  obtain o1 where o1: "spec_run sender ops a1 = (o1, a')" "outs = (case r of None \<Rightarrow> o1 | Some v \<Rightarrow> v # o1)"
    using "3.prems"(3) t by (auto split: prod.splits)
  have "rot_ok a1" using rot_ok_take [OF "3.prems"(1)] t by simp
  with "3.IH" [OF t [symmetric] this _ o1(1)] spec_take_step [OF "3.prems"(1,2) t, of k]
  show ?case using o1(2) by (auto split: option.splits)
qed simp

lemma spec_fair:
  "rot_ok a \<Longrightarrow> rot a = pre @ k # post \<Longrightarrow> takes ops = length pre \<Longrightarrow>
     length (fst (spec_run sender (ops @ [Take]) a)) = Suc (length pre) \<and> last (fst (spec_run sender (ops @ [Take]) a)) = hd (msgs a k)"
proof (induction sender ops a arbitrary: pre post rule: spec_run.induct)
  case (1 sender a)
  then show ?case by (simp add: spec_take_def)
next
  case (2 sender v ops a)
  have "msgs a k \<noteq> []" using "2.prems"(1,2) by (auto simp: rot_ok_def)
  moreover have "rot (spec_put (sender v) v a) = pre @ k # (post @ (if msgs a (sender v) = [] then [sender v] else []))"
    using "2.prems"(2) by (simp add: spec_put_def)
  ultimately show ?case using "2.IH" [OF rot_ok_put [OF "2.prems"(1)]] "2.prems"(3) by (auto simp: spec_put_def)
next
  case (3 sender ops a)
  then obtain j pre' where pre: "pre = j # pre'" by (cases pre) auto
  obtain r a1 where t: "spec_take a = (r, a1)" by force
  then have r: "r = Some (hd (msgs a j))" "rot_ok a1" using "3.prems"(2) rot_ok_take [OF "3.prems"(1)] pre by (auto simp: spec_take_def)
  have "j \<noteq> k" using "3.prems"(1,2) pre by (auto simp: rot_ok_def)
  then have "msgs a1 k = msgs a k" using t "3.prems"(2) pre by (auto simp: spec_take_def)
  moreover have "rot a1 = pre' @ k # (post @ (if tl (msgs a j) = [] then [] else [j]))" using t "3.prems"(2) pre by (auto simp: spec_take_def)
  ultimately have "length (fst (spec_run sender (ops @ [Take]) a1)) = Suc (length pre') \<and> last (fst (spec_run sender (ops @ [Take]) a1)) = hd (msgs a k)"
    using "3.IH" [OF t [symmetric] r(2)] "3.prems"(3) pre by simp
  then show ?case using t r pre by (auto simp: case_prod_unfold)
qed

lemma fm_Enqueue_length: "fm_length (fm_Enqueue key v m) = fm_length m + 1"
  by (simp add: fm_Enqueue_eq Let_def fe_activate_def fe_load_def split: option.splits)

lemma fm_Dequeue_length: "fm_Dequeue m = (r, m') \<Longrightarrow> fm_length m' = fm_length m - (if r = None then 0 else 1)"
  by (auto simp: fm_Dequeue_def finalizeSender_def fe_activate_def Let_def split: prod.splits option.splits if_splits)

lemma fm_run_length: "fm_run sender ops m = (outs, m') \<Longrightarrow> fm_length m' = fm_length m + int (length (puts ops)) - int (length outs)"
proof (induction sender ops m arbitrary: outs rule: fm_run.induct)
  case (2 sender v ops m)
  then show ?case by (auto simp: fm_Enqueue_length)
next
  case (3 sender ops m)
  obtain r m1 where t: "fm_Dequeue m = (r, m1)" by force
  obtain o1 where o1: "fm_run sender ops m1 = (o1, m')" "outs = (case r of None \<Rightarrow> o1 | Some v \<Rightarrow> v # o1)"
    using "3.prems" t by (auto split: prod.splits)
  then show ?case using "3.IH" [OF t [symmetric] o1(1)] fm_Dequeue_length [OF t] by (auto split: option.splits)
qed simp

text \<open>
  C5. The fair mailbox, from its creation through any sequence of \<^verbatim>\<open>Enqueue\<close> and \<^verbatim>\<open>Dequeue\<close> calls:
  the messages of one sender come out in the order they went in and none is lost; \<^verbatim>\<open>Len\<close> is the
  number of messages inside; exactly the senders with messages are in the rotation; and the sender
  at place \<open>i\<close> of the rotation is served by the \<open>i\<close>-th \<^verbatim>\<open>Dequeue\<close> from then on, whatever is enqueued
  in the meantime.
\<close>

theorem fair_mailbox:
  assumes "fm_allowed sender ops NewUnboundedFairMailbox" "fm_run sender ops NewUnboundedFairMailbox = (outs, m)"
  shows "filter (\<lambda>v. sender v = k) (puts ops) = filter (\<lambda>v. sender v = k) outs @ fm_waiting k m \<and>
    fm_Len m = int (length (puts ops)) - int (length outs) \<and>
    (k \<in> set (as_contents (fm_active m)) \<longleftrightarrow> fm_waiting k m \<noteq> []) \<and>
    (as_contents (fm_active m) = pre @ k # post \<and> fm_allowed sender (ops' @ [Take]) m \<and> takes ops' = length pre \<longrightarrow>
       (let served = fst (fm_run sender (ops' @ [Take]) m)
        in length served = Suc (length pre) \<and> last served = hd (fm_waiting k m)))"
proof -
  let ?a0 = "\<lparr>rot = [], msgs = \<lambda>_. []\<rparr>"
  obtain a where a: "spec_run sender ops ?a0 = (outs, a)" "fair_rel m a"
    using fm_run_refines [OF fair_rel_new assms] by blast
  have w: "fm_waiting k m = msgs a k" for k
    using fair_rel_box [OF a(2), of k] by (auto simp: fm_waiting_def box_rel_def split: option.splits)
  have ra: "rot_ok a" "as_contents (fm_active m) = rot a" using a(2) by (auto simp: fair_rel_def)
  have "rot_ok ?a0" "owned sender ?a0" by (simp_all add: rot_ok_def owned_def)
  from spec_fifo [OF this a(1), of k] have fifo: "filter (\<lambda>v. sender v = k) (puts ops) = filter (\<lambda>v. sender v = k) outs @ fm_waiting k m"
    by (simp add: w)
  have len: "fm_Len m = int (length (puts ops)) - int (length outs)"
    using fm_run_length [OF assms(2)] by (simp add: fm_Len_def NewUnboundedFairMailbox_def)
  have "length (fst (fm_run sender (ops' @ [Take]) m)) = Suc (length pre) \<and> last (fst (fm_run sender (ops' @ [Take]) m)) = hd (msgs a k)"
    if "as_contents (fm_active m) = pre @ k # post" "fm_allowed sender (ops' @ [Take]) m" "takes ops' = length pre"
  proof -
    obtain s m' where r: "fm_run sender (ops' @ [Take]) m = (s, m')" by force
    from fm_run_refines [OF a(2) that(2) r] obtain a' where "spec_run sender (ops' @ [Take]) a = (s, a')" by blast
    with spec_fair [OF ra(1) _ that(3), of k post sender] that(1) ra(2) r show ?thesis by simp
  qed
  moreover have "k \<in> set (as_contents (fm_active m)) \<longleftrightarrow> fm_waiting k m \<noteq> []" using ra w by (auto simp: rot_ok_def)
  ultimately show ?thesis using fifo len by (simp add: w Let_def)
qed

theorem fair_mailbox_witness:
  "let sender = (\<lambda>v. if v < 3 then ''a'' else ''b'');
       m = snd (fm_run sender [Put 1, Put 2, Put 3] NewUnboundedFairMailbox);
       served = fst (fm_run sender ([Take] @ [Take]) m)
   in length served = 2 \<and> last served = hd (fm_waiting ''b'' m)"
proof -
  let ?s = "\<lambda>v :: nat. if v < 3 then ''a'' else ''b''"
  let ?ops = "[Put 1, Put 2, Put 3] :: nat box_op list"
  define m where "m = snd (fm_run ?s ?ops NewUnboundedFairMailbox)"
  define outs where "outs = fst (fm_run ?s ?ops NewUnboundedFairMailbox)"
  have r: "fm_run ?s ?ops NewUnboundedFairMailbox = (outs, m)" unfolding m_def outs_def by (rule prod.collapse [symmetric])
  have a: "fm_allowed ?s ?ops NewUnboundedFairMailbox" by code_simp
  have "as_contents (fm_active m) = [''a''] @ ''b'' # []" unfolding m_def by code_simp
  moreover have "fm_allowed ?s ([Take] @ [Take]) m" unfolding m_def by code_simp
  moreover have "takes [Take] = length [''a'']" by simp
  ultimately have "let served = fst (fm_run ?s ([Take] @ [Take]) m) in length served = 2 \<and> last served = hd (fm_waiting ''b'' m)"
    using fair_mailbox [OF a r, of "''b''" "[''a'']" "[]" "[Take]"] by (simp only: Let_def list.size One_nat_def [symmetric] numeral_2_eq_2 plus_nat.simps) blast
  then show ?thesis unfolding Let_def m_def .
qed

subsection \<open>Two goroutines of one sender\<close>

text \<open>
  A sender's messages may come from several goroutines, as all messages without a sender do. One of
  them is between the two actions of the inner \<^verbatim>\<open>Enqueue\<close> while another enqueues and the consumer
  runs: the consumer finds the sender's list not yet linked and takes the sender out of the rotation.
\<close>

definition fair_race :: "string \<Rightarrow> ctx \<Rightarrow> ctx \<Rightarrow> ctx option \<times> fairMailbox" where
  "fair_race key v1 v2 =
     (case fe_swap key v1 (fe_load key NewUnboundedFairMailbox) of (prev, m1) \<Rightarrow>
      case fm_Dequeue (fm_Enqueue key v2 m1) of (r, m2) \<Rightarrow> (r, fe_finish key (fe_link key prev v1 m2)))"

definition stuck :: "string \<Rightarrow> int \<Rightarrow> fairMailbox \<Rightarrow> bool" where
  "stuck key n m \<longleftrightarrow> as_ok (fm_active m) \<and> key \<notin> set (as_contents (fm_active m)) \<and>
     (\<exists>b. fm_senders m key = Some b \<and> sb_pending b = n \<and> 1 \<le> n \<and> m_head (sb_mailbox b) = 0)"

lemma stuck_enqueue: "stuck key n m \<Longrightarrow> stuck key (if k = key then n + 1 else n) (fm_Enqueue k v m)"
proof -
  assume st: "stuck key n m"
  then have q: "as_ok (as_enqueue k (fm_active m))" "k \<noteq> key \<Longrightarrow> key \<notin> set (as_contents (as_enqueue k (fm_active m)))"
    using as_enqueue_ok [of "fm_active m" k] by (auto simp: stuck_def)
  have l: "fm_active (fe_load k m) = fm_active m" "k \<noteq> key \<Longrightarrow> fm_senders (fe_load k m) key = fm_senders m key"
    by (auto simp: fe_load_def split: option.splits)
  have "fe_load key m = m" using st by (auto simp: stuck_def fe_load_def)
  with st q l mb_Enqueue_head [of v] show ?thesis
    by (cases "k = key") (auto simp: stuck_def fm_Enqueue_eq fe_activate_def Let_def fm_box_def)
qed

lemma stuck_dequeue: "stuck key n m \<Longrightarrow> stuck key n (snd (fm_Dequeue m))"
proof -
  assume st: "stuck key n m"
  show ?thesis
  proof (cases "as_contents (fm_active m)")
    case Nil
    then show ?thesis using st as_dequeue_nil [of "fm_active m"] by (simp add: stuck_def fm_Dequeue_def)
  next
    case (Cons k r)
    then obtain q where q: "as_dequeue (fm_active m) = (Some k, q)" "as_ok q" "as_contents q = r"
      using as_dequeue_cons [of "fm_active m" k r] st by (auto simp: stuck_def)
    moreover have "k \<noteq> key" "key \<notin> set r" using st Cons by (auto simp: stuck_def)
    moreover have "as_ok (as_enqueue k q)" "key \<notin> set (as_contents (as_enqueue k q))"
      using as_enqueue_ok [OF q(2), of k] q(3) calculation by auto
    ultimately show ?thesis
      using st by (auto simp: stuck_def fm_Dequeue_def finalizeSender_def fe_activate_def Let_def split: prod.splits option.splits)
  qed
qed

lemma stuck_run: "stuck key n m \<Longrightarrow> stuck key (n + int (length (filter (\<lambda>v. sender v = key) (puts ops)))) (snd (fm_run sender ops m))"
proof (induction sender ops m arbitrary: n rule: fm_run.induct)
  case (2 sender v ops m)
  from "2.IH" [OF stuck_enqueue [OF "2.prems"]] show ?case by (auto simp: algebra_simps)
next
  case (3 sender ops m)
  from "3.IH" [OF prod.collapse stuck_dequeue [OF "3.prems"]] show ?case by (auto simp: case_prod_unfold)
qed simp

lemma fair_race_eq:
  "fair_race key 2 3 =
     (None,
      \<lparr>fm_senders = [key \<mapsto> \<lparr>sb_mailbox = \<lparr>m_next = [2 \<mapsto> 3, 0 \<mapsto> 2], m_head = 0, m_tail = 3\<rparr>, sb_active = False, sb_pending = 2\<rparr>],
       fm_active = snd (as_dequeue (as_enqueue key newActiveSenders)), fm_length = 2\<rparr>)"
proof -
  obtain q where q: "as_dequeue (as_enqueue key newActiveSenders) = (Some key, q)"
    using as_enqueue_ok [of newActiveSenders key] as_dequeue_cons [of "as_enqueue key newActiveSenders" key "[]"] as_ok_new by auto
  show ?thesis
    by (simp add: fair_race_def NewUnboundedFairMailbox_def fe_load_def fe_swap_def fm_Enqueue_eq fe_activate_def fe_finish_def fe_link_def
        fe_length_def fe_pending_def fm_Dequeue_def q fm_box_def set_box_def enq_swap_def enq_link_def mb_Enqueue_def mb_Dequeue_def
        NewUnboundedMailbox_def Let_def fun_upd_def fun_eq_iff)
qed

lemma fair_race_queue: "as_ok (fm_active (snd (fair_race key 2 3))) \<and> as_contents (fm_active (snd (fair_race key 2 3))) = []"
  using as_enqueue_ok [of newActiveSenders key] as_dequeue_cons [of "as_enqueue key newActiveSenders" key "[]"] as_ok_new
  by (auto simp: fair_race_eq)

text \<open>
  C35. Two goroutines that send in the name of one sender can starve it: in this interleaving the
  consumer's \<^verbatim>\<open>Dequeue\<close> returns nothing, two messages remain inside, and in every later run nothing
  is ever taken from that sender's mailbox, while every further message of the sender stays pending.
\<close>

theorem fair_mailbox_starves:
  "fst (fair_race key 2 3) = None \<and> fm_Len (snd (fair_race key 2 3)) = 2 \<and>
   (\<exists>b. fm_senders (snd (fm_run sender ops (snd (fair_race key 2 3)))) key = Some b \<and>
     m_head (sb_mailbox b) = m_head (NewUnboundedMailbox 0) \<and>
     sb_pending b = 2 + int (length (filter (\<lambda>v. sender v = key) (puts ops))))"
proof -
  have "stuck key 2 (snd (fair_race key 2 3))" using fair_race_queue [of key] by (simp add: stuck_def) (simp add: fair_race_eq)
  from stuck_run [OF this, of sender ops] show ?thesis
    by (auto simp: stuck_def NewUnboundedMailbox_def) (simp_all add: fair_race_eq fm_Len_def)
qed

end
