(* ===== verification/Lockfree_Queue.thy ===== *)
theory Lockfree_Queue
  imports Mpsc_Mailbox
begin

section \<open>The lock-free queue\<close>

text \<open>
  \<^verbatim>\<open>internal/queue/queue.go\<close>: a linked queue with compare-and-swap on the head, the tail and the \<^verbatim>\<open>next\<close>
  field of the last node, whose nodes are recycled through a pool. Nodes are numbers; a node that
  was never allocated is at or above \<open>q_fresh\<close>. The pool may drop its items at any time
  (\<open>q_collect\<close>). Both operations are loops: a call that never returns is \<^const>\<open>None\<close>.
\<close>

record 'v lfq =
  q_next :: "nat \<Rightarrow> nat option"
  q_v :: "nat \<Rightarrow> 'v option"
  q_head :: nat
  q_tail :: nat
  q_len :: int
  q_pool :: "nat list"
  q_fresh :: nat

definition NewQueue :: "'v lfq" where
  "NewQueue = \<lparr>q_next = (\<lambda>_. None), q_v = (\<lambda>_. None), q_head = 0, q_tail = 0, q_len = 0, q_pool = [], q_fresh = 1\<rparr>"

definition getItem :: "'v lfq \<Rightarrow> nat \<times> 'v lfq" where
  "getItem q = (case q_pool q of [] \<Rightarrow> (q_fresh q, q\<lparr>q_fresh := q_fresh q + 1\<rparr>) | n # ns \<Rightarrow> (n, q\<lparr>q_pool := ns\<rparr>))"

definition releaseItem :: "nat \<Rightarrow> 'v lfq \<Rightarrow> 'v lfq" where
  "releaseItem n q = q\<lparr>q_v := (q_v q)(n := None), q_next := (q_next q)(n := None), q_pool := n # q_pool q\<rparr>"

definition q_collect :: "'v lfq \<Rightarrow> 'v lfq" where
  "q_collect q = q\<lparr>q_pool := []\<rparr>"

text \<open>The compare-and-swap actions.\<close>

definition cas_next :: "nat \<Rightarrow> nat \<Rightarrow> 'v lfq \<Rightarrow> bool \<times> 'v lfq" where
  "cas_next a n q = (if q_next q a = None then (True, q\<lparr>q_next := (q_next q)(a := Some n)\<rparr>) else (False, q))"

definition cas_tail :: "nat \<Rightarrow> nat \<Rightarrow> 'v lfq \<Rightarrow> 'v lfq" where
  "cas_tail old new q = (if q_tail q = old then q\<lparr>q_tail := new\<rparr> else q)"

definition cas_head :: "nat \<Rightarrow> nat \<Rightarrow> 'v lfq \<Rightarrow> bool \<times> 'v lfq" where
  "cas_head old new q = (if q_head q = old then (True, q\<lparr>q_head := new\<rparr>) else (False, q))"

definition q_node :: "'v \<Rightarrow> 'v lfq \<Rightarrow> nat \<times> 'v lfq" where
  "q_node v q = (case getItem q of (n, q1) \<Rightarrow> (n, q1\<lparr>q_v := (q_v q1)(n := Some v)\<rparr>))"

definition q_linked :: "nat \<Rightarrow> nat \<Rightarrow> 'v lfq \<Rightarrow> 'v lfq" where
  "q_linked tail n q = (let q1 = cas_tail tail n q in q1\<lparr>q_len := q_len q1 + 1\<rparr>)"

partial_function (option) q_put :: "nat \<Rightarrow> 'v lfq \<Rightarrow> 'v lfq option" where
  "q_put n q =
     (let tail = q_tail q in
      case q_next q tail of
        Some next \<Rightarrow> q_put n (cas_tail tail next q)
      | None \<Rightarrow> (case cas_next tail n q of (swapped, q1) \<Rightarrow> if swapped then Some (q_linked tail n q1) else q_put n q1))"

definition q_Enqueue :: "'v \<Rightarrow> 'v lfq \<Rightarrow> 'v lfq option" where
  "q_Enqueue v q = (case q_node v q of (n, q1) \<Rightarrow> q_put n q1)"

definition q_taken :: "nat \<Rightarrow> nat \<Rightarrow> 'v lfq \<Rightarrow> 'v option \<times> 'v lfq" where
  "q_taken head next q = (let q1 = releaseItem head q in (q_v q next, q1\<lparr>q_len := q_len q1 - 1\<rparr>))"

partial_function (option) q_Dequeue :: "'v lfq \<Rightarrow> ('v option \<times> 'v lfq) option" where
  "q_Dequeue q =
     (let head = q_head q in
      case q_next q head of
        None \<Rightarrow> Some (None, q)
      | Some next \<Rightarrow> (case cas_head head next q of (swapped, q1) \<Rightarrow> if swapped then Some (q_taken head next q1) else q_Dequeue q1))"

definition q_Length :: "'v lfq \<Rightarrow> u64" where
  "q_Length q = word_of_int (q_len q)"

definition q_IsEmpty :: "'v lfq \<Rightarrow> bool" where
  "q_IsEmpty q \<longleftrightarrow> q_len q = 0"

subsection \<open>One thread at a time\<close>

text \<open>\<open>chain q a ns\<close>: the list from node \<open>a\<close> goes through \<open>ns\<close> to the tail; no node of it is in the pool.\<close>

definition chain :: "'v lfq \<Rightarrow> nat \<Rightarrow> nat list \<Rightarrow> bool" where
  "chain q a ns \<longleftrightarrow> distinct (a # ns @ q_pool q) \<and> (\<forall>n \<in> set (a # ns @ q_pool q). n < q_fresh q) \<and>
     links (q_next q) {} a ns \<and> q_tail q = last (a # ns) \<and> (\<forall>n. n \<in> set (q_pool q) \<or> q_fresh q \<le> n \<longrightarrow> q_next q n = None)"

lemma links_last: "links nx {} a ns \<Longrightarrow> nx (last (a # ns)) = None"
  by (induction ns arbitrary: a) auto

lemma links_append_fresh:
  "links nx {} a ns \<Longrightarrow> distinct (a # ns @ [n]) \<Longrightarrow> nx n = None \<Longrightarrow> links (nx(last (a # ns) := Some n)) {} a (ns @ [n])"
proof (induction ns arbitrary: a)
  case (Cons b bs)
  have l: "links nx {} b bs" "distinct (b # bs @ [n])" using Cons.prems(1,2) by auto
  have "a \<noteq> last (b # bs)" using Cons.prems(2) last_in_set [of "b # bs"] by auto
  then show ?case using Cons.IH [OF l Cons.prems(3)] Cons.prems(1) by (simp del: fun_upd_apply add: fun_upd_other)
qed simp

lemma q_node_chain:
  assumes "chain q a ns" "q_node v q = (n, q1)"
  shows "n \<notin> set (a # ns @ q_pool q1)" "distinct (a # ns @ q_pool q1)" "\<forall>k \<in> set (n # a # ns @ q_pool q1). k < q_fresh q1"
    "q_next q1 = q_next q" "q_next q n = None" "q_tail q1 = q_tail q" "q_head q1 = q_head q" "q_len q1 = q_len q"
    "q_v q1 = (q_v q)(n := Some v)" "\<forall>k. k \<in> set (q_pool q1) \<or> q_fresh q1 \<le> k \<longrightarrow> q_next q k = None"
    "n \<in> insert (q_fresh q) (set (q_pool q))" "set (q_pool q1) \<subseteq> set (q_pool q)" "q_fresh q \<le> q_fresh q1"
  using assms by (auto simp: chain_def q_node_def getItem_def split: list.splits)

lemma q_put_last:
  assumes "q_next q (q_tail q) = None"
  shows "q_put n q = Some (q\<lparr>q_next := (q_next q)(q_tail q := Some n), q_tail := n, q_len := q_len q + 1\<rparr>)"
  using assms by (subst q_put.simps) (simp add: cas_next_def q_linked_def cas_tail_def)

lemma q_Enqueue_chain:
  assumes c: "chain q a ns"
  shows "\<exists>q' n. q_Enqueue v q = Some q' \<and> chain q' a (ns @ [n]) \<and> q_v q' = (q_v q)(n := Some v) \<and> n \<notin> set (a # ns) \<and>
    q_head q' = q_head q \<and> q_len q' = q_len q + 1 \<and> q_next q' = (q_next q)(q_tail q := Some n) \<and>
    n \<in> insert (q_fresh q) (set (q_pool q)) \<and> set (q_pool q') \<subseteq> set (q_pool q) \<and> q_fresh q \<le> q_fresh q'"
proof -
  obtain n q1 where n: "q_node v q = (n, q1)" by force
  note f = q_node_chain [OF c n]
  have t: "q_next q (q_tail q) = None" using links_last [of "q_next q" a ns] c by (simp add: chain_def)
  let ?q = "q1\<lparr>q_next := (q_next q)(q_tail q := Some n), q_tail := n, q_len := q_len q + 1\<rparr>"
  have e: "q_Enqueue v q = Some ?q" using q_put_last [of q1 n] f(4,6,8) t n by (simp add: q_Enqueue_def)
  have d: "distinct (a # ns @ [n])" using f(1,2) by auto
  have l: "links ((q_next q)(q_tail q := Some n)) {} a (ns @ [n])"
    using links_append_fresh [of "q_next q" a ns n] d f(5) c by (simp add: chain_def)
  have "q_tail q \<in> set (a # ns)" using c last_in_set [of "a # ns"] by (simp add: chain_def)
  then have "q_tail q \<notin> set (q_pool q1)" "q_tail q < q_fresh q1" using f(2,3) by auto
  then have "chain ?q a (ns @ [n])" using f(1,2,3,10) d l by (auto simp: chain_def)
  then show ?thesis using e f by (intro exI [of _ ?q] exI [of _ n]) simp
qed

definition lfq_contents :: "'v lfq \<Rightarrow> 'v list" where
  "lfq_contents q = map (\<lambda>n. the (q_v q n)) (mb_walk (nat (q_len q)) (q_next q) (q_head q))"

definition lfq_rep :: "'v lfq \<Rightarrow> nat list \<Rightarrow> bool" where
  "lfq_rep q ns \<longleftrightarrow> chain q (q_head q) ns \<and> q_len q = int (length ns) \<and> (\<forall>n \<in> set ns. q_v q n \<noteq> None)"

definition lfq_ok :: "'v lfq \<Rightarrow> bool" where
  "lfq_ok q \<longleftrightarrow> (\<exists>ns. lfq_rep q ns)"

lemma lfq_rep_contents: "lfq_rep q ns \<Longrightarrow> lfq_contents q = map (\<lambda>n. the (q_v q n)) ns"
  by (simp add: lfq_rep_def lfq_contents_def chain_def mb_walk_links)

lemma lfq_new: "lfq_ok NewQueue \<and> lfq_contents NewQueue = []"
  by (auto simp: lfq_ok_def lfq_rep_def chain_def NewQueue_def lfq_contents_def)

lemma lfq_collect: "lfq_ok q \<Longrightarrow> lfq_ok (q_collect q) \<and> lfq_contents (q_collect q) = lfq_contents q"
proof -
  assume "lfq_ok q"
  then obtain ns where ns: "lfq_rep q ns" by (auto simp: lfq_ok_def)
  then have "lfq_rep (q_collect q) ns" by (simp add: lfq_rep_def chain_def q_collect_def)
  then show ?thesis by (auto simp: lfq_ok_def lfq_contents_def q_collect_def)
qed

lemma q_Enqueue_ok:
  assumes "lfq_ok q"
  shows "\<exists>q'. q_Enqueue v q = Some q' \<and> lfq_ok q' \<and> lfq_contents q' = lfq_contents q @ [v] \<and> q_len q' = q_len q + 1"
proof -
  obtain ns where ns: "lfq_rep q ns" using assms by (auto simp: lfq_ok_def)
  obtain q' n where e: "q_Enqueue v q = Some q'" "chain q' (q_head q) (ns @ [n])" "q_v q' = (q_v q)(n := Some v)" "n \<notin> set ns"
      "q_head q' = q_head q" "q_len q' = q_len q + 1"
    using q_Enqueue_chain [of q "q_head q" ns v] ns by (auto simp: lfq_rep_def)
  then have r: "lfq_rep q' (ns @ [n])" using ns by (auto simp: lfq_rep_def)
  have "lfq_contents q' = lfq_contents q @ [v]"
    using lfq_rep_contents [OF r] lfq_rep_contents [OF ns] e(3,4) by (auto cong: map_cong)
  then show ?thesis using e r by (auto simp: lfq_ok_def)
qed

lemma q_Dequeue_eq:
  "q_Dequeue q = Some (case q_next q (q_head q) of None \<Rightarrow> (None, q) | Some n \<Rightarrow> q_taken (q_head q) n (q\<lparr>q_head := n\<rparr>))"
  by (subst q_Dequeue.simps) (simp add: cas_head_def split: option.splits)

lemma q_Dequeue_ok:
  assumes "lfq_ok q"
  shows "\<exists>q'. q_Dequeue q = Some (case lfq_contents q of [] \<Rightarrow> None | v # _ \<Rightarrow> Some v, q') \<and> lfq_ok q' \<and> lfq_contents q' = tl (lfq_contents q)"
proof -
  obtain ns where ns: "lfq_rep q ns" using assms by (auto simp: lfq_ok_def)
  then have c: "chain q (q_head q) ns" by (simp add: lfq_rep_def)
  show ?thesis
  proof (cases ns)
    case Nil
    then show ?thesis using assms ns c by (auto simp: q_Dequeue_eq lfq_rep_contents [OF ns] chain_def)
  next
    case (Cons n r)
    let ?h = "q_head q"
    let ?q = "snd (q_taken ?h n (q\<lparr>q_head := n\<rparr>))"
    have nx: "q_next q ?h = Some n" "?h \<notin> set (n # r)" using c Cons by (auto simp: chain_def)
    have "links ((q_next q)(?h := None)) {} n r" using c Cons nx(2) by (subst links_upd_other) (auto simp: chain_def)
    then have "chain ?q n r" using c Cons by (auto simp: chain_def q_taken_def releaseItem_def Let_def)
    then have rep: "lfq_rep ?q r" using ns Cons nx(2) by (auto simp: lfq_rep_def q_taken_def releaseItem_def Let_def)
    have "lfq_contents ?q = tl (lfq_contents q)" "\<exists>v. q_v q n = Some v"
      using lfq_rep_contents [OF rep] lfq_rep_contents [OF ns] ns Cons nx(2)
      by (auto simp: q_taken_def releaseItem_def Let_def lfq_rep_def cong: map_cong)
    then show ?thesis
      using rep lfq_rep_contents [OF ns] Cons nx(1) by (auto simp: q_Dequeue_eq lfq_ok_def q_taken_def Let_def)
  qed
qed

interpretation lfq: fifo_mailbox lfq_ok lfq_contents "\<lambda>_. False" "\<lambda>_ _. True"
  "\<lambda>v q. (True, the (q_Enqueue v q))" "\<lambda>q. the (q_Dequeue q)"
proof
  fix q :: "'a lfq" and v
  assume "lfq_ok q"
  then show "\<exists>q'. (True, the (q_Enqueue v q)) = (True, q') \<and> lfq_ok q' \<and> lfq_contents q' = lfq_contents q @ [v]"
    using q_Enqueue_ok [of q v] by auto
next
  fix q :: "'a lfq"
  assume "lfq_ok q" "lfq_contents q = []"
  then show "\<exists>q'. the (q_Dequeue q) = (None, q') \<and> lfq_ok q' \<and> lfq_contents q' = []" using q_Dequeue_ok [of q] by auto
next
  fix q :: "'a lfq" and v ms
  assume "lfq_ok q" "lfq_contents q = v # ms"
  then show "\<exists>q'. the (q_Dequeue q) = (Some v, q') \<and> lfq_ok q' \<and> lfq_contents q' = ms" using q_Dequeue_ok [of q] by auto
qed simp

subsection \<open>Two producers and a consumer\<close>

fun q_run :: "'v box_op list \<Rightarrow> 'v lfq \<Rightarrow> ('v list \<times> 'v lfq) option" where
  "q_run [] q = Some ([], q)"
| "q_run (Put v # ops) q = (case q_Enqueue v q of None \<Rightarrow> None | Some q1 \<Rightarrow> q_run ops q1)"
| "q_run (Take # ops) q =
     (case q_Dequeue q of
        None \<Rightarrow> None
      | Some (r, q1) \<Rightarrow> map_option (\<lambda>(outs, q2). (case r of None \<Rightarrow> outs | Some v \<Rightarrow> v # outs, q2)) (q_run ops q1))"

text \<open>
  One producer has linked its node and not yet moved the tail; the consumer takes that node's value
  and releases the old head, which is still the tail; a second producer enqueues; the first one goes
  on. With \<open>collected\<close> the pool has dropped the released node before the second producer asks for one.
\<close>

definition queue_race :: "bool \<Rightarrow> 'v \<Rightarrow> 'v \<Rightarrow> ('v option \<times> 'v lfq) option" where
  "queue_race collected a b =
     (case q_node a NewQueue of (n1, q1) \<Rightarrow>
        let t = q_tail q1; q2 = snd (cas_next t n1 q1) in
        case q_Dequeue q2 of None \<Rightarrow> None
        | Some (r, q3) \<Rightarrow>
            (case q_Enqueue b (if collected then q_collect q3 else q3) of None \<Rightarrow> None
             | Some q4 \<Rightarrow> Some (r, q_linked t n1 q4)))"

definition lost :: "'v lfq \<Rightarrow> bool" where
  "lost q \<longleftrightarrow> (\<exists>a ns. chain q a ns \<and> q_head q \<notin> set (a # ns @ q_pool q) \<and> q_head q < q_fresh q \<and> q_next q (q_head q) = None)"

lemma lost_enqueue:
  assumes "lost q"
  shows "\<exists>q'. q_Enqueue v q = Some q' \<and> lost q'"
proof -
  obtain a ns where c: "chain q a ns" "q_head q \<notin> set (a # ns @ q_pool q)" "q_head q < q_fresh q" "q_next q (q_head q) = None"
    using assms by (auto simp: lost_def)
  obtain q' n where e: "q_Enqueue v q = Some q'" "chain q' a (ns @ [n])" "q_head q' = q_head q"
      "q_next q' = (q_next q)(q_tail q := Some n)" "n \<in> insert (q_fresh q) (set (q_pool q))"
      "set (q_pool q') \<subseteq> set (q_pool q)" "q_fresh q \<le> q_fresh q'"
    using q_Enqueue_chain [OF c(1), of v] by blast
  have "q_tail q \<in> set (a # ns)" using c(1) last_in_set [of "a # ns"] by (simp add: chain_def)
  then have "q_head q \<noteq> q_tail q" using c(2) by auto
  moreover have "q_head q \<noteq> n" using e(5) c(2,3) by auto
  ultimately have "lost q'"
    unfolding lost_def using c e by (intro exI [of _ a] exI [of _ "ns @ [n]"]) auto
  then show ?thesis using e(1) by blast
qed

lemma lost_run: "lost q \<Longrightarrow> \<exists>q'. q_run ops q = Some ([], q')"
proof (induction ops q rule: q_run.induct)
  case (2 v ops q)
  then show ?case using lost_enqueue [of q v] by force
next
  case (3 ops q)
  then have "q_Dequeue q = Some (None, q)" by (auto simp: q_Dequeue_eq lost_def)
  then show ?case using 3 by auto
qed simp

lemma queue_race_eq:
  "queue_race True a b = Some (Some a,
     \<lparr>q_next = [0 \<mapsto> 2], q_v = [1 \<mapsto> a, 2 \<mapsto> b], q_head = 1, q_tail = 2, q_len = 1, q_pool = [], q_fresh = 3\<rparr>)"
  "queue_race False a b = Some (Some a,
     \<lparr>q_next = [0 \<mapsto> 0], q_v = [1 \<mapsto> a, 0 \<mapsto> b], q_head = 1, q_tail = 1, q_len = 1, q_pool = [], q_fresh = 2\<rparr>)"
  by (auto simp: queue_race_def q_node_def getItem_def NewQueue_def cas_next_def q_Dequeue_eq q_taken_def releaseItem_def
      q_collect_def q_Enqueue_def q_put_last q_linked_def cas_tail_def Let_def fun_eq_iff)

text \<open>
  C36. Two concurrent producers and a consumer can lose messages: in this interleaving \<open>a\<close> is received
  and the queue reports one element left, the \<open>b\<close> of the second producer, but it is unreachable. When
  the pool hands the released node to the second producer, \<^verbatim>\<open>Dequeue\<close> finds nothing; otherwise the
  queue is cut off for good: whatever is enqueued later, no \<^verbatim>\<open>Dequeue\<close> ever returns an element.
\<close>

theorem queue_loses:
  "(\<exists>q. queue_race False a b = Some (Some a, q) \<and> q_Length q = 1 \<and> q_Dequeue q = Some (None, q)) \<and>
   (\<exists>q. queue_race True a b = Some (Some a, q) \<and> q_Length q = 1 \<and> (\<forall>ops. \<exists>q'. q_run ops q = Some ([], q')))"
proof -
  obtain q where q: "queue_race True a b = Some (Some a, q)" "q_len q = 1" "q_head q = 1" "q_tail q = 2" "q_pool q = []" "q_fresh q = 3"
      "q_next q = [0 \<mapsto> 2]"
    using queue_race_eq(1) [of a b] by simp
  then have "chain q 0 [2]" by (auto simp: chain_def)
  then have "lost q" unfolding lost_def using q by (intro exI [of _ 0] exI [of _ "[2]"]) simp
  then have "\<forall>ops. \<exists>q'. q_run ops q = Some ([], q')" using lost_run by blast
  moreover have "q_Length q = 1" using q(2) by (simp add: q_Length_def)
  ultimately show ?thesis using q(1) queue_race_eq(2) [of a b] by (auto simp: q_Length_def q_Dequeue_eq)
qed

end
