(* ===== verification/Event_Stream.thy ===== *)
theory Event_Stream
  imports Lockfree_Queue
begin

section \<open>The event stream\<close>

text \<open>
  \<^verbatim>\<open>eventstream/\<close>: a broker with subscribers and topics. Subscribers are shared pointers; the store
  \<open>es_heap\<close> maps the identifier of every subscriber that was created to the object, and the two maps
  of the broker hold identifiers. The mutexes make each access of a map atomic; the model runs whole
  calls one after the other. A call that does not return, or panics, is \<^const>\<open>None\<close>.
\<close>

datatype 'p message = Message (Topic: string) (Payload: 'p)

record 'p subscriber =
  s_topics :: "(string, bool) gomap"
  s_messages :: "'p message lfq"
  s_active :: bool

record 'p EventsStream =
  es_heap :: "string \<Rightarrow> 'p subscriber option"
  es_subscribers :: "(string, unit) gomap"
  es_topics :: "(string, (string, unit) gomap) gomap"

definition NewMessage :: "string \<Rightarrow> 'p \<Rightarrow> 'p message" where
  "NewMessage topic payload = Message topic payload"

definition newSubscriber :: "'p subscriber" where
  "newSubscriber = \<lparr>s_topics = [], s_messages = NewQueue, s_active = True\<rparr>"

definition s_Topics :: "'p subscriber \<Rightarrow> string list" where
  "s_Topics s = map fst (s_topics s)"

definition s_Shutdown :: "'p subscriber \<Rightarrow> 'p subscriber" where
  "s_Shutdown s = s\<lparr>s_active := False\<rparr>"

definition s_subscribe :: "string \<Rightarrow> 'p subscriber \<Rightarrow> 'p subscriber" where
  "s_subscribe topic s = s\<lparr>s_topics := gset topic True (s_topics s)\<rparr>"

definition s_unsubscribe :: "string \<Rightarrow> 'p subscriber \<Rightarrow> 'p subscriber" where
  "s_unsubscribe topic s = s\<lparr>s_topics := gdel topic (s_topics s)\<rparr>"

definition s_signal :: "'p message \<Rightarrow> 'p subscriber \<Rightarrow> 'p subscriber option" where
  "s_signal msg s =
     (if s_active s then map_option (\<lambda>q. s\<lparr>s_messages := q\<rparr>) (q_Enqueue msg (s_messages s)) else Some s)"

fun s_drain :: "nat \<Rightarrow> 'p message lfq \<Rightarrow> ('p message list \<times> 'p message lfq) option" where
  "s_drain 0 q = Some ([], q)"
| "s_drain (Suc n) q =
     (case q_Dequeue q of
        None \<Rightarrow> None
      | Some (None, q1) \<Rightarrow> Some ([], q1)
      | Some (Some v, q1) \<Rightarrow> map_option (\<lambda>(vs, q2). (v # vs, q2)) (s_drain n q1))"

definition s_Iterator :: "'p subscriber \<Rightarrow> ('p message list \<times> 'p subscriber) option" where
  "s_Iterator s =
     (let n = sint (q_Length (s_messages s)) in
      if n < 0 then None
      else map_option (\<lambda>(vs, q). (vs, s\<lparr>s_messages := q\<rparr>)) (s_drain (nat n) (s_messages s)))"

definition es_New :: "'p EventsStream" where
  "es_New = \<lparr>es_heap = (\<lambda>_. None), es_subscribers = [], es_topics = []\<rparr>"

definition upd_sub :: "string \<Rightarrow> ('p subscriber \<Rightarrow> 'p subscriber) \<Rightarrow> 'p EventsStream \<Rightarrow> 'p EventsStream" where
  "upd_sub sid f es = es\<lparr>es_heap := (es_heap es)(sid := map_option f (es_heap es sid))\<rparr>"

definition AddSubscriber :: "string \<Rightarrow> 'p EventsStream \<Rightarrow> 'p EventsStream" where
  "AddSubscriber sid es =
     es\<lparr>es_heap := (es_heap es)(sid \<mapsto> newSubscriber), es_subscribers := gset sid () (es_subscribers es)\<rparr>"

definition es_active :: "string \<Rightarrow> 'p EventsStream \<Rightarrow> bool" where
  "es_active sid es \<longleftrightarrow> (case es_heap es sid of None \<Rightarrow> False | Some s \<Rightarrow> s_active s)"

definition SubscribersCount :: "string \<Rightarrow> 'p EventsStream \<Rightarrow> nat" where
  "SubscribersCount topic es = length (ggetl (es_topics es) topic)"

definition Subscribe :: "string \<Rightarrow> string \<Rightarrow> 'p EventsStream \<Rightarrow> 'p EventsStream" where
  "Subscribe sid topic es =
     (if \<not> es_active sid es then es
      else let es1 = upd_sub sid (s_subscribe topic) es;
               subs = (case map_of (es_topics es1) topic of None \<Rightarrow> [] | Some subs \<Rightarrow> subs)
           in es1\<lparr>es_topics := gset topic (gset sid () subs) (es_topics es1)\<rparr>)"

definition Unsubscribe :: "string \<Rightarrow> string \<Rightarrow> 'p EventsStream \<Rightarrow> 'p EventsStream" where
  "Unsubscribe sid topic es =
     (let es1 = upd_sub sid (s_unsubscribe topic) es in
      case map_of (es_topics es1) topic of
        None \<Rightarrow> es1
      | Some subs \<Rightarrow>
          let subs1 = gdel sid subs in
          es1\<lparr>es_topics := (if subs1 = [] then gdel topic (es_topics es1) else gset topic subs1 (es_topics es1))\<rparr>)"

definition RemoveSubscriber :: "string \<Rightarrow> 'p EventsStream \<Rightarrow> 'p EventsStream" where
  "RemoveSubscriber sid es =
     (case es_heap es sid of
        None \<Rightarrow> es
      | Some s \<Rightarrow>
          let es1 = fold (Unsubscribe sid) (s_Topics s) es;
              es2 = es1\<lparr>es_subscribers := gdel sid (es_subscribers es1)\<rparr>
          in upd_sub sid s_Shutdown es2)"

fun signal_all :: "'p message \<Rightarrow> string list \<Rightarrow> 'p EventsStream \<Rightarrow> 'p EventsStream option" where
  "signal_all msg [] es = Some es"
| "signal_all msg (sid # sids) es =
     (case es_heap es sid of
        None \<Rightarrow> signal_all msg sids es
      | Some s \<Rightarrow>
          if s_active s
          then (case s_signal msg s of
                  None \<Rightarrow> None
                | Some s1 \<Rightarrow> signal_all msg sids (es\<lparr>es_heap := (es_heap es)(sid \<mapsto> s1)\<rparr>))
          else signal_all msg sids es)"

definition publishToTopic :: "string \<Rightarrow> 'p \<Rightarrow> 'p EventsStream \<Rightarrow> 'p EventsStream option" where
  "publishToTopic topic msg es =
     (let subs = ggetl (es_topics es) topic in
      if subs = [] then Some es else signal_all (NewMessage topic msg) (map fst subs) es)"

definition Publish :: "string \<Rightarrow> 'p \<Rightarrow> 'p EventsStream \<Rightarrow> 'p EventsStream option" where
  "Publish topic msg es = publishToTopic topic msg es"

fun Broadcast :: "'p \<Rightarrow> string list \<Rightarrow> 'p EventsStream \<Rightarrow> 'p EventsStream option" where
  "Broadcast msg [] es = Some es"
| "Broadcast msg (topic # topics) es =
     (case publishToTopic topic msg es of None \<Rightarrow> None | Some es1 \<Rightarrow> Broadcast msg topics es1)"

definition es_Close :: "'p EventsStream \<Rightarrow> 'p EventsStream" where
  "es_Close es =
     (let es1 = fold (\<lambda>sid e. if es_active sid e then upd_sub sid s_Shutdown e else e) (map fst (es_subscribers es)) es
      in es1\<lparr>es_subscribers := [], es_topics := []\<rparr>)"

definition es_Iterator :: "string \<Rightarrow> 'p EventsStream \<Rightarrow> ('p message list \<times> 'p EventsStream) option" where
  "es_Iterator sid es =
     (case es_heap es sid of
        None \<Rightarrow> Some ([], es)
      | Some s \<Rightarrow> map_option (\<lambda>(vs, s1). (vs, es\<lparr>es_heap := (es_heap es)(sid \<mapsto> s1)\<rparr>)) (s_Iterator s))"

subsection \<open>The specification: an inbox per subscriber\<close>

record 'p inbox =
  ib_active :: bool
  ib_topics :: "string set"
  ib_msgs :: "'p message list"

type_synonym 'p es_spec = "string \<Rightarrow> 'p inbox option"

datatype 'p es_op =
    OpAdd string
  | OpRemove string
  | OpSubscribe string string
  | OpUnsubscribe string string
  | OpPublish string 'p
  | OpBroadcast 'p "string list"
  | OpIterate string
  | OpClose

definition ib_upd :: "string \<Rightarrow> ('p inbox \<Rightarrow> 'p inbox) \<Rightarrow> 'p es_spec \<Rightarrow> 'p es_spec" where
  "ib_upd sid f sp = sp(sid := map_option f (sp sid))"

definition ib_publish :: "string \<Rightarrow> 'p \<Rightarrow> 'p es_spec \<Rightarrow> 'p es_spec" where
  "ib_publish topic msg sp =
     (\<lambda>sid. map_option (\<lambda>b. if ib_active b \<and> topic \<in> ib_topics b then b\<lparr>ib_msgs := ib_msgs b @ [Message topic msg]\<rparr> else b) (sp sid))"

fun es_spec_do :: "'p es_op \<Rightarrow> 'p es_spec \<Rightarrow> 'p message list \<times> 'p es_spec" where
  "es_spec_do (OpAdd sid) sp = ([], sp(sid \<mapsto> \<lparr>ib_active = True, ib_topics = {}, ib_msgs = []\<rparr>))"
| "es_spec_do (OpRemove sid) sp = ([], ib_upd sid (\<lambda>b. b\<lparr>ib_active := False, ib_topics := {}\<rparr>) sp)"
| "es_spec_do (OpSubscribe sid t) sp = ([], ib_upd sid (\<lambda>b. if ib_active b then b\<lparr>ib_topics := insert t (ib_topics b)\<rparr> else b) sp)"
| "es_spec_do (OpUnsubscribe sid t) sp = ([], ib_upd sid (\<lambda>b. b\<lparr>ib_topics := ib_topics b - {t}\<rparr>) sp)"
| "es_spec_do (OpPublish t p) sp = ([], ib_publish t p sp)"
| "es_spec_do (OpBroadcast p ts) sp = ([], fold (\<lambda>t. ib_publish t p) ts sp)"
| "es_spec_do (OpIterate sid) sp =
     (case sp sid of None \<Rightarrow> [] | Some b \<Rightarrow> ib_msgs b, ib_upd sid (\<lambda>b. b\<lparr>ib_msgs := []\<rparr>) sp)"
| "es_spec_do OpClose sp = ([], \<lambda>sid. map_option (\<lambda>b. b\<lparr>ib_active := False\<rparr>) (sp sid))"

fun es_do :: "'p es_op \<Rightarrow> 'p EventsStream \<Rightarrow> ('p message list \<times> 'p EventsStream) option" where
  "es_do (OpAdd sid) es = Some ([], AddSubscriber sid es)"
| "es_do (OpRemove sid) es = Some ([], RemoveSubscriber sid es)"
| "es_do (OpSubscribe sid t) es = Some ([], Subscribe sid t es)"
| "es_do (OpUnsubscribe sid t) es = Some ([], Unsubscribe sid t es)"
| "es_do (OpPublish t p) es = map_option (Pair []) (Publish t p es)"
| "es_do (OpBroadcast p ts) es = map_option (Pair []) (Broadcast p ts es)"
| "es_do (OpIterate sid) es = es_Iterator sid es"
| "es_do OpClose es = Some ([], es_Close es)"

text \<open>
  The relation: object and inbox agree for every subscriber, and a topic's map holds exactly the
  active subscribers of the topic.
\<close>

definition sub_rel :: "'p subscriber option \<Rightarrow> 'p inbox option \<Rightarrow> bool" where
  "sub_rel s b \<longleftrightarrow>
     (case (s, b) of
        (None, None) \<Rightarrow> True
      | (Some s, Some b) \<Rightarrow> s_active s = ib_active b \<and> lfq_ok (s_messages s) \<and> lfq_contents (s_messages s) = ib_msgs b \<and>
          set (map fst (s_topics s)) = ib_topics b
      | _ \<Rightarrow> False)"

definition on_topic :: "'p es_spec \<Rightarrow> string \<Rightarrow> string \<Rightarrow> bool" where
  "on_topic sp sid t \<longleftrightarrow> (case sp sid of None \<Rightarrow> False | Some b \<Rightarrow> ib_active b \<and> t \<in> ib_topics b)"

definition es_rel :: "'p EventsStream \<Rightarrow> 'p es_spec \<Rightarrow> bool" where
  "es_rel es sp \<longleftrightarrow>
     (\<forall>sid. sub_rel (es_heap es sid) (sp sid)) \<and>
     (\<forall>t. keys_ok (ggetl (es_topics es) t)) \<and> (\<forall>t. map_of (es_topics es) t \<noteq> Some []) \<and>
     (\<forall>t sid. sid \<in> fst ` set (ggetl (es_topics es) t) \<longleftrightarrow> on_topic sp sid t) \<and>
     (\<forall>sid. sid \<in> fst ` set (es_subscribers es) \<longleftrightarrow> (case sp sid of None \<Rightarrow> False | Some b \<Rightarrow> ib_active b))"

lemma sub_rel_simps [simp]:
  "sub_rel None o2 \<longleftrightarrow> o2 = None" "sub_rel o1 None \<longleftrightarrow> o1 = None"
  "sub_rel (Some s) (Some b) \<longleftrightarrow> s_active s = ib_active b \<and> lfq_ok (s_messages s) \<and> lfq_contents (s_messages s) = ib_msgs b \<and>
     set (map fst (s_topics s)) = ib_topics b"
  by (auto simp: sub_rel_def split: option.splits)

lemma upd_sub_simps [simp]:
  "es_heap (upd_sub sid f es) k = (if k = sid then map_option f (es_heap es sid) else es_heap es k)"
  "es_topics (upd_sub sid f es) = es_topics es" "es_subscribers (upd_sub sid f es) = es_subscribers es"
  by (simp_all add: upd_sub_def)

declare keys_gset [simp] keys_gdel [simp]

lemma sub_rel_active: "sub_rel (es_heap es sid) (sp sid) \<Longrightarrow> es_active sid es = (case sp sid of None \<Rightarrow> False | Some b \<Rightarrow> ib_active b)"
  by (cases "es_heap es sid"; cases "sp sid") (auto simp: es_active_def)

lemma es_rel_new: "es_rel es_New (\<lambda>_. None)"
  by (simp add: es_rel_def es_New_def on_topic_def)

lemma es_rel_add: "es_rel es sp \<Longrightarrow> sp sid = None \<Longrightarrow> es_rel (AddSubscriber sid es) (sp(sid \<mapsto> \<lparr>ib_active = True, ib_topics = {}, ib_msgs = []\<rparr>))"
  using lfq_new by (auto simp: es_rel_def AddSubscriber_def newSubscriber_def on_topic_def)

lemma es_rel_subscribe:
  assumes rel: "es_rel es sp"
  shows "es_rel (Subscribe sid t es) (ib_upd sid (\<lambda>b. if ib_active b then b\<lparr>ib_topics := insert t (ib_topics b)\<rparr> else b) sp)"
proof (cases "es_active sid es")
  case False
  have "ib_upd sid (\<lambda>b. if ib_active b then b\<lparr>ib_topics := insert t (ib_topics b)\<rparr> else b) sp = sp"
    using sub_rel_active [of es sid sp] rel False by (auto simp: es_rel_def ib_upd_def fun_eq_iff split: option.splits)
  then show ?thesis using rel False by (simp add: Subscribe_def)
next
  case True
  then obtain b where b: "sp sid = Some b" "ib_active b"
    using sub_rel_active [of es sid sp] rel by (auto simp: es_rel_def split: option.splits)
  let ?es = "Subscribe sid t es"
  let ?sp = "sp(sid \<mapsto> b\<lparr>ib_topics := insert t (ib_topics b)\<rparr>)"
  have "ib_upd sid (\<lambda>b. if ib_active b then b\<lparr>ib_topics := insert t (ib_topics b)\<rparr> else b) sp = ?sp" using b by (simp add: ib_upd_def)
  moreover have top: "ggetl (es_topics ?es) t' = (if t' = t then gset sid () (ggetl (es_topics es) t) else ggetl (es_topics es) t')" for t'
    using True by (simp add: Subscribe_def Let_def ggetl_def split: option.splits)
  have heap: "sub_rel (es_heap es k) (sp k)" for k using rel by (simp add: es_rel_def)
  obtain s where "es_heap es sid = Some s" using heap [of sid] b(1) by (cases "es_heap es sid") auto
  then have "sub_rel (es_heap ?es k) (?sp k)" for k
    using heap [of k] heap [of sid] True b by (simp add: Subscribe_def Let_def s_subscribe_def)
  moreover have "map_of (es_topics ?es) t' \<noteq> Some []" for t'
    using rel True by (auto simp: Subscribe_def Let_def es_rel_def)
  moreover have "on_topic ?sp k t' \<longleftrightarrow> on_topic sp k t' \<or> k = sid \<and> t' = t" for k t' using b by (auto simp: on_topic_def)
  moreover have "es_subscribers ?es = es_subscribers es" by (simp add: Subscribe_def Let_def)
  ultimately show ?thesis using rel b unfolding es_rel_def by (simp add: top) auto
qed

lemma es_rel_heap: "es_rel es sp \<Longrightarrow> sub_rel (es_heap es k) (sp k)"
  by (simp add: es_rel_def)

lemma es_rel_unsubscribe:
  assumes rel: "es_rel es sp"
  shows "es_rel (Unsubscribe sid t es) (ib_upd sid (\<lambda>b. b\<lparr>ib_topics := ib_topics b - {t}\<rparr>) sp)"
proof -
  let ?es = "Unsubscribe sid t es"
  let ?sp = "ib_upd sid (\<lambda>b. b\<lparr>ib_topics := ib_topics b - {t}\<rparr>) sp"
  have top: "ggetl (es_topics ?es) t' = (if t' = t then gdel sid (ggetl (es_topics es) t) else ggetl (es_topics es) t')" for t'
    by (auto simp: Unsubscribe_def Let_def ggetl_def split: option.splits)
  have "es_heap ?es = es_heap (upd_sub sid (s_unsubscribe t) es)" by (simp add: Unsubscribe_def Let_def split: option.splits)
  then have "sub_rel (es_heap ?es k) (?sp k)" for k
    using es_rel_heap [OF rel, of k] by (cases "es_heap es k"; cases "sp k") (auto simp: ib_upd_def s_unsubscribe_def keys_gdel)
  moreover have "map_of (es_topics ?es) t' \<noteq> Some []" for t'
    using rel by (auto simp: Unsubscribe_def Let_def es_rel_def split: option.splits)
  moreover have "on_topic ?sp k t' \<longleftrightarrow> on_topic sp k t' \<and> \<not> (k = sid \<and> t' = t)" for k t'
    by (cases "sp k") (auto simp: on_topic_def ib_upd_def)
  moreover have "es_subscribers ?es = es_subscribers es" by (simp add: Unsubscribe_def Let_def split: option.splits)
  moreover have "(case ?sp k of None \<Rightarrow> False | Some b \<Rightarrow> ib_active b) = (case sp k of None \<Rightarrow> False | Some b \<Rightarrow> ib_active b)" for k
    by (cases "sp k") (auto simp: ib_upd_def)
  ultimately show ?thesis using rel unfolding es_rel_def by (simp add: top)
qed

lemma es_rel_unsubscribe_all:
  "es_rel es sp \<Longrightarrow> es_rel (fold (Unsubscribe sid) ts es) (ib_upd sid (\<lambda>b. b\<lparr>ib_topics := ib_topics b - set ts\<rparr>) sp)"
proof (induction ts arbitrary: es sp)
  case Nil
  have "ib_upd sid (\<lambda>b. b) sp = sp" by (simp add: ib_upd_def option.map_ident)
  then show ?case using Nil by simp
next
  case (Cons t ts)
  have "ib_upd sid (\<lambda>b. b\<lparr>ib_topics := ib_topics b - set ts\<rparr>) (ib_upd sid (\<lambda>b. b\<lparr>ib_topics := ib_topics b - {t}\<rparr>) sp)
      = ib_upd sid (\<lambda>b. b\<lparr>ib_topics := ib_topics b - set (t # ts)\<rparr>) sp"
    by (cases "sp sid") (simp_all add: ib_upd_def Diff_insert2 [symmetric])
  with Cons.IH [OF es_rel_unsubscribe [OF Cons.prems, of sid t]] show ?case by simp
qed

lemma es_rel_remove:
  assumes rel: "es_rel es sp"
  shows "es_rel (RemoveSubscriber sid es) (ib_upd sid (\<lambda>b. b\<lparr>ib_active := False, ib_topics := {}\<rparr>) sp)"
proof (cases "es_heap es sid")
  case None
  moreover from this have "ib_upd sid (\<lambda>b. b\<lparr>ib_active := False, ib_topics := {}\<rparr>) sp = sp"
    using es_rel_heap [OF rel, of sid] by (auto simp: ib_upd_def)
  ultimately show ?thesis using rel by (simp add: RemoveSubscriber_def)
next
  case (Some s)
  then obtain b where b: "sp sid = Some b" "ib_topics b = set (s_Topics s)"
    using es_rel_heap [OF rel, of sid] by (cases "sp sid") (auto simp: s_Topics_def)
  let ?sp = "sp(sid \<mapsto> b\<lparr>ib_topics := {}\<rparr>)"
  let ?es = "fold (Unsubscribe sid) (s_Topics s) es"
  have r: "es_rel ?es ?sp" using es_rel_unsubscribe_all [OF rel, of sid "s_Topics s"] b by (simp add: ib_upd_def)
  have "sub_rel (es_heap (RemoveSubscriber sid es) k) ((?sp(sid \<mapsto> b\<lparr>ib_active := False, ib_topics := {}\<rparr>)) k)" for k
    using es_rel_heap [OF r, of k] Some by (cases "es_heap ?es k") (auto simp: RemoveSubscriber_def Let_def s_Shutdown_def)
  moreover have "on_topic (sp(sid \<mapsto> b\<lparr>ib_active := False, ib_topics := {}\<rparr>)) k t = on_topic ?sp k t" for k t
    by (auto simp: on_topic_def)
  ultimately show ?thesis
    using r Some b(1) by (auto simp: es_rel_def RemoveSubscriber_def Let_def ib_upd_def)
qed

lemma signal_all_spec:
  assumes "\<And>k. sub_rel (es_heap es k) (sp k)" "distinct sids"
  shows "\<exists>h. signal_all msg sids es = Some (es\<lparr>es_heap := h\<rparr>) \<and>
    (\<forall>k. sub_rel (h k) (if k \<in> set sids then map_option (\<lambda>b. if ib_active b then b\<lparr>ib_msgs := ib_msgs b @ [msg]\<rparr> else b) (sp k) else sp k))"
  using assms
proof (induction sids arbitrary: es sp)
  case Nil
  then show ?case by (intro exI [of _ "es_heap es"]) simp
next
  case (Cons sid sids)
  let ?f = "map_option (\<lambda>b. if ib_active b then b\<lparr>ib_msgs := ib_msgs b @ [msg]\<rparr> else b)"
  obtain h1 where h1: "signal_all msg (sid # sids) es = signal_all msg sids (es\<lparr>es_heap := h1\<rparr>)"
      "\<And>k. sub_rel (h1 k) ((sp(sid := ?f (sp sid))) k)"
  proof (cases "es_heap es sid")
    case None
    then have "sp sid = None" using Cons.prems(1) [of sid] by simp
    then show ?thesis using Cons.prems(1) None by (intro that [of "es_heap es"]) auto
  next
    case (Some s)
    then obtain b where b: "sp sid = Some b" using Cons.prems(1) [of sid] by (cases "sp sid") auto
    then have sb: "sub_rel (Some s) (Some b)" using Cons.prems(1) [of sid] Some by simp
    show ?thesis
    proof (cases "s_active s")
      case True
      obtain q where q: "q_Enqueue msg (s_messages s) = Some q" "lfq_ok q" "lfq_contents q = lfq_contents (s_messages s) @ [msg]"
        using q_Enqueue_ok [of "s_messages s" msg] sb by auto
      then show ?thesis
        using Some True b sb Cons.prems(1) by (intro that [of "(es_heap es)(sid \<mapsto> s\<lparr>s_messages := q\<rparr>)"]) (auto simp: s_signal_def)
    next
      case False
      then show ?thesis using Some b sb Cons.prems(1) by (intro that [of "es_heap es"]) auto
    qed
  qed
  obtain h where h: "signal_all msg sids (es\<lparr>es_heap := h1\<rparr>) = Some (es\<lparr>es_heap := h1, es_heap := h\<rparr>)"
      "\<And>k. sub_rel (h k) (if k \<in> set sids then ?f ((sp(sid := ?f (sp sid))) k) else (sp(sid := ?f (sp sid))) k)"
    using Cons.IH [of "es\<lparr>es_heap := h1\<rparr>" "sp(sid := ?f (sp sid))"] h1(2) Cons.prems(2) by auto
  have "sub_rel (h k) (if k \<in> set (sid # sids) then ?f (sp k) else sp k)" for k
    using h(2) [of k] Cons.prems(2) by (cases "k = sid") auto
  then show ?case using h1(1) h(1) by (intro exI [of _ h]) simp
qed

definition ib_sig :: "'p inbox option \<Rightarrow> (bool \<times> string set) option" where
  "ib_sig o1 = map_option (\<lambda>b. (ib_active b, ib_topics b)) o1"

lemma on_topic_sig:
  assumes "ib_sig (sp' k) = ib_sig (sp k)"
  shows "on_topic sp' k t = on_topic sp k t \<and>
    (case sp' k of None \<Rightarrow> False | Some b \<Rightarrow> ib_active b) = (case sp k of None \<Rightarrow> False | Some b \<Rightarrow> ib_active b)"
  using assms by (cases "sp k"; cases "sp' k") (auto simp: on_topic_def ib_sig_def)

lemma es_rel_publish:
  assumes rel: "es_rel es sp"
  shows "\<exists>es'. publishToTopic t p es = Some es' \<and> es_rel es' (ib_publish t p sp)"
proof -
  let ?subs = "map fst (ggetl (es_topics es) t)"
  let ?msg = "NewMessage t p"
  have on: "k \<in> set ?subs \<longleftrightarrow> on_topic sp k t" for k using rel by (simp add: es_rel_def)
  have eq: "ib_publish t p sp k =
      (if k \<in> set ?subs then map_option (\<lambda>b. if ib_active b then b\<lparr>ib_msgs := ib_msgs b @ [?msg]\<rparr> else b) (sp k) else sp k)" for k
    unfolding on by (cases "sp k") (auto simp: ib_publish_def on_topic_def NewMessage_def)
  have d: "distinct ?subs" using rel by (simp add: es_rel_def keys_ok_def)
  obtain h where h: "signal_all ?msg ?subs es = Some (es\<lparr>es_heap := h\<rparr>)" "\<And>k. sub_rel (h k) (ib_publish t p sp k)"
    using signal_all_spec [OF es_rel_heap [OF rel] d, of ?msg] unfolding eq by blast
  have same: "on_topic (ib_publish t p sp) k t' = on_topic sp k t' \<and>
      (case ib_publish t p sp k of None \<Rightarrow> False | Some b \<Rightarrow> ib_active b) = (case sp k of None \<Rightarrow> False | Some b \<Rightarrow> ib_active b)" for k t'
    by (rule on_topic_sig) (cases "sp k"; simp add: ib_publish_def ib_sig_def)
  have "es_rel (es\<lparr>es_heap := h\<rparr>) (ib_publish t p sp)" using rel h(2) same by (simp add: es_rel_def)
  moreover have "publishToTopic t p es = Some (es\<lparr>es_heap := h\<rparr>)"
    using h(1) by (auto simp: publishToTopic_def Let_def)
  ultimately show ?thesis by blast
qed

lemma es_rel_broadcast: "es_rel es sp \<Longrightarrow> \<exists>es'. Broadcast p ts es = Some es' \<and> es_rel es' (fold (\<lambda>t. ib_publish t p) ts sp)"
proof (induction ts arbitrary: es sp)
  case (Cons t ts)
  obtain es1 where e: "publishToTopic t p es = Some es1" "es_rel es1 (ib_publish t p sp)" using es_rel_publish [OF Cons.prems] by blast
  then show ?case using Cons.IH [OF e(2)] by simp
qed simp

lemma s_drain_all:
  "lfq_ok q \<Longrightarrow> length (lfq_contents q) = n \<Longrightarrow> \<exists>q'. s_drain n q = Some (lfq_contents q, q') \<and> lfq_ok q' \<and> lfq_contents q' = []"
proof (induction n arbitrary: q)
  case (Suc n)
  then obtain v r where c: "lfq_contents q = v # r" by (cases "lfq_contents q") auto
  obtain q1 where q1: "q_Dequeue q = Some (Some v, q1)" "lfq_ok q1" "lfq_contents q1 = r" using q_Dequeue_ok [OF Suc.prems(1)] c by auto
  with Suc.IH [OF q1(2)] Suc.prems(2) c show ?case by auto
qed simp

lemma lfq_len: "lfq_ok q \<Longrightarrow> q_len q = int (length (lfq_contents q))"
proof -
  assume "lfq_ok q"
  then obtain ns where "lfq_rep q ns" by (auto simp: lfq_ok_def)
  then show ?thesis using lfq_rep_contents [of q ns] by (simp add: lfq_rep_def)
qed

lemma s_Iterator_all:
  assumes "lfq_ok (s_messages s)" "length (lfq_contents (s_messages s)) < 2 ^ 63"
  shows "\<exists>q. s_Iterator s = Some (lfq_contents (s_messages s), s\<lparr>s_messages := q\<rparr>) \<and> lfq_ok q \<and> lfq_contents q = []"
proof -
  let ?c = "lfq_contents (s_messages s)"
  have "int (length ?c) < 2 ^ 63" using assms(2) by (metis of_nat_less_iff of_nat_numeral of_nat_power)
  then have "sint (q_Length (s_messages s)) = int (length ?c)"
    using lfq_len [OF assms(1)] by (simp add: q_Length_def signed_of_int signed_of_nat signed_take_bit_int_eq_self)
  then show ?thesis using s_drain_all [OF assms(1) refl] by (auto simp: s_Iterator_def)
qed

lemma es_rel_iterate:
  assumes rel: "es_rel es sp" and small: "\<And>b. sp sid = Some b \<Longrightarrow> length (ib_msgs b) < 2 ^ 63"
  shows "\<exists>es'. es_Iterator sid es = Some (case sp sid of None \<Rightarrow> [] | Some b \<Rightarrow> ib_msgs b, es') \<and>
    es_rel es' (ib_upd sid (\<lambda>b. b\<lparr>ib_msgs := []\<rparr>) sp)"
proof (cases "es_heap es sid")
  case None
  then have "sp sid = None" using es_rel_heap [OF rel, of sid] by simp
  moreover from this have "ib_upd sid (\<lambda>b. b\<lparr>ib_msgs := []\<rparr>) sp = sp" by (auto simp: ib_upd_def)
  ultimately show ?thesis using rel None by (simp add: es_Iterator_def)
next
  case (Some s)
  then obtain b where b: "sp sid = Some b" "sub_rel (Some s) (Some b)" using es_rel_heap [OF rel, of sid] by (cases "sp sid") auto
  then obtain q where q: "s_Iterator s = Some (ib_msgs b, s\<lparr>s_messages := q\<rparr>)" "lfq_ok q" "lfq_contents q = []"
    using s_Iterator_all [of s] small [OF b(1)] by auto
  let ?sp = "sp(sid \<mapsto> b\<lparr>ib_msgs := []\<rparr>)"
  have "on_topic ?sp k t = on_topic sp k t \<and>
      (case ?sp k of None \<Rightarrow> False | Some b \<Rightarrow> ib_active b) = (case sp k of None \<Rightarrow> False | Some b \<Rightarrow> ib_active b)" for k t
    using b(1) by (intro on_topic_sig) (simp add: ib_sig_def)
  moreover have "sub_rel (((es_heap es)(sid \<mapsto> s\<lparr>s_messages := q\<rparr>)) k) (?sp k)" for k
    using es_rel_heap [OF rel, of k] b(2) q by simp
  ultimately have "es_rel (es\<lparr>es_heap := (es_heap es)(sid \<mapsto> s\<lparr>s_messages := q\<rparr>)\<rparr>) ?sp"
    using rel by (simp add: es_rel_def del: fun_upd_apply)
  then show ?thesis using Some b(1) q(1) by (simp add: es_Iterator_def ib_upd_def)
qed

lemma close_heap:
  "es_heap (fold (\<lambda>sid e. if es_active sid e then upd_sub sid s_Shutdown e else e) ids es) k =
     (if k \<in> set ids then map_option s_Shutdown (es_heap es k) else es_heap es k)"
proof (induction ids arbitrary: es)
  case (Cons i ids)
  have "map_option s_Shutdown (es_heap es i) = es_heap es i" if "\<not> es_active i es"
    using that by (cases "es_heap es i") (auto simp: es_active_def s_Shutdown_def)
  moreover have "map_option s_Shutdown (map_option s_Shutdown x) = map_option s_Shutdown x" for x :: "'a subscriber option"
    by (cases x) (auto simp: s_Shutdown_def)
  ultimately show ?case using Cons.IH by auto
qed simp

lemma es_rel_close:
  assumes rel: "es_rel es sp"
  shows "es_rel (es_Close es) (\<lambda>sid. map_option (\<lambda>b. b\<lparr>ib_active := False\<rparr>) (sp sid))"
proof -
  have "sub_rel (es_heap (es_Close es) k) (map_option (\<lambda>b. b\<lparr>ib_active := False\<rparr>) (sp k))" for k
  proof -
    have m: "k \<in> set (map fst (es_subscribers es)) \<longleftrightarrow> (case sp k of None \<Rightarrow> False | Some b \<Rightarrow> ib_active b)" using rel by (simp add: es_rel_def)
    show ?thesis
      using es_rel_heap [OF rel, of k] m by (cases "es_heap es k"; cases "sp k") (auto simp: es_Close_def close_heap s_Shutdown_def)
  qed
  moreover have "\<not> on_topic (\<lambda>sid. map_option (\<lambda>b. b\<lparr>ib_active := False\<rparr>) (sp sid)) k t" for k t
    by (simp add: on_topic_def split: option.split)
  moreover have "\<not> (case map_option (\<lambda>b. b\<lparr>ib_active := False\<rparr>) (sp k) of None \<Rightarrow> False | Some b \<Rightarrow> ib_active b)" for k
    by (simp split: option.split)
  ultimately show ?thesis by (simp add: es_rel_def es_Close_def)
qed

subsection \<open>Runs of the broker\<close>

text \<open>An identifier is used for one subscriber, and an inbox holds fewer than \<open>2 ^ 63\<close> messages.\<close>

fun es_pre :: "'p es_op \<Rightarrow> 'p es_spec \<Rightarrow> bool" where
  "es_pre (OpAdd sid) sp = (sp sid = None)"
| "es_pre (OpIterate sid) sp = (case sp sid of None \<Rightarrow> True | Some b \<Rightarrow> length (ib_msgs b) < 2 ^ 63)"
| "es_pre _ sp = True"

fun es_run :: "'p es_op list \<Rightarrow> 'p EventsStream \<Rightarrow> ('p message list list \<times> 'p EventsStream) option" where
  "es_run [] es = Some ([], es)"
| "es_run (a # as) es =
     (case es_do a es of None \<Rightarrow> None | Some (r, es1) \<Rightarrow> map_option (\<lambda>(rs, es2). (r # rs, es2)) (es_run as es1))"

fun es_spec_run :: "'p es_op list \<Rightarrow> 'p es_spec \<Rightarrow> 'p message list list \<times> 'p es_spec" where
  "es_spec_run [] sp = ([], sp)"
| "es_spec_run (a # as) sp =
     (case es_spec_do a sp of (r, sp1) \<Rightarrow> case es_spec_run as sp1 of (rs, sp2) \<Rightarrow> (r # rs, sp2))"

fun es_pre_run :: "'p es_op list \<Rightarrow> 'p es_spec \<Rightarrow> bool" where
  "es_pre_run [] sp = True"
| "es_pre_run (a # as) sp = (es_pre a sp \<and> es_pre_run as (snd (es_spec_do a sp)))"

lemma es_do_refines:
  assumes rel: "es_rel es sp" and pre: "es_pre a sp"
  shows "\<exists>es'. es_do a es = Some (fst (es_spec_do a sp), es') \<and> es_rel es' (snd (es_spec_do a sp))"
proof (cases a)
  case (OpAdd sid)
  then show ?thesis using es_rel_add [OF rel] pre by simp
next
  case (OpRemove sid)
  then show ?thesis using es_rel_remove [OF rel] by simp
next
  case (OpSubscribe sid t)
  then show ?thesis using es_rel_subscribe [OF rel] by simp
next
  case (OpUnsubscribe sid t)
  then show ?thesis using es_rel_unsubscribe [OF rel] by simp
next
  case (OpPublish t p)
  then show ?thesis using es_rel_publish [OF rel, of t p] by (auto simp: Publish_def)
next
  case (OpBroadcast p ts)
  then show ?thesis using es_rel_broadcast [OF rel, of p ts] by auto
next
  case (OpIterate sid)
  then have "length (ib_msgs b) < 2 ^ 63" if "sp sid = Some b" for b using pre that by simp
  then show ?thesis using es_rel_iterate [OF rel, of sid] OpIterate by simp
next
  case OpClose
  then show ?thesis using es_rel_close [OF rel] by simp
qed

lemma es_run_refines:
  "es_rel es sp \<Longrightarrow> es_pre_run as sp \<Longrightarrow> \<exists>es'. es_run as es = Some (fst (es_spec_run as sp), es') \<and> es_rel es' (snd (es_spec_run as sp))"
proof (induction as arbitrary: es sp)
  case (Cons a as)
  obtain es1 where e: "es_do a es = Some (fst (es_spec_do a sp), es1)" "es_rel es1 (snd (es_spec_do a sp))"
    using es_do_refines [OF Cons.prems(1)] Cons.prems(2) by auto
  with Cons.IH [OF e(2)] Cons.prems(2) show ?case by (auto simp: case_prod_unfold)
qed simp

text \<open>
  C9. From an empty broker every sequence of calls returns and delivers what the specification says:
  a published message reaches exactly the subscribers that are active and subscribed to its topic at
  that moment, once and in the order of publication, and \<^verbatim>\<open>Iterator\<close> hands out everything delivered
  since the last call; \<^verbatim>\<open>SubscribersCount\<close> counts the active subscribers of the topic.
\<close>

theorem eventstream_delivery:
  assumes "es_pre_run ops (\<lambda>_. None)"
  shows "\<exists>es. es_run ops es_New = Some (fst (es_spec_run ops (\<lambda>_. None)), es) \<and>
    SubscribersCount t es = card {sid. on_topic (snd (es_spec_run ops (\<lambda>_. None))) sid t}"
proof -
  obtain es where e: "es_run ops es_New = Some (fst (es_spec_run ops (\<lambda>_. None)), es)" "es_rel es (snd (es_spec_run ops (\<lambda>_. None)))"
    using es_run_refines [OF es_rel_new assms] by blast
  let ?subs = "ggetl (es_topics es) t"
  have "{sid. on_topic (snd (es_spec_run ops (\<lambda>_. None))) sid t} = set (map fst ?subs)" "distinct (map fst ?subs)"
    using e(2) by (simp_all add: es_rel_def keys_ok_def set_eq_iff)
  then have "SubscribersCount t es = card {sid. on_topic (snd (es_spec_run ops (\<lambda>_. None))) sid t}"
    by (metis SubscribersCount_def distinct_card length_map)
  then show ?thesis using e(1) by blast
qed

theorem eventstream_delivery_witness:
  "let ops = [OpAdd ''a'', OpAdd ''b'', OpSubscribe ''a'' ''t'', OpPublish ''t'' (7 :: nat), OpRemove ''b'', OpIterate ''a'']
   in \<exists>es. es_run ops es_New = Some ([[], [], [], [], [], [Message ''t'' 7]], es) \<and> SubscribersCount ''t'' es = 1"
proof -
  let ?ops = "[OpAdd ''a'', OpAdd ''b'', OpSubscribe ''a'' ''t'', OpPublish ''t'' (7 :: nat), OpRemove ''b'', OpIterate ''a'']"
  have pre: "es_pre_run ?ops (\<lambda>_. None)" by (simp add: ib_upd_def ib_publish_def)
  have out: "fst (es_spec_run ?ops (\<lambda>_. None)) = [[], [], [], [], [], [Message ''t'' 7]]" by (simp add: ib_upd_def ib_publish_def)
  have "{sid. on_topic (snd (es_spec_run ?ops (\<lambda>_. None))) sid ''t''} = {''a''}"
    by (auto simp: ib_upd_def ib_publish_def on_topic_def split: if_splits)
  then show ?thesis using eventstream_delivery [OF pre, of "''t''"] out by (simp add: Let_def del: es_run.simps es_spec_run.simps)
qed

end
