(* ===== verification/Stream_Queue.thy ===== *)
theory Stream_Queue
  imports Mailbox_Spec
begin

section \<open>The buffer of a stream stage\<close>

text \<open>
  The FIFO buffer of \<^verbatim>\<open>stream/queue.go\<close>: a slice and the index of its first live slot. Popping a
  slot sets it to nil and, once the dead prefix is half of the slice, moves the rest to the front.
  A Go value of type \<^verbatim>\<open>any\<close> is an option, \<^const>\<open>None\<close> being nil. The lemmas show that the buffer is a
  list, that it never keeps a popped value alive, and that at most half of the slice is dead; it
  interprets the mailbox contract.
\<close>

named_theorems squeue_simps \<open>the list a stage buffer stands for after an operation\<close>

type_synonym 'v any = "'v option"

record 'v squeue =
  sq_data :: "'v any list"
  sq_head :: nat

definition sq_new :: "'v squeue" where
  "sq_new = \<lparr>sq_data = [], sq_head = 0\<rparr>"

definition sq_push :: "'v any \<Rightarrow> 'v squeue \<Rightarrow> 'v squeue" where
  "sq_push v q = q\<lparr>sq_data := sq_data q @ [v]\<rparr>"

text \<open>\<^verbatim>\<open>copy\<close> moves the live slots to the front, the vacated tail is zeroed, and the slice is cut.\<close>

definition sq_compact :: "'v squeue \<Rightarrow> 'v squeue" where
  "sq_compact q =
     (let n = length (sq_data q) - sq_head q;
          copied = drop (sq_head q) (sq_data q) @ drop n (sq_data q);
          zeroed = take n copied @ replicate (length (sq_data q) - n) None
      in q\<lparr>sq_data := take n zeroed, sq_head := 0\<rparr>)"

text \<open>\<^const>\<open>None\<close> is the index panic of popping an empty buffer.\<close>

definition sq_pop :: "'v squeue \<Rightarrow> ('v any \<times> 'v squeue) option" where
  "sq_pop q =
     (if sq_head q < length (sq_data q) then
        let v = sq_data q ! sq_head q;
            q1 = q\<lparr>sq_data := (sq_data q)[sq_head q := None], sq_head := sq_head q + 1\<rparr>
        in Some (v, if length (sq_data q1) \<le> sq_head q1 * 2 then sq_compact q1 else q1)
      else None)"

definition sq_peek :: "'v squeue \<Rightarrow> 'v any option" where
  "sq_peek q = (if sq_head q < length (sq_data q) then Some (sq_data q ! sq_head q) else None)"

definition sq_len :: "'v squeue \<Rightarrow> int" where
  "sq_len q = int (length (sq_data q)) - int (sq_head q)"

definition sq_empty :: "'v squeue \<Rightarrow> bool" where
  "sq_empty q \<longleftrightarrow> length (sq_data q) \<le> sq_head q"

subsection \<open>The list a buffer stands for\<close>

definition sq_list :: "'v squeue \<Rightarrow> 'v any list" where
  "sq_list q = drop (sq_head q) (sq_data q)"

text \<open>The dead prefix is zeroed and shorter than the rest.\<close>

definition sq_ok :: "'v squeue \<Rightarrow> bool" where
  "sq_ok q \<longleftrightarrow> (sq_head q = 0 \<or> 2 * sq_head q < length (sq_data q)) \<and>
     (\<forall>i < sq_head q. sq_data q ! i = None)"

lemma sq_ok_head: "sq_ok q \<Longrightarrow> sq_head q \<le> length (sq_data q)"
  by (auto simp: sq_ok_def)

lemma sq_new_ok [simp]: "sq_ok sq_new" "sq_list sq_new = []"
  by (simp_all add: sq_ok_def sq_new_def sq_list_def)

lemma sq_push_ok [simp]: "sq_ok q \<Longrightarrow> sq_ok (sq_push v q)"
  by (auto simp: sq_ok_def sq_push_def nth_append)

lemma sq_push_list [squeue_simps]: "sq_ok q \<Longrightarrow> sq_list (sq_push v q) = sq_list q @ [v]"
  using sq_ok_head [of q] by (simp add: sq_push_def sq_list_def)

lemma sq_empty_list [squeue_simps]: "sq_empty q \<longleftrightarrow> sq_list q = []"
  by (simp add: sq_empty_def sq_list_def)

lemma sq_len_list [squeue_simps]: "sq_ok q \<Longrightarrow> sq_len q = int (length (sq_list q))"
  using sq_ok_head [of q] by (simp add: sq_len_def sq_list_def)

lemma sq_compact_data:
  "sq_head q \<le> length (sq_data q) \<Longrightarrow> sq_data (sq_compact q) = sq_list q" "sq_head (sq_compact q) = 0"
  by (simp_all add: sq_compact_def sq_list_def Let_def min_def)

lemma sq_peek_list: "sq_peek q = (case sq_list q of [] \<Rightarrow> None | v # _ \<Rightarrow> Some v)"
proof (cases "sq_head q < length (sq_data q)")
  case True
  then show ?thesis by (simp add: sq_peek_def sq_list_def Cons_nth_drop_Suc [symmetric])
qed (simp add: sq_peek_def sq_list_def)

lemma sq_pop_empty: "sq_list q = [] \<Longrightarrow> sq_pop q = None"
  by (simp add: sq_pop_def sq_list_def)

lemma sq_pop_list:
  assumes "sq_ok q" "sq_list q = v # vs"
  shows "\<exists>q'. sq_pop q = Some (v, q') \<and> sq_ok q' \<and> sq_list q' = vs"
proof -
  define q1 where "q1 = q\<lparr>sq_data := (sq_data q)[sq_head q := None], sq_head := sq_head q + 1\<rparr>"
  have h: "sq_head q < length (sq_data q)" using assms(2) by (simp add: sq_list_def) (metis drop_all list.discI not_le)
  then have v: "sq_data q ! sq_head q = v" "drop (Suc (sq_head q)) (sq_data q) = vs"
    using assms(2) by (auto simp: sq_list_def Cons_nth_drop_Suc [symmetric])
  then have l1: "sq_list q1 = vs" by (simp add: q1_def sq_list_def)
  have nil: "\<forall>i < sq_head q1. sq_data q1 ! i = None"
    using assms(1) h by (auto simp: q1_def sq_ok_def less_Suc_eq nth_list_update)
  show ?thesis
  proof (cases "length (sq_data q1) \<le> sq_head q1 * 2")
    case True
    then have "sq_pop q = Some (v, sq_compact q1)" using h v by (simp add: sq_pop_def q1_def Let_def)
    moreover have "sq_ok (sq_compact q1)" by (simp add: sq_ok_def sq_compact_data)
    moreover have "sq_list (sq_compact q1) = vs" 
    proof -
      have "sq_head q1 \<le> length (sq_data q1)" using h by (simp add: q1_def)
      then show ?thesis using l1 sq_compact_data [of q1] by (simp add: sq_list_def [of "sq_compact q1"])
    qed
    ultimately show ?thesis by blast
  next
    case False
    then have "sq_pop q = Some (v, q1)" using h v by (simp add: sq_pop_def q1_def Let_def)
    moreover have "sq_ok q1" using False nil by (simp add: sq_ok_def)
    ultimately show ?thesis using l1 by blast
  qed
qed

text \<open>No popped value stays in the slice, and the slice is at most twice as long as the list.\<close>

lemma sq_releases: "sq_ok q \<Longrightarrow> v \<noteq> None \<Longrightarrow> v \<in> set (sq_data q) \<Longrightarrow> v \<in> set (sq_list q)"
proof -
  assume q: "sq_ok q" "v \<noteq> None" "v \<in> set (sq_data q)"
  then obtain i where i: "i < length (sq_data q)" "sq_data q ! i = v" by (auto simp: in_set_conv_nth)
  then have "sq_head q \<le> i" using q by (auto simp: sq_ok_def not_le [symmetric])
  then show ?thesis using i by (auto simp: sq_list_def in_set_conv_nth intro!: exI [of _ "i - sq_head q"])
qed

lemma sq_compact_bound: "sq_ok q \<Longrightarrow> length (sq_data q) \<le> 2 * length (sq_list q)"
  by (auto simp: sq_ok_def sq_list_def)

definition sq_take :: "'v squeue \<Rightarrow> 'v any option \<times> 'v squeue" where
  "sq_take q = (case sq_pop q of None \<Rightarrow> (None, q) | Some (v, q') \<Rightarrow> (Some v, q'))"

interpretation stage_buffer: fifo_mailbox sq_ok sq_list "\<lambda>_. False" "\<lambda>_ _. True"
  "\<lambda>v q. (True, sq_push v q)" sq_take
proof unfold_locales
  fix q :: "'v squeue" and m :: "'v any" and ms
  assume q: "sq_ok q"
  show "\<exists>q'. sq_take q = (Some m, q') \<and> sq_ok q' \<and> sq_list q' = ms" if "sq_list q = m # ms"
    using sq_pop_list [OF q that] by (auto simp: sq_take_def)
qed (auto simp: squeue_simps sq_take_def sq_pop_empty)

lemma sq_push_all:
  "sq_ok q \<Longrightarrow> sq_ok (fold sq_push vs q) \<and> sq_list (fold sq_push vs q) = sq_list q @ vs"
  by (induction vs arbitrary: q) (auto simp: squeue_simps)

end
