(* ===== verification/Stream_Protocol.thy ===== *)
theory Stream_Protocol
  imports Stream_Queue
begin

section \<open>The protocol between stream stages\<close>

text \<open>
  Messages (\<^verbatim>\<open>stream/protocol.go\<close>), configuration (\<^verbatim>\<open>stream/config.go\<close>, \<^verbatim>\<open>stream/errors.go\<close>) and metrics of
  stream stages. A stage is an actor: its handler is a function from its state and a message to the
  new state and the list of effects in the order of the calls. The hooks of an optional tracer
  only observe and are left out: stages run with a nil tracer. The locale \<open>backpressure\<close> is the promise
  of the package documentation that a stage never emits more than was requested;
  \<open>fifo_stage\<close> adds that nothing is lost, duplicated or reordered before completion. Their lemmas
  are about whole runs and every stage that keeps the promise interprets them.
\<close>

named_theorems stage_simps \<open>effects of stage operations\<close>

type_synonym spid = nat

datatype ErrorStrategy = FailFast | Resume | Retry | Supervise

datatype OverflowStrategy = DropHead | DropTail | BackpressureSource | FailSource

record StageConfig =
  InitialDemand :: int
  RefillThreshold :: int
  strategy_of :: ErrorStrategy
  MaxAttempts :: int
  overflow_of :: OverflowStrategy
  BufferSize :: int
  has_OnDrop :: bool
  Fusion :: bool

definition defaultStageConfig :: StageConfig where
  "defaultStageConfig = \<lparr>InitialDemand = 224, RefillThreshold = 64, strategy_of = FailFast, MaxAttempts = 1,
     overflow_of = DropTail, BufferSize = 256, has_OnDrop = False, Fusion = True\<rparr>"

record stageMetrics =
  elementsIn :: u64
  elementsOut :: u64
  droppedElements :: u64
  errors :: u64

definition no_metrics :: stageMetrics where
  "no_metrics = \<lparr>elementsIn = 0, elementsOut = 0, droppedElements = 0, errors = 0\<rparr>"

abbreviation count_in :: "stageMetrics \<Rightarrow> stageMetrics" where
  "count_in m \<equiv> m\<lparr>elementsIn := elementsIn m + 1\<rparr>"

abbreviation count_out :: "stageMetrics \<Rightarrow> stageMetrics" where
  "count_out m \<equiv> m\<lparr>elementsOut := elementsOut m + 1\<rparr>"

datatype 'v smsg =
    stageWire string "spid option" "spid option"
  | streamRequest string int
  | streamElement string "'v any" u64
  | streamComplete string
  | streamError string string
  | streamCancel string
  | chanBatch "'v any list"
  | chanDone
  | fetchResult "'v any list" bool int
  | fetchErr string
  | tickTick
  | batchFlush
  | throttleTick
  | mergeSubDone int
  | mergeSubValue int "'v any"
  | slotDemand int int
  | hubReady spid
  | slotCancel int
  | subOut "'v any"
  | subDone int
  | subErr int string
  | workerTask u64 "'v any"
  | parallelResult u64 "'v any" "string option"
  | Terminated string
  | OtherMessage

text \<open>
  What a handler does besides changing its state: send a message (to a PID that may be nil), shut
  down, report an unhandled message, ask the scheduler for ticks or withdraw them, start a fetch from
  an actor or the goroutine that reads a channel, spawn the sub-pipeline with an index, call the \<^verbatim>\<open>OnDrop\<close> or completion hook of the user, or panic.
\<close>

datatype 'v seff =
    Tell "spid option" "'v smsg"
  | Stop
  | Unhandled
  | Schedule "'v smsg"
  | ScheduleOnce "'v smsg"
  | CancelSchedule
  | WatchActor "spid option"
  | UnWatchActor "spid option"
  | Fetch int
  | StartBridge
  | SpawnSub int
  | AbortSubs
  | OnDrop "'v any" string
  | OnComplete
  | Panic

text \<open>A dead stage handles nothing more: a run ends with the message on which the stage stops.\<close>

fun stage_run :: "('s \<Rightarrow> 'v smsg \<Rightarrow> 's \<times> 'v seff list) \<Rightarrow> 's \<Rightarrow> 'v smsg list \<Rightarrow> 's \<times> 'v seff list" where
  "stage_run recv s [] = (s, [])"
| "stage_run recv s (m # ms) =
     (case recv s m of (s1, es1) \<Rightarrow>
        if Stop \<in> set es1 then (s1, es1)
        else (case stage_run recv s1 ms of (s2, es2) \<Rightarrow> (s2, es1 @ es2)))"

subsection \<open>Emitted elements\<close>

fun elem_of :: "'v seff \<Rightarrow> ('v any \<times> u64) option" where
  "elem_of (Tell _ (streamElement _ v n)) = Some (v, n)"
| "elem_of _ = None"

definition emitted :: "'v seff list \<Rightarrow> ('v any \<times> u64) list" where
  "emitted es = List.map_filter elem_of es"

fun is_complete :: "'v seff \<Rightarrow> bool" where
  "is_complete (Tell _ (streamComplete _)) = True"
| "is_complete _ = False"

definition completes :: "'v seff list \<Rightarrow> bool" where
  "completes es = list_ex is_complete es"

fun requested :: "'v smsg \<Rightarrow> int" where
  "requested (streamRequest _ n) = n"
| "requested _ = 0"

fun seqs :: "u64 \<Rightarrow> nat \<Rightarrow> u64 list" where
  "seqs n 0 = []"
| "seqs n (Suc k) = (n + 1) # seqs (n + 1) k"

lemma seqs_length [simp]: "length (seqs n k) = k"
  by (induction k arbitrary: n) auto

lemma seqs_append: "seqs n (j + k) = seqs n j @ seqs (n + of_nat j) k"
  by (induction j arbitrary: n) (auto simp: add.assoc)

lemma seqs_nth: "i < k \<Longrightarrow> seqs n k ! i = n + of_nat (Suc i)"
  by (induction k arbitrary: n i) (auto simp: nth_Cons split: nat.splits)

lemma emitted_simps [simp]:
  "emitted [] = []"
  "emitted (e # es) = (case elem_of e of None \<Rightarrow> emitted es | Some x \<Rightarrow> x # emitted es)"
  by (simp_all add: emitted_def List.map_filter_simps split: option.split)

lemma emitted_append [simp]: "emitted (es @ fs) = emitted es @ emitted fs"
  by (induction es) (auto split: option.splits)

lemma completes_simps [simp]:
  "\<not> completes []"
  "completes (e # es) \<longleftrightarrow> is_complete e \<or> completes es"
  "completes (es @ fs) \<longleftrightarrow> completes es \<or> completes fs"
  by (auto simp: completes_def)

subsection \<open>Sending elements\<close>

text \<open>The loop \<^verbatim>\<open>for v { seqNo++; Tell(downstream, streamElement) }\<close>.\<close>

fun elems :: "string \<Rightarrow> spid option \<Rightarrow> u64 \<Rightarrow> 'v any list \<Rightarrow> 'v seff list" where
  "elems sub to n [] = []"
| "elems sub to n (v # vs) = Tell to (streamElement sub v (n + 1)) # elems sub to (n + 1) vs"

text \<open>The loop \<^verbatim>\<open>for demand > 0 && !buf.empty()\<close> that all buffering stages share.\<close>

function drain :: "string \<Rightarrow> spid option \<Rightarrow> int \<Rightarrow> 'v squeue \<Rightarrow> u64 \<Rightarrow> int \<times> 'v squeue \<times> u64 \<times> 'v seff list" where
  "drain sub to d q n =
     (if 0 < d \<and> \<not> sq_empty q then
        (case sq_pop q of
           None \<Rightarrow> (d, q, n + 1, [Panic])
         | Some (v, q1) \<Rightarrow>
             (case drain sub to (d - 1) q1 (n + 1) of
                (d2, q2, n2, es) \<Rightarrow> (d2, q2, n2, Tell to (streamElement sub v (n + 1)) # es)))
      else (d, q, n, []))"
  by pat_completeness auto
termination by (relation "measure (\<lambda>(sub, to, d, q, n). nat d)") auto

declare drain.simps [simp del]

lemma emitted_elems [simp]:
  "map fst (emitted (elems sub to n vs)) = vs" "map snd (emitted (elems sub to n vs)) = seqs n (length vs)"
  "length (emitted (elems sub to n vs)) = length vs"
  by (induction vs arbitrary: n) auto

lemma elems_plain [simp]:
  "\<not> completes (elems sub to n vs)" "Stop \<notin> set (elems sub to n vs)" "Panic \<notin> set (elems sub to n vs)"
  by (induction vs arbitrary: n) auto

lemma elems_tell: "e \<in> set (elems sub to n vs) \<Longrightarrow> \<exists>v k. e = Tell to (streamElement sub v k)"
  by (induction vs arbitrary: n) auto

lemma drain_spec:
  assumes "sq_ok q" "0 \<le> d"
  shows "\<exists>q'. drain sub to d q n =
       (d - int (min (nat d) (length (sq_list q))), q', n + of_nat (min (nat d) (length (sq_list q))),
        elems sub to n (take (nat d) (sq_list q))) \<and>
     sq_ok q' \<and> sq_list q' = drop (nat d) (sq_list q)"
  using assms
proof (induction sub to d q n rule: drain.induct)
  case (1 sub to d q n)
  show ?case
  proof (cases "0 < d \<and> sq_list q \<noteq> []")
    case True
    then obtain v vs where l: "sq_list q = v # vs" by (cases "sq_list q") auto
    obtain q1 where p: "sq_pop q = Some (v, q1)" "sq_ok q1" "sq_list q1 = vs"
      using sq_pop_list [OF "1.prems"(1) l] by blast
    have ne: "\<not> sq_empty q" using l by (simp add: squeue_simps)
    obtain q' where r: "drain sub to (d - 1) q1 (n + 1) =
        (d - 1 - int (min (nat (d - 1)) (length vs)), q', n + 1 + of_nat (min (nat (d - 1)) (length vs)),
         elems sub to (n + 1) (take (nat (d - 1)) vs))" "sq_ok q'" "sq_list q' = drop (nat (d - 1)) vs"
      using "1.IH" [of "(v, q1)" v q1] True p ne by auto
    obtain k where k: "nat d = Suc k" "nat (d - 1) = k" using True by (cases "nat d") auto
    show ?thesis using r p True ne k l by (simp add: drain.simps [of sub to d q n] add.assoc)
  next
    case False
    then show ?thesis using "1.prems" by (auto simp: drain.simps [of sub to d q n] squeue_simps)
  qed
qed

lemma drainD:
  assumes "drain sub to d q n = (d', q', n', es)" "sq_ok q" "0 \<le> d"
  shows "sq_ok q'" "0 \<le> d'" "d' + int (length (emitted es)) = d" "map fst (emitted es) @ sq_list q' = sq_list q"
    "map snd (emitted es) = seqs n (length (emitted es))" "n' = n + of_nat (length (emitted es))"
    "\<not> completes es" "Stop \<notin> set es" "Panic \<notin> set es" "d' = 0 \<or> sq_list q' = []"
  using assms drain_spec [OF assms(2,3), of sub to n] by (auto simp: min_def)

subsection \<open>The contract of a stage\<close>

fun stage_goods :: "('s \<Rightarrow> 'v smsg \<Rightarrow> 's \<times> 'v seff list) \<Rightarrow> ('s \<Rightarrow> 'v smsg \<Rightarrow> bool) \<Rightarrow> 's \<Rightarrow> 'v smsg list \<Rightarrow> bool" where
  "stage_goods recv good s [] = True"
| "stage_goods recv good s (m # ms) =
     (good s m \<and> (case recv s m of (s1, es) \<Rightarrow> Stop \<in> set es \<or> stage_goods recv good s1 ms))"

locale backpressure =
  fixes recv :: "'s \<Rightarrow> 'v smsg \<Rightarrow> 's \<times> 'v seff list"
    and ok :: "'s \<Rightarrow> bool"
    and good :: "'s \<Rightarrow> 'v smsg \<Rightarrow> bool"
    and demand :: "'s \<Rightarrow> int"
    and seqno :: "'s \<Rightarrow> u64"
  assumes step_ok: "ok s \<Longrightarrow> good s m \<Longrightarrow> recv s m = (s', es) \<Longrightarrow> ok s'"
    and step_demand: "ok s \<Longrightarrow> good s m \<Longrightarrow> recv s m = (s', es) \<Longrightarrow>
          demand s' + int (length (emitted es)) \<le> demand s + requested m"
    and step_seq: "ok s \<Longrightarrow> good s m \<Longrightarrow> recv s m = (s', es) \<Longrightarrow>
          map snd (emitted es) = seqs (seqno s) (length (emitted es)) \<and>
          seqno s' = seqno s + of_nat (length (emitted es))"
    and demand_pos: "ok s \<Longrightarrow> 0 \<le> demand s"
begin

lemma run_ok:
  assumes "ok s" "stage_goods recv good s ms" "stage_run recv s ms = (s', es)"
  shows "ok s'"
  using assms
proof (induction ms arbitrary: s es)
  case (Cons m ms)
  obtain s1 es1 where r: "recv s m = (s1, es1)" by force
  have s1: "ok s1" using step_ok [OF Cons.prems(1) _ r] Cons.prems(2) by simp
  then show ?case using Cons.IH [OF s1] Cons.prems r by (auto split: prod.splits if_splits)
qed simp

lemma run_step:
  assumes "ok s" "stage_goods recv good s ms" "stage_run recv s ms = (s', es)" "list_all (\<lambda>m. 0 \<le> requested m) ms"
  shows "ok s' \<and> demand s' + int (length (emitted es)) \<le> demand s + sum_list (map requested ms) \<and>
     map snd (emitted es) = seqs (seqno s) (length (emitted es)) \<and> seqno s' = seqno s + of_nat (length (emitted es))"
  using assms
proof (induction ms arbitrary: s es)
  case (Cons m ms)
  obtain s1 es1 where r: "recv s m = (s1, es1)" by force
  have g: "good s m" "0 \<le> requested m" "list_all (\<lambda>m. 0 \<le> requested m) ms" using Cons.prems by auto
  note st = step_ok [OF Cons.prems(1) g(1) r] step_demand [OF Cons.prems(1) g(1) r] step_seq [OF Cons.prems(1) g(1) r]
  have pos: "0 \<le> sum_list (map requested ms)" using g(3) by (induction ms) auto
  show ?case
  proof (cases "Stop \<in> set es1")
    case True
    then show ?thesis using Cons.prems(3) r st pos by auto
  next
    case False
    then obtain es2 where r2: "stage_run recv s1 ms = (s', es2)" "es = es1 @ es2"
      using Cons.prems(3) r by (auto split: prod.splits)
    have ih: "ok s' \<and> demand s' + int (length (emitted es2)) \<le> demand s1 + sum_list (map requested ms) \<and>
       map snd (emitted es2) = seqs (seqno s1) (length (emitted es2)) \<and> seqno s' = seqno s1 + of_nat (length (emitted es2))"
      using Cons.IH [OF st(1) _ r2(1) g(3)] Cons.prems(2) r False by simp
    have l: "emitted es = emitted es1 @ emitted es2" using r2(2) by simp
    show ?thesis using ih st unfolding l by (simp add: seqs_append)
  qed
qed simp

lemma run_bounded:
  assumes "ok s" "stage_goods recv good s ms" "list_all (\<lambda>m. 0 \<le> requested m) ms"
  shows "int (length (emitted (snd (stage_run recv s ms)))) \<le> demand s + sum_list (map requested ms)"
    and "map snd (emitted (snd (stage_run recv s ms))) = seqs (seqno s) (length (emitted (snd (stage_run recv s ms))))"
  using run_step [OF assms(1,2) prod.collapse [symmetric] assms(3)] demand_pos by force+

end

text \<open>
  A stage that hands on its input in order: \<open>pending\<close> is what it holds back, \<open>input\<close> what a message adds.
  Cancelling is the only way to drop elements.
\<close>

fun is_cancel :: "'v smsg \<Rightarrow> bool" where
  "is_cancel (streamCancel _) = True"
| "is_cancel _ = False"

fun run_input :: "('s \<Rightarrow> 'v smsg \<Rightarrow> 's \<times> 'v seff list) \<Rightarrow> ('s \<Rightarrow> 'v smsg \<Rightarrow> 'v any list) \<Rightarrow>
    's \<Rightarrow> 'v smsg list \<Rightarrow> 'v any list" where
  "run_input recv input s [] = []"
| "run_input recv input s (m # ms) =
     input s m @ (case recv s m of (s1, es) \<Rightarrow> if Stop \<in> set es then [] else run_input recv input s1 ms)"

locale fifo_stage = backpressure +
  fixes pending :: "'a \<Rightarrow> 'b any list"
    and input :: "'a \<Rightarrow> 'b smsg \<Rightarrow> 'b any list"
  assumes step_fifo: "ok s \<Longrightarrow> good s m \<Longrightarrow> \<not> is_cancel m \<Longrightarrow> recv s m = (s', es) \<Longrightarrow>
          map fst (emitted es) @ pending s' = pending s @ input s m"
    and step_complete: "ok s \<Longrightarrow> good s m \<Longrightarrow> \<not> is_cancel m \<Longrightarrow> recv s m = (s', es) \<Longrightarrow>
          completes es \<Longrightarrow> pending s' = [] \<and> Stop \<in> set es"
begin

lemma run_fifo:
  assumes "ok s" "stage_goods recv good s ms" "list_all (\<lambda>m. \<not> is_cancel m) ms" "stage_run recv s ms = (s', es)"
  shows "map fst (emitted es) @ pending s' = pending s @ run_input recv input s ms \<and>
     (completes es \<longrightarrow> pending s' = [])"
  using assms
proof (induction ms arbitrary: s es)
  case (Cons m ms)
  obtain s1 es1 where r: "recv s m = (s1, es1)" by force
  have g: "good s m" "\<not> is_cancel m" "list_all (\<lambda>m. \<not> is_cancel m) ms" using Cons.prems by auto
  note st = step_fifo [OF Cons.prems(1) g(1,2) r] step_complete [OF Cons.prems(1) g(1,2) r]
  show ?case
  proof (cases "Stop \<in> set es1")
    case True
    then show ?thesis using Cons.prems(4) r st by auto
  next
    case False
    then obtain es2 where r2: "stage_run recv s1 ms = (s', es2)" "es = es1 @ es2"
      using Cons.prems(4) r by (auto split: prod.splits)
    have ih: "map fst (emitted es2) @ pending s' = pending s1 @ run_input recv input s1 ms \<and>
       (completes es2 \<longrightarrow> pending s' = [])"
      using Cons.IH [OF step_ok [OF Cons.prems(1) g(1) r] _ g(3) r2(1)] Cons.prems(2) r False by simp
    have "map fst (emitted es1) @ (map fst (emitted es2) @ pending s') = pending s @ input s m @ run_input recv input s1 ms"
      using ih st(1) by (metis append.assoc)
    then show ?thesis using ih st(2) r r2 False by auto
  qed
qed simp

end

text \<open>
  A stage that never holds back what was asked for: after every message either the demand or the buffer
  is used up.
\<close>

locale eager_stage = fifo_stage +
  assumes step_exact: "ok s \<Longrightarrow> good s m \<Longrightarrow> \<not> is_cancel m \<Longrightarrow> recv s m = (s', es) \<Longrightarrow>
          demand s' + int (length (emitted es)) = demand s + requested m"
    and step_eager: "ok s \<Longrightarrow> good s m \<Longrightarrow> \<not> is_cancel m \<Longrightarrow> recv s m = (s', es) \<Longrightarrow>
          demand s = 0 \<or> pending s = [] \<Longrightarrow> demand s' = 0 \<or> pending s' = []"
begin

lemma run_exact:
  assumes "ok s" "stage_goods recv good s ms" "list_all (\<lambda>m. \<not> is_cancel m) ms" "stage_run recv s ms = (s', es)"
    "demand s = 0 \<or> pending s = []" "Stop \<notin> set es"
  shows "demand s' + int (length (emitted es)) = demand s + sum_list (map requested ms) \<and>
     (demand s' = 0 \<or> pending s' = [])"
  using assms
proof (induction ms arbitrary: s es)
  case (Cons m ms)
  obtain s1 es1 where r: "recv s m = (s1, es1)" by force
  have g: "good s m" "\<not> is_cancel m" "list_all (\<lambda>m. \<not> is_cancel m) ms" using Cons.prems by auto
  have ns: "Stop \<notin> set es1" using Cons.prems(4,6) r by (auto split: prod.splits if_splits)
  then obtain es2 where r2: "stage_run recv s1 ms = (s', es2)" "es = es1 @ es2"
    using Cons.prems(4) r by (auto split: prod.splits)
  have ih: "demand s' + int (length (emitted es2)) = demand s1 + sum_list (map requested ms) \<and>
     (demand s' = 0 \<or> pending s' = [])"
    using Cons.IH [OF step_ok [OF Cons.prems(1) g(1) r] _ g(3) r2(1)
        step_eager [OF Cons.prems(1) g(1,2) r Cons.prems(5)]] Cons.prems(2,6) r ns r2(2) by simp
  show ?case using ih step_exact [OF Cons.prems(1) g(1,2) r] r2(2) by simp
qed simp

lemma run_eager:
  assumes "ok s" "stage_goods recv good s ms" "list_all (\<lambda>m. \<not> is_cancel m) ms" "stage_run recv s ms = (s', es)"
    "demand s = 0 \<or> pending s = []" "Stop \<notin> set es"
  shows "map fst (emitted es) = take (nat (demand s + sum_list (map requested ms))) (pending s @ run_input recv input s ms)"
proof -
  have f: "map fst (emitted es) @ pending s' = pending s @ run_input recv input s ms"
    using run_fifo [OF assms(1-4)] by blast
  have x: "demand s' + int (length (emitted es)) = demand s + sum_list (map requested ms)"
    "demand s' = 0 \<or> pending s' = []" using run_exact [OF assms] by auto
  have "ok s'" using run_ok [OF assms(1,2,4)] .
  then have "0 \<le> demand s'" by (rule demand_pos)
  then have "nat (demand s + sum_list (map requested ms)) = length (map fst (emitted es)) + nat (demand s')"
    using x(1) by simp
  then show ?thesis using x(2) unfolding f [symmetric] by auto
qed

end

text \<open>One lemma per stage about one message is enough for the three contracts.\<close>

lemma eager_stageI:
  assumes "\<And>s m s' es. ok s \<Longrightarrow> good s m \<Longrightarrow> recv s m = (s', es) \<Longrightarrow>
      ok s' \<and> demand s' + int (length (emitted es)) = demand s + requested m \<and>
      map snd (emitted es) = seqs (seqno s) (length (emitted es)) \<and> seqno s' = seqno s + of_nat (length (emitted es)) \<and>
      (\<not> is_cancel m \<longrightarrow> map fst (emitted es) @ pending s' = pending s @ input s m \<and>
         (completes es \<longrightarrow> pending s' = [] \<and> Stop \<in> set es) \<and>
         (demand s = 0 \<or> pending s = [] \<longrightarrow> demand s' = 0 \<or> pending s' = []))"
    and "\<And>s. ok s \<Longrightarrow> 0 \<le> demand s"
  shows "eager_stage recv ok good demand seqno pending input"
proof (unfold_locales)
  fix s s' m es
  assume "ok s" "good s m" "recv s m = (s', es)"
  note step = assms(1) [OF this]
  show "ok s'" using step by blast
  show "demand s' + int (length (emitted es)) \<le> demand s + requested m" using step by linarith
  show "map snd (emitted es) = seqs (seqno s) (length (emitted es)) \<and> seqno s' = seqno s + of_nat (length (emitted es))"
    using step by blast
  show "map fst (emitted es) @ pending s' = pending s @ input s m"
    "demand s' + int (length (emitted es)) = demand s + requested m" if "\<not> is_cancel m"
    using step that by blast+
  show "pending s' = [] \<and> Stop \<in> set es" if "\<not> is_cancel m" "completes es" using step that by blast
  show "demand s' = 0 \<or> pending s' = []" if "\<not> is_cancel m" "demand s = 0 \<or> pending s = []" using step that by blast
qed (rule assms(2))

lemma run_prefix:
  "\<exists>ms1 ms2. ms = ms1 @ ms2 \<and> stage_run recv s ms1 = stage_run recv s ms \<and>
     (Stop \<notin> set (snd (stage_run recv s ms)) \<longrightarrow> ms2 = []) \<and>
     (\<forall>f. run_input recv (\<lambda>_. f) s ms = concat (map f ms1))"
proof (induction ms arbitrary: s)
  case (Cons m ms)
  obtain s1 es1 where r: "recv s m = (s1, es1)" by force
  show ?case
  proof (cases "Stop \<in> set es1")
    case True
    then show ?thesis using r by (intro exI [of _ "[m]"] exI [of _ ms]) auto
  next
    case False
    obtain ms1 ms2 where p: "ms = ms1 @ ms2" "stage_run recv s1 ms1 = stage_run recv s1 ms"
      "Stop \<notin> set (snd (stage_run recv s1 ms)) \<longrightarrow> ms2 = []" "\<forall>f. run_input recv (\<lambda>_. f) s1 ms = concat (map f ms1)"
      using Cons.IH by blast
    show ?thesis using p r False by (intro exI [of _ "m # ms1"] exI [of _ ms2]) (auto split: prod.splits)
  qed
qed (auto intro: exI [of _ "[]"])

text \<open>
  A stage that completes once its inputs have ended and its buffer is empty: \<open>finished\<close> says that the inputs
  have ended, \<open>ends\<close> that they will have ended after some messages. If nothing arrives after the end,
  the stage delivers all of its input, up to the demand, and completes exactly when it has done so.
\<close>

fun is_wire :: "'v smsg \<Rightarrow> bool" where
  "is_wire (stageWire _ _ _) = True"
| "is_wire _ = False"

locale closing_stage = eager_stage recv ok good demand seqno pending "\<lambda>_. inp"
  for recv :: "'s \<Rightarrow> 'v smsg \<Rightarrow> 's \<times> 'v seff list" and ok good demand seqno pending inp +
  fixes finished :: "'s \<Rightarrow> bool"
    and ends :: "'s \<Rightarrow> 'v smsg list \<Rightarrow> bool"
  assumes ends_Nil: "ok s \<Longrightarrow> ends s [] = finished s"
    and ends_Cons: "ok s \<Longrightarrow> good s m \<Longrightarrow> \<not> is_cancel m \<Longrightarrow> \<not> is_wire m \<Longrightarrow> recv s m = (s', es) \<Longrightarrow>
          ends s (m # ms) = ends s' ms"
    and step_stop: "ok s \<Longrightarrow> good s m \<Longrightarrow> \<not> is_cancel m \<Longrightarrow> \<not> is_wire m \<Longrightarrow> recv s m = (s', es) \<Longrightarrow>
          (Stop \<in> set es \<longleftrightarrow> completes es) \<and> (completes es \<longrightarrow> finished s') \<and>
          (\<not> completes es \<longrightarrow> \<not> (finished s \<and> pending s = []) \<longrightarrow> \<not> (finished s' \<and> pending s' = []))"
begin

lemma run_stop:
  assumes "ok s" "stage_goods recv good s ms" "list_all (\<lambda>m. \<not> is_cancel m \<and> \<not> is_wire m) ms" "stage_run recv s ms = (s', es)"
    "\<not> (finished s \<and> pending s = [])"
  shows "(Stop \<in> set es \<longleftrightarrow> completes es) \<and>
     (completes es \<longrightarrow> (\<exists>ms1 ms2. ms = ms1 @ ms2 \<and> ends s ms1 \<and> run_input recv (\<lambda>_. inp) s ms = concat (map inp ms1))) \<and>
     (\<not> completes es \<longrightarrow> (ends s ms \<longrightarrow> pending s' \<noteq> []) \<and> run_input recv (\<lambda>_. inp) s ms = concat (map inp ms))"
  using assms
proof (induction ms arbitrary: s es)
  case Nil
  then show ?case by (simp add: ends_Nil)
next
  case (Cons m ms)
  obtain s1 es1 where r: "recv s m = (s1, es1)" by force
  have g: "good s m" "\<not> is_cancel m" "\<not> is_wire m" "list_all (\<lambda>m. \<not> is_cancel m \<and> \<not> is_wire m) ms" using Cons.prems by auto
  note e = ends_Cons [OF Cons.prems(1) g(1-3) r] and st = step_stop [OF Cons.prems(1) g(1-3) r]
  have s1: "ok s1" using step_ok [OF Cons.prems(1) g(1) r] .
  show ?case
  proof (cases "completes es1")
    case True
    then have "es = es1" "ends s [m]" "Stop \<in> set es1" using Cons.prems(4) r st e [of "[]"] ends_Nil [OF s1] by auto
    then have "m # ms = [m] @ ms \<and> ends s [m] \<and> run_input recv (\<lambda>_. inp) s (m # ms) = concat (map inp [m])" using r by simp
    then show ?thesis using True \<open>es = es1\<close> \<open>Stop \<in> set es1\<close> by blast
  next
    case False
    then have ns: "Stop \<notin> set es1" "\<not> (finished s1 \<and> pending s1 = [])" using st Cons.prems(5) by auto
    then obtain es2 where r2: "stage_run recv s1 ms = (s', es2)" "es = es1 @ es2"
      using Cons.prems(4) r by (auto split: prod.splits)
    note ih = Cons.IH [OF s1 _ g(4) r2(1) ns(2)]
    have gs: "stage_goods recv good s1 ms" using Cons.prems(2) r ns(1) by simp
    have inp: "run_input recv (\<lambda>_. inp) s (m # ms) = inp m @ run_input recv (\<lambda>_. inp) s1 ms" using r ns(1) by simp
    have "\<exists>ns1 ns2. m # ms = ns1 @ ns2 \<and> ends s ns1 \<and> run_input recv (\<lambda>_. inp) s (m # ms) = concat (map inp ns1)"
      if "completes es2"
    proof -
      obtain ms1 ms2 where "ms = ms1 @ ms2" "ends s1 ms1" "run_input recv (\<lambda>_. inp) s1 ms = concat (map inp ms1)"
        using ih [OF gs] \<open>completes es2\<close> by blast
      then show ?thesis using inp e [of ms1] by (intro exI [of _ "m # ms1"] exI [of _ ms2]) simp
    qed
    then show ?thesis using ih [OF gs] False ns(1) r2(2) inp e [of ms] by auto
  qed
qed

lemma run_closing:
  assumes "ok s" "stage_goods recv good s ms" "list_all (\<lambda>m. 0 \<le> requested m \<and> \<not> is_cancel m \<and> \<not> is_wire m) ms"
    "stage_run recv s ms = (s', es)" "\<not> (finished s \<and> pending s = [])" "demand s = 0 \<or> pending s = []" "ends s ms"
    and quiet: "\<And>ms1 ms2. ms = ms1 @ ms2 \<Longrightarrow> ends s ms1 \<Longrightarrow> concat (map inp ms2) = []"
  shows "map fst (emitted es) = take (nat (demand s + sum_list (map requested ms))) (pending s @ concat (map inp ms)) \<and>
     (completes es \<longleftrightarrow> int (length (pending s @ concat (map inp ms))) \<le> demand s + sum_list (map requested ms))"
proof -
  have all: "list_all (\<lambda>m. 0 \<le> requested m) ms" "list_all (\<lambda>m. \<not> is_cancel m) ms" "list_all (\<lambda>m. \<not> is_cancel m \<and> \<not> is_wire m) ms"
    using assms(3) by (auto simp: list_all_iff)
  note st = run_stop [OF assms(1,2) all(3) assms(4,5)]
  note fifo = run_fifo [OF assms(1,2) all(2) assms(4)]
  have pos: "0 \<le> demand s + sum_list (map requested ms)"
    using demand_pos [OF assms(1)] all(1) sum_list_nonneg [of "map requested ms"] by (fastforce simp: list_all_iff)
  show ?thesis
  proof (cases "completes es")
    case True
    then obtain ms1 ms2 where m: "ms = ms1 @ ms2" "ends s ms1" "run_input recv (\<lambda>_. inp) s ms = concat (map inp ms1)"
      using st by blast
    have "concat (map inp ms1) = concat (map inp ms)" using quiet [OF m(1,2)] m(1) by (metis append_Nil2 concat_append map_append)
    then have e: "map fst (emitted es) = pending s @ concat (map inp ms)" using fifo True m(3) by auto
    have "int (length (emitted es)) \<le> demand s + sum_list (map requested ms)"
      using run_bounded(1) [OF assms(1,2) all(1)] assms(4) by simp
    then show ?thesis using e True by (metis length_map nat_le_iff take_all nat_int nat_mono)
  next
    case False
    then have ns: "Stop \<notin> set es" "pending s' \<noteq> []" "run_input recv (\<lambda>_. inp) s ms = concat (map inp ms)"
      using st assms(7) by auto
    have e: "map fst (emitted es) = take (nat (demand s + sum_list (map requested ms))) (pending s @ concat (map inp ms))"
      using run_eager [OF assms(1,2) all(2) assms(4,6) ns(1)] ns(3) by simp
    have "length (map fst (emitted es)) < length (pending s @ concat (map inp ms))" using fifo ns(2,3)
      by (metis length_append length_greater_0_conv less_add_same_cancel1)
    then show ?thesis using e False pos by (auto simp: min_def split: if_splits)
  qed
qed

end

end
