(* ===== verification/Stream_Sources.thy ===== *)
theory Stream_Sources
  imports Stream_Protocol
begin

section \<open>Stream sources\<close>

text \<open>
  The source stages of \<^verbatim>\<open>stream/stage_source.go\<close> and the constructors of \<^verbatim>\<open>stream/source.go\<close> that use
  them: the pull source with \<^verbatim>\<open>Of\<close>, \<^verbatim>\<open>Range\<close> and \<^verbatim>\<open>Unfold\<close>, the channel source with the goroutine that
  reads the channel, the actor source, the tick source and the connection source. Every source
  interprets \<open>backpressure\<close>, so none emits more than was requested; the channel source also interprets
  \<open>fifo_stage\<close>.
\<close>

subsection \<open>Pull source\<close>

text \<open>
  A pull function is a closure: it takes its captured variables and the number of elements, and gives
  the new variables, the batch and whether there is more. \<^const>\<open>None\<close> is a panic.
\<close>

type_synonym ('e, 'v) pullFn = "'e \<Rightarrow> int \<Rightarrow> ('e \<times> 'v any list \<times> bool) option"

record 'e pullSource =
  ps_env :: 'e
  ps_downstream :: "spid option"
  ps_subID :: string
  ps_seqNo :: u64
  ps_metrics :: stageMetrics

definition newPullSource :: "'e \<Rightarrow> 'e pullSource" where
  "newPullSource e = \<lparr>ps_env = e, ps_downstream = None, ps_subID = [], ps_seqNo = 0, ps_metrics = no_metrics\<rparr>"

definition produce :: "('e, 'v) pullFn \<Rightarrow> 'e pullSource \<Rightarrow> int \<Rightarrow> 'e pullSource \<times> 'v seff list" where
  "produce pull s n =
     (case pull (ps_env s) n of
        None \<Rightarrow> (s, [Panic])
      | Some (e, vs, hasMore) \<Rightarrow>
          (s\<lparr>ps_env := e, ps_seqNo := ps_seqNo s + of_nat (length vs),
             ps_metrics := (ps_metrics s)\<lparr>elementsIn := elementsIn (ps_metrics s) + of_nat (length vs)\<rparr>\<rparr>,
           elems (ps_subID s) (ps_downstream s) (ps_seqNo s) vs @
             (if hasMore then [] else [Tell (ps_downstream s) (streamComplete (ps_subID s)), Stop])))"

definition pull_recv :: "('e, 'v) pullFn \<Rightarrow> 'e pullSource \<Rightarrow> 'v smsg \<Rightarrow> 'e pullSource \<times> 'v seff list" where
  "pull_recv pull s m =
     (case m of
        stageWire sub up down \<Rightarrow> (s\<lparr>ps_downstream := down, ps_subID := sub\<rparr>, [])
      | streamRequest _ n \<Rightarrow> produce pull s n
      | streamCancel _ \<Rightarrow> (s, [Tell (ps_downstream s) (streamComplete (ps_subID s)), Stop])
      | _ \<Rightarrow> (s, [Unhandled]))"

text \<open>\<^verbatim>\<open>Of\<close>: the captured slice of values that are left. Slicing with a negative bound panics.\<close>

definition Of_pull :: "('v any list, 'v) pullFn" where
  "Of_pull anys n =
     (if anys = [] then Some ([], [], False)
      else let k = min n (int (length anys)) in
        if k < 0 then None else Some (drop (nat k) anys, take (nat k) anys, drop (nat k) anys \<noteq> []))"

text \<open>\<^verbatim>\<open>Range\<close>: the captured counter. The sum of counter and batch size wraps around, and so does the counter.\<close>

definition Range_pull :: "64 word \<Rightarrow> (64 word, 64 word) pullFn" where
  "Range_pull hi cur n =
     (if hi \<le>s cur then Some (cur, [], False)
      else let k = (if hi <s cur + word_of_int n then hi - cur else word_of_int n) in
        if k <s 0 then None
        else Some (cur + k, map (\<lambda>i. Some (cur + of_nat i)) [0..<unat k], cur + k <s hi))"

text \<open>\<^verbatim>\<open>Unfold\<close>: the captured seed; \<^verbatim>\<open>make\<close> panics on a negative capacity.\<close>

fun unfold_loop :: "('e \<Rightarrow> 'e \<times> 'v \<times> bool) \<Rightarrow> nat \<Rightarrow> 'e \<Rightarrow> 'e \<times> 'v any list \<times> bool" where
  "unfold_loop step 0 cur = (cur, [], True)"
| "unfold_loop step (Suc k) cur =
     (case step cur of (next, elem, b) \<Rightarrow>
        if b then (case unfold_loop step k next of (e, vs, c) \<Rightarrow> (e, Some elem # vs, c))
        else (next, [Some elem], False))"

definition Unfold_pull :: "('e \<Rightarrow> 'e \<times> 'v \<times> bool) \<Rightarrow> ('e, 'v) pullFn" where
  "Unfold_pull step cur n = (if n < 0 then None else Some (unfold_loop step (nat n) cur))"

subsection \<open>Channel source\<close>

record 'v chanSource =
  cs_downstream :: "spid option"
  cs_subID :: string
  cs_seqNo :: u64
  cs_buf :: "'v squeue"
  cs_demand :: int
  cs_channelDone :: bool
  cs_metrics :: stageMetrics

definition newChanSource :: "'v chanSource" where
  "newChanSource = \<lparr>cs_downstream = None, cs_subID = [], cs_seqNo = 0, cs_buf = sq_new, cs_demand = 0,
     cs_channelDone = False, cs_metrics = no_metrics\<rparr>"

definition cs_tryFlush :: "'v chanSource \<Rightarrow> 'v chanSource \<times> 'v seff list" where
  "cs_tryFlush s =
     (case drain (cs_subID s) (cs_downstream s) (cs_demand s) (cs_buf s) (cs_seqNo s) of
        (d, q, n, es) \<Rightarrow>
          (s\<lparr>cs_demand := d, cs_buf := q, cs_seqNo := n\<rparr>,
           es @ (if cs_channelDone s \<and> sq_empty q
                 then [Tell (cs_downstream s) (streamComplete (cs_subID s)), Stop] else [])))"

definition chan_recv :: "'v chanSource \<Rightarrow> 'v smsg \<Rightarrow> 'v chanSource \<times> 'v seff list" where
  "chan_recv s m =
     (case m of
        stageWire sub up down \<Rightarrow> (s\<lparr>cs_downstream := down, cs_subID := sub\<rparr>, [StartBridge])
      | streamRequest _ n \<Rightarrow> cs_tryFlush (s\<lparr>cs_demand := cs_demand s + n\<rparr>)
      | chanBatch vs \<Rightarrow>
          cs_tryFlush (s\<lparr>cs_buf := fold sq_push vs (cs_buf s),
             cs_metrics := (cs_metrics s)\<lparr>elementsIn := elementsIn (cs_metrics s) + of_nat (length vs)\<rparr>\<rparr>)
      | chanDone \<Rightarrow> cs_tryFlush (s\<lparr>cs_channelDone := True\<rparr>)
      | streamCancel _ \<Rightarrow> (s, [Tell (cs_downstream s) (streamComplete (cs_subID s)), Stop])
      | _ \<Rightarrow> (s, [Unhandled]))"

text \<open>
  The goroutine that reads the channel until it is closed, while the stage is alive. \<open>avail\<close> says how
  many further elements the select finds ready after each blocking read; one more than are left means
  that it finds the channel closed.
\<close>

fun chan_bridge :: "nat list \<Rightarrow> 'v list \<Rightarrow> 'v smsg list" where
  "chan_bridge avail [] = [chanDone]"
| "chan_bridge avail (v # vs) =
     (let k = min 63 (case avail of [] \<Rightarrow> 0 | a # _ \<Rightarrow> a) in
      if length vs < k then [chanBatch (map Some (v # vs)), chanDone]
      else chanBatch (map Some (v # take k vs)) # chan_bridge (tl avail) (drop k vs))"

subsection \<open>Actor source\<close>

record actorSource =
  as_upstream :: "spid option"
  as_downstream :: "spid option"
  as_subID :: string
  as_seqNo :: u64
  as_fetching :: bool
  as_pendingDemand :: int
  as_metrics :: stageMetrics

definition newActorSource :: "spid option \<Rightarrow> actorSource" where
  "newActorSource pid = \<lparr>as_upstream = pid, as_downstream = None, as_subID = [], as_seqNo = 0, as_fetching = False,
     as_pendingDemand = 0, as_metrics = no_metrics\<rparr>"

definition startFetch :: "actorSource \<Rightarrow> actorSource \<times> 'v seff list" where
  "startFetch s = (s\<lparr>as_pendingDemand := 0, as_fetching := True\<rparr>, [Fetch (as_pendingDemand s)])"

text \<open>What the fetch task makes of the answer: an error, an answer of the wrong type, or the elements.\<close>

datatype 'v pullReply = AskError string | WrongType string | PullResponse "'v list"

definition fetch_task :: "int \<Rightarrow> 'v pullReply \<Rightarrow> 'v smsg" where
  "fetch_task n r =
     (case r of
        AskError e \<Rightarrow> fetchErr e
      | WrongType t \<Rightarrow> fetchErr (''stream: unexpected pull response type '' @ t)
      | PullResponse vs \<Rightarrow> fetchResult (map Some vs) (vs = []) n)"

definition actor_recv :: "actorSource \<Rightarrow> 'v smsg \<Rightarrow> actorSource \<times> 'v seff list" where
  "actor_recv s m =
     (case m of
        stageWire sub up down \<Rightarrow>
          (s\<lparr>as_downstream := down, as_subID := sub\<rparr>, [WatchActor (as_upstream s)])
      | streamRequest _ n \<Rightarrow>
          (let s1 = s\<lparr>as_pendingDemand := as_pendingDemand s + n\<rparr> in
           if as_fetching s1 then (s1, []) else startFetch s1)
      | fetchResult vs done req \<Rightarrow>
          (let s1 = s\<lparr>as_fetching := False\<rparr> in
           if done then
             (s1, [UnWatchActor (as_upstream s), Tell (as_downstream s) (streamComplete (as_subID s)), Stop])
           else
             let s2 = s1\<lparr>as_seqNo := as_seqNo s + of_nat (length vs),
                   as_metrics := (as_metrics s)\<lparr>elementsIn := elementsIn (as_metrics s) + of_nat (length vs)\<rparr>,
                   as_pendingDemand := as_pendingDemand s + (req - int (length vs))\<rparr>;
                 es = elems (as_subID s) (as_downstream s) (as_seqNo s) vs
             in if 0 < as_pendingDemand s2 then (case startFetch s2 of (s3, fs) \<Rightarrow> (s3, es @ fs)) else (s2, es))
      | fetchErr e \<Rightarrow>
          (s\<lparr>as_fetching := False, as_metrics := (as_metrics s)\<lparr>errors := errors (as_metrics s) + 1\<rparr>\<rparr>,
           [UnWatchActor (as_upstream s), Tell (as_downstream s) (streamError (as_subID s) e), Stop])
      | Terminated path \<Rightarrow>
          (s, [Tell (as_downstream s) (streamError (as_subID s)
                 (''stream: actor source '' @ path @ '' terminated unexpectedly'')), Stop])
      | streamCancel _ \<Rightarrow>
          (s, [UnWatchActor (as_upstream s), Tell (as_downstream s) (streamComplete (as_subID s)), Stop])
      | _ \<Rightarrow> (s, [Unhandled]))"

subsection \<open>Tick source and connection source\<close>

text \<open>\<open>clock n\<close> is the time read when the tick with sequence number \<open>n\<close> is handled.\<close>

record tickSource =
  ts_downstream :: "spid option"
  ts_subID :: string
  ts_seqNo :: u64
  ts_demand :: int

definition newTickSource :: tickSource where
  "newTickSource = \<lparr>ts_downstream = None, ts_subID = [], ts_seqNo = 0, ts_demand = 0\<rparr>"

definition tick_recv :: "(u64 \<Rightarrow> 'v any) \<Rightarrow> tickSource \<Rightarrow> 'v smsg \<Rightarrow> tickSource \<times> 'v seff list" where
  "tick_recv clock s m =
     (case m of
        stageWire sub up down \<Rightarrow> (s\<lparr>ts_downstream := down, ts_subID := sub\<rparr>, [Schedule tickTick])
      | streamRequest _ n \<Rightarrow> (s\<lparr>ts_demand := ts_demand s + n\<rparr>, [])
      | tickTick \<Rightarrow>
          if 0 < ts_demand s then
            (s\<lparr>ts_seqNo := ts_seqNo s + 1, ts_demand := ts_demand s - 1\<rparr>,
             [Tell (ts_downstream s) (streamElement (ts_subID s) (clock (ts_seqNo s + 1)) (ts_seqNo s + 1))])
          else (s, [])
      | streamCancel _ \<Rightarrow>
          (s, [CancelSchedule, Tell (ts_downstream s) (streamComplete (ts_subID s)), Stop])
      | _ \<Rightarrow> (s, [Unhandled]))"

text \<open>
  A connection answers the k-th read with some bytes and an optional error; \<^verbatim>\<open>io.EOF\<close> is one of the errors.
\<close>

datatype readErr = EOF | ReadErr string

record connSource =
  cn_reads :: nat
  cn_downstream :: "spid option"
  cn_subID :: string
  cn_seqNo :: u64

definition newConnSource :: connSource where
  "newConnSource = \<lparr>cn_reads = 0, cn_downstream = None, cn_subID = [], cn_seqNo = 0\<rparr>"

fun conn_loop :: "(nat \<Rightarrow> 'b list \<times> readErr option) \<Rightarrow> nat \<Rightarrow> connSource \<Rightarrow> connSource \<times> ('b list) seff list" where
  "conn_loop conn 0 s = (s, [])"
| "conn_loop conn (Suc k) s =
     (case conn (cn_reads s) of (bytes, err) \<Rightarrow>
        let s1 = s\<lparr>cn_reads := cn_reads s + 1\<rparr> in
        (case err of
           Some EOF \<Rightarrow> (s1, [Tell (cn_downstream s) (streamComplete (cn_subID s)), Stop])
         | Some (ReadErr e) \<Rightarrow> (s1, [Tell (cn_downstream s) (streamError (cn_subID s) e), Stop])
         | None \<Rightarrow>
             (let s2 = s1\<lparr>cn_seqNo := cn_seqNo s + 1\<rparr> in
              (case conn_loop conn k s2 of (s3, es) \<Rightarrow>
                 (s3, Tell (cn_downstream s) (streamElement (cn_subID s) (Some bytes) (cn_seqNo s + 1)) # es)))))"

definition conn_recv :: "(nat \<Rightarrow> 'b list \<times> readErr option) \<Rightarrow> connSource \<Rightarrow> ('b list) smsg \<Rightarrow> connSource \<times> ('b list) seff list" where
  "conn_recv conn s m =
     (case m of
        stageWire sub up down \<Rightarrow> (s\<lparr>cn_downstream := down, cn_subID := sub\<rparr>, [])
      | streamRequest _ n \<Rightarrow> conn_loop conn (nat n) s
      | streamCancel _ \<Rightarrow> (s, [Tell (cn_downstream s) (streamComplete (cn_subID s)), Stop])
      | _ \<Rightarrow> (s, [Unhandled]))"

subsection \<open>Pull sources keep to the demand\<close>

fun pull_good :: "('e, 'v) pullFn \<Rightarrow> 'e pullSource \<Rightarrow> 'v smsg \<Rightarrow> bool" where
  "pull_good pull s (streamRequest sub n) =
     (case pull (ps_env s) n of None \<Rightarrow> False | Some (e, vs, b) \<Rightarrow> int (length vs) \<le> n)"
| "pull_good pull s m = True"

interpretation pull_source: backpressure "pull_recv pull" "\<lambda>_. True" "pull_good pull" "\<lambda>_. 0" ps_seqNo
  for pull :: "('e, 'v) pullFn"
  by unfold_locales (auto simp: pull_recv_def produce_def split: smsg.splits option.splits if_splits)

lemma Of_pull_some:
  "0 \<le> n \<Longrightarrow> Of_pull anys n = Some (drop (nat n) anys, take (nat n) anys, drop (nat n) anys \<noteq> [])"
  by (auto simp: Of_pull_def Let_def min_def nat_le_iff)

lemma unfold_loop_length: "unfold_loop step k cur = (e, vs, b) \<Longrightarrow> length vs \<le> k \<and> (b \<longrightarrow> length vs = k)"
  by (induction k arbitrary: cur e vs b) (force split: prod.splits if_splits)+

lemma Of_good: "0 \<le> requested m \<Longrightarrow> pull_good Of_pull s m"
  by (cases m) (auto simp: Of_pull_some)

lemma Unfold_good: "0 \<le> requested m \<Longrightarrow> pull_good (Unfold_pull step) s m"
  by (cases m) (auto simp: Unfold_pull_def dest!: unfold_loop_length split: prod.split)

lemma run_goods:
  "(\<And>s m. 0 \<le> requested m \<Longrightarrow> good s m) \<Longrightarrow> list_all (\<lambda>m. 0 \<le> requested m) ms \<Longrightarrow> stage_goods recv good s ms"
  by (induction ms arbitrary: s) (auto split: prod.split)

text \<open>
  A pull function over a finite list: \<open>rest\<close> is what is still to come, and a batch is a prefix of it.
\<close>

locale list_pull =
  fixes pull :: "('e, 'v) pullFn"
    and inv :: "'e \<Rightarrow> bool"
    and fits :: "int \<Rightarrow> bool"
    and rest :: "'e \<Rightarrow> 'v any list"
  assumes pull_prefix: "inv e \<Longrightarrow> fits n \<Longrightarrow>
      \<exists>e'. pull e n = Some (e', take (nat n) (rest e), drop (nat n) (rest e) \<noteq> []) \<and> rest e' = drop (nat n) (rest e) \<and> inv e'"
    and fits_pos: "fits n \<Longrightarrow> 0 \<le> n"
begin

lemma request:
  assumes "inv (ps_env s)" "fits n" "pull_recv pull s (streamRequest sub n) = (s', es)"
  shows "inv (ps_env s') \<and> rest (ps_env s') = drop (nat n) (rest (ps_env s)) \<and>
     map fst (emitted es) = take (nat n) (rest (ps_env s)) \<and>
     (completes es \<longleftrightarrow> length (rest (ps_env s)) \<le> nat n) \<and> (Stop \<in> set es \<longleftrightarrow> completes es)"
  using assms pull_prefix [OF assms(1,2)] by (auto simp: pull_recv_def produce_def split: if_splits)

lemma delivers:
  assumes "inv (ps_env s)" "list_all fits ns" "stage_run (pull_recv pull) s (map (streamRequest sub) ns) = (s', es)"
  shows "map fst (emitted es) = take (nat (sum_list ns)) (rest (ps_env s)) \<and>
     (completes es \<longleftrightarrow> ns \<noteq> [] \<and> int (length (rest (ps_env s))) \<le> sum_list ns)"
  using assms
proof (induction ns arbitrary: s es)
  case (Cons n ns)
  have n: "fits n" "0 \<le> n" "list_all fits ns" using Cons.prems(2) fits_pos by auto
  have pos: "0 \<le> sum_list ns" using n(3) fits_pos by (induction ns) auto
  obtain s1 es1 where r: "pull_recv pull s (streamRequest sub n) = (s1, es1)" by force
  note q = request [OF Cons.prems(1) n(1) r]
  show ?case
  proof (cases "length (rest (ps_env s)) \<le> nat n")
    case True
    then show ?thesis using q Cons.prems(3) r n pos by (auto simp: nat_add_distrib)
  next
    case False
    then obtain es2 where r2: "stage_run (pull_recv pull) s1 (map (streamRequest sub) ns) = (s', es2)" "es = es1 @ es2"
      using Cons.prems(3) r q by (auto split: prod.splits)
    show ?thesis using Cons.IH [OF _ n(3) r2(1)] q r2(2) n(2) pos False
      by (auto simp: nat_add_distrib take_add)
  qed
qed simp

end

interpretation of_source: list_pull Of_pull "\<lambda>_. True" "\<lambda>n. 0 \<le> n" "\<lambda>anys. anys"
  by unfold_locales (auto simp: Of_pull_some)

text \<open>\<^verbatim>\<open>Range\<close> is such a source, as long as its bound plus a request does not overflow.\<close>

definition range_list :: "64 word \<Rightarrow> 64 word \<Rightarrow> 64 word any list" where
  "range_list lo hi = (if hi \<le>s lo then [] else map (\<lambda>i. Some (lo + of_nat i)) [0..<unat (hi - lo)])"

lemma unat_sdiff: "sint (a :: 64 word) \<le> sint b \<Longrightarrow> int (unat (b - a)) = sint b - sint a"
proof -
  assume le: "sint a \<le> sint b"
  have "b - a = word_of_int (sint b - sint a)" by simp
  then have "uint (b - a) = (sint b - sint a) mod 2 ^ 64" by (simp only: uint_word_of_int) simp
  moreover have "sint b < 2^63" "-(2^63) \<le> sint a" using sint_lt [of b] sint_ge [of a] by simp_all
  ultimately show ?thesis using le by (simp add: unat_eq_nat_uint)
qed

lemma sint_add_small: "0 \<le> n \<Longrightarrow> sint (a :: 64 word) + n < 2 ^ 63 \<Longrightarrow> sint (a + word_of_int n) = sint a + n"
proof -
  assume n: "0 \<le> n" "sint a + n < 2 ^ 63"
  have "a + word_of_int n = word_of_int (sint a + n)" by simp
  then have "sint (a + word_of_int n) = signed_take_bit 63 (sint a + n)" by (simp only: signed_of_int) simp
  then show ?thesis using n sint_ge [of a] by (simp add: signed_take_bit_int_eq_self)
qed

lemma range_list_length: "sint lo \<le> sint hi \<Longrightarrow> int (length (range_list lo hi)) = sint hi - sint lo"
  using unat_sdiff [of lo hi] by (auto simp: range_list_def word_sle_eq)

lemma range_list_nth: "i < length (range_list lo hi) \<Longrightarrow> range_list lo hi ! i = Some (lo + of_nat i)"
  by (auto simp: range_list_def split: if_splits)

lemma Range_as_Of:
  assumes "sint lo \<le> sint hi" "0 \<le> n" "n < 2 ^ 63" "sint hi + n < 2 ^ 63"
  shows "\<exists>cur. Range_pull hi lo n = Some (cur, take (nat n) (range_list lo hi), drop (nat n) (range_list lo hi) \<noteq> []) \<and>
     range_list cur hi = drop (nat n) (range_list lo hi) \<and> sint lo \<le> sint cur \<and> sint cur \<le> sint hi"
proof (cases "sint lo = sint hi")
  case True
  then show ?thesis by (auto simp: Range_pull_def range_list_def word_sle_eq)
next
  case False
  have add: "sint (lo + word_of_int n) = sint lo + n" using sint_add_small [of n lo] assms by simp
  define k where "k = min n (sint hi - sint lo)"
  have k: "0 \<le> k" "k < 2 ^ 63" "sint lo + k < 2 ^ 63" using assms sint_lt [of hi] by (auto simp: k_def)
  have kw: "(if hi <s lo + word_of_int n then hi - lo else word_of_int n) = (word_of_int k :: 64 word)"
    using assms(1) add by (auto simp: k_def word_sless_alt min_def)
  have s: "sint (word_of_int k :: 64 word) = k" using k sint_add_small [of k 0] by simp
  have u: "unat (word_of_int k :: 64 word) = nat k" using k by (simp add: unat_eq_nat_uint uint_word_of_int)
  have cur: "sint (lo + word_of_int k) = sint lo + k" using sint_add_small k by simp
  have r: "Range_pull hi lo n = Some (lo + word_of_int k, map (\<lambda>i. Some (lo + of_nat i)) [0..<nat k], sint lo + k < sint hi)"
    using False assms(1) k(1) unfolding Range_pull_def Let_def kw by (simp add: word_sle_eq word_sless_alt s u cur)
  have len: "int (length (range_list lo hi)) = sint hi - sint lo" using range_list_length assms(1) by simp
  have nk: "min (nat n) (length (range_list lo hi)) = nat k" using len assms(2) by (auto simp: k_def)
  have len2: "int (length (range_list (lo + word_of_int k) hi)) = sint hi - sint lo - k"
    using range_list_length [of "lo + word_of_int k" hi] cur by (auto simp: k_def)
  have "map (\<lambda>i. Some (lo + of_nat i)) [0..<nat k] = take (nat n) (range_list lo hi)"
    by (rule nth_equalityI) (use nk len in \<open>auto simp: range_list_nth\<close>)
  moreover have "range_list (lo + word_of_int k) hi = drop (nat n) (range_list lo hi)"
  proof (rule nth_equalityI)
    show l: "length (range_list (lo + word_of_int k) hi) = length (drop (nat n) (range_list lo hi))"
      using len len2 nk assms(2) by (auto simp: k_def)
    fix i assume i: "i < length (range_list (lo + word_of_int k) hi)"
    then have "nat n = nat k" using l len nk by auto
    then show "range_list (lo + word_of_int k) hi ! i = drop (nat n) (range_list lo hi) ! i"
      using i l k(1) by (simp add: range_list_nth of_nat_nat add.assoc)
  qed
  moreover have "sint lo + k < sint hi \<longleftrightarrow> drop (nat n) (range_list lo hi) \<noteq> []"
    using len assms(2) by (auto simp: k_def)
  ultimately show ?thesis using r cur k(1) by (auto simp: k_def)
qed

interpretation range_source: list_pull "Range_pull hi" "\<lambda>cur. sint cur \<le> sint hi"
    "\<lambda>n. 0 \<le> n \<and> n < 2 ^ 63 \<and> sint hi + n < 2 ^ 63" "\<lambda>cur. range_list cur hi"
  for hi
  by unfold_locales (use Range_as_Of in fastforce)+

subsection \<open>The channel source\<close>

definition cs_ok :: "'v chanSource \<Rightarrow> bool" where
  "cs_ok s \<longleftrightarrow> sq_ok (cs_buf s) \<and> 0 \<le> cs_demand s"

definition asks :: "'s \<Rightarrow> 'v smsg \<Rightarrow> bool" where
  "asks s m \<longleftrightarrow> 0 \<le> requested m"

fun chan_values :: "'v smsg \<Rightarrow> 'v any list" where
  "chan_values (chanBatch vs) = vs"
| "chan_values _ = []"

lemma cs_tryFlushE:
  assumes "cs_tryFlush s = (s', es)" "cs_ok s"
  shows "cs_ok s' \<and> cs_demand s' + int (length (emitted es)) = cs_demand s \<and>
     map fst (emitted es) @ sq_list (cs_buf s') = sq_list (cs_buf s) \<and>
     map snd (emitted es) = seqs (cs_seqNo s) (length (emitted es)) \<and>
     cs_seqNo s' = cs_seqNo s + of_nat (length (emitted es)) \<and> cs_channelDone s' = cs_channelDone s \<and>
     (completes es \<longleftrightarrow> cs_channelDone s \<and> sq_list (cs_buf s') = []) \<and> (completes es \<longleftrightarrow> Stop \<in> set es) \<and>
     (cs_demand s' = 0 \<or> sq_list (cs_buf s') = [])"
proof -
  obtain d q n fs where D: "drain (cs_subID s) (cs_downstream s) (cs_demand s) (cs_buf s) (cs_seqNo s) = (d, q, n, fs)"
    by (metis prod_cases4)
  show ?thesis using assms D drainD [OF D] by (auto simp: cs_ok_def cs_tryFlush_def sq_empty_list split: if_splits)
qed

lemma sq_push_fold: "sq_ok q \<Longrightarrow> sq_ok (fold sq_push vs q)" "sq_ok q \<Longrightarrow> sq_list (fold sq_push vs q) = sq_list q @ vs"
  using sq_push_all by auto

lemma chan_step:
  assumes "cs_ok s" "asks s m" "chan_recv s m = (s', es)"
  shows "cs_ok s' \<and> cs_demand s' + int (length (emitted es)) = cs_demand s + requested m \<and>
     map snd (emitted es) = seqs (cs_seqNo s) (length (emitted es)) \<and>
     cs_seqNo s' = cs_seqNo s + of_nat (length (emitted es)) \<and>
     (\<not> is_cancel m \<longrightarrow> map fst (emitted es) @ sq_list (cs_buf s') = sq_list (cs_buf s) @ chan_values m \<and>
        (completes es \<longrightarrow> sq_list (cs_buf s') = [] \<and> Stop \<in> set es) \<and>
        (cs_demand s = 0 \<or> sq_list (cs_buf s) = [] \<longrightarrow> cs_demand s' = 0 \<or> sq_list (cs_buf s') = []))"
  using assms sq_push_fold [of "cs_buf s"]
  by (cases m) (auto simp: chan_recv_def asks_def cs_ok_def dest!: cs_tryFlushE)

interpretation chan_source: eager_stage chan_recv cs_ok asks cs_demand cs_seqNo "\<lambda>s. sq_list (cs_buf s)" "\<lambda>_. chan_values"
  by (rule eager_stageI [OF chan_step]) (auto simp: cs_ok_def)

text \<open>
  The channel source with its goroutine. Every interleaving of requests with what the goroutine sends
  hands out the first elements of the channel in order, as many as were requested.
\<close>

lemma chan_bridge_batches:
  "concat (map chan_values (chan_bridge avail vs)) = map Some vs"
proof (induction avail vs rule: chan_bridge.induct)
  case (2 avail v vs)
  define k where "k = min 63 (case avail of [] \<Rightarrow> 0 | a # _ \<Rightarrow> a)"
  show ?case
  proof (cases "length vs < k")
    case False
    then have "concat (map chan_values (chan_bridge (tl avail) (drop k vs))) = map Some (drop k vs)"
      using 2 [OF k_def] by simp
    then show ?thesis using False k_def [symmetric] by (simp add: Let_def flip: map_append)
  qed (use k_def in \<open>simp add: Let_def\<close>)
qed simp

lemma chan_bridge_done: "\<exists>bs. chan_bridge avail vs = map chanBatch bs @ [chanDone]"
proof (induction avail vs rule: chan_bridge.induct)
  case (2 avail v vs)
  define k where "k = min 63 (case avail of [] \<Rightarrow> 0 | a # _ \<Rightarrow> a)"
  show ?case
  proof (cases "length vs < k")
    case False
    then obtain bs where "chan_bridge (tl avail) (drop k vs) = map chanBatch bs @ [chanDone]"
      using 2 [OF k_def] by blast
    then show ?thesis using False k_def [symmetric]
      by (auto simp: Let_def intro!: exI [of _ "map Some (v # take k vs) # bs"])
  qed (use k_def in \<open>auto simp: Let_def intro!: exI [of _ "[map Some (v # vs)]"]\<close>)
qed (auto intro: exI [of _ "[]"])

lemma chan_done_step:
  assumes "cs_ok s" "asks s m" "chan_recv s m = (s', es)" "\<not> is_cancel m"
  shows "cs_channelDone s' = (cs_channelDone s \<or> m = chanDone)" "Stop \<in> set es \<longleftrightarrow> completes es"
    "completes es \<Longrightarrow> cs_channelDone s'"
    "\<not> completes es \<Longrightarrow> \<not> (cs_channelDone s \<and> sq_list (cs_buf s) = []) \<Longrightarrow> \<not> (cs_channelDone s' \<and> sq_list (cs_buf s') = [])"
  using assms sq_push_fold [of "cs_buf s"]
  by (cases m; auto simp: chan_recv_def asks_def cs_ok_def dest!: cs_tryFlushE)+

interpretation chan_close: closing_stage chan_recv cs_ok asks cs_demand cs_seqNo "\<lambda>s. sq_list (cs_buf s)" chan_values
  cs_channelDone "\<lambda>s ms. cs_channelDone s \<or> chanDone \<in> set ms"
proof unfold_locales
  fix s s' :: "'v chanSource" and m ms es
  assume "cs_ok s" "asks s m" "\<not> is_cancel m" "chan_recv s m = (s', es)"
  note d = chan_done_step [OF this(1,2,4,3)]
  show "(cs_channelDone s \<or> chanDone \<in> set (m # ms)) = (cs_channelDone s' \<or> chanDone \<in> set ms)" using d(1) by auto
  show "(Stop \<in> set es \<longleftrightarrow> completes es) \<and> (completes es \<longrightarrow> cs_channelDone s') \<and>
     (\<not> completes es \<longrightarrow> \<not> (cs_channelDone s \<and> sq_list (cs_buf s) = []) \<longrightarrow> \<not> (cs_channelDone s' \<and> sq_list (cs_buf s') = []))"
    using d(2-4) by blast
qed simp

lemma shuffles_sum: "ms \<in> shuffles xs ys \<Longrightarrow> sum_list (map f ms) = (sum_list (map f xs) + sum_list (map f ys) :: int)"
  by (induction xs ys arbitrary: ms rule: shuffles.induct) auto

lemma shuffles_concat:
  "ms \<in> shuffles xs ys \<Longrightarrow> list_all (\<lambda>x. f x = []) xs \<Longrightarrow> concat (map f ms) = concat (map f ys)"
proof (induction xs ys arbitrary: ms rule: shuffles.induct)
  case (2 xs)
  then show ?case by (induction xs arbitrary: ms) auto
qed auto

definition from_bridge :: "'v smsg \<Rightarrow> bool" where
  "from_bridge m \<longleftrightarrow> m = chanDone \<or> (\<exists>vs. m = chanBatch vs)"

lemma bridge_filter: "ms \<in> shuffles (map (streamRequest r) ns) (chan_bridge avail vs) \<Longrightarrow> filter from_bridge ms = chan_bridge avail vs"
proof -
  assume ms: "ms \<in> shuffles (map (streamRequest r) ns) (chan_bridge avail vs)"
  obtain bs where b: "chan_bridge avail vs = map chanBatch bs @ [chanDone]" using chan_bridge_done by blast
  have "filter from_bridge ms \<in> shuffles (filter from_bridge (map (streamRequest r) ns)) (filter from_bridge (chan_bridge avail vs))"
    using ms filter_shuffles [of from_bridge] by (metis imageI)
  moreover have "filter from_bridge (map (streamRequest r) ns :: 'a smsg list) = []"
    by (auto simp: from_bridge_def filter_empty_conv)
  moreover have "filter from_bridge (chan_bridge avail vs) = chan_bridge avail vs"
    unfolding b by (auto simp: from_bridge_def filter_id_conv)
  ultimately show ?thesis by simp
qed

lemma bridge_rest:
  assumes "filter from_bridge (ms1 @ ms2) = map chanBatch bs @ [chanDone]" "chanDone \<in> set ms1"
  shows "concat (map chan_values ms2) = []"
proof (cases "filter from_bridge ms2" rule: rev_cases)
  case Nil
  then have "m \<in> set ms2 \<Longrightarrow> chan_values m = []" for m by (cases m) (auto simp: from_bridge_def filter_empty_conv)
  then show ?thesis by simp
next
  case (snoc xs x)
  then have "map chanBatch bs = filter from_bridge ms1 @ xs" using assms(1) by simp
  then have "set (filter from_bridge ms1) \<subseteq> set (map chanBatch bs)" by (simp only: set_append Un_upper1)
  moreover have "chanDone \<in> set (filter from_bridge ms1)" using assms(2) by (simp add: from_bridge_def)
  ultimately show ?thesis by auto
qed

lemma chan_delivers:
  assumes ms: "ms \<in> shuffles (map (streamRequest r) ns) (chan_bridge avail vs)" and ns: "list_all (\<lambda>n. 0 \<le> n) ns"
    and s: "cs_ok s" "cs_demand s = 0" "sq_list (cs_buf s) = []" "\<not> cs_channelDone s"
    and run: "stage_run chan_recv s ms = (s', es)"
  shows "map fst (emitted es) = map Some (take (nat (sum_list ns)) vs) \<and> (completes es \<longleftrightarrow> int (length vs) \<le> sum_list ns)"
proof -
  obtain bs where b: "chan_bridge avail vs = map chanBatch bs @ [chanDone]" using chan_bridge_done by blast
  have set: "set ms = streamRequest r ` set ns \<union> set (chan_bridge avail vs)" using set_shuffles [OF ms] by auto
  have all: "list_all (\<lambda>m. 0 \<le> requested m \<and> \<not> is_cancel m \<and> \<not> is_wire m) ms" using ns b set by (auto simp: list_all_iff)
  then have goods: "stage_goods chan_recv asks s ms"
    by (intro run_goods) (auto simp: asks_def list_all_iff)
  have sum: "sum_list (map requested ms) = sum_list ns"
    using shuffles_sum [OF ms, of requested] unfolding b by (simp add: comp_def)
  have total: "concat (map chan_values ms) = map Some vs"
    using shuffles_concat [OF ms, of chan_values] chan_bridge_batches by (simp add: list_all_iff)
  have "chanDone \<in> set ms" using set b by simp
  moreover have "concat (map chan_values ms2) = []" if "ms = ms1 @ ms2" "cs_channelDone s \<or> chanDone \<in> set ms1" for ms1 ms2
    using bridge_rest [of ms1 ms2 bs] bridge_filter [OF ms] that b s(4) by simp
  ultimately show ?thesis
    using chan_close.run_closing [OF s(1) goods all run] s sum total by (simp add: take_map)
qed

subsection \<open>The other sources keep to the demand\<close>

text \<open>
  The elements of a fetch under way are demand that the actor source has already passed on. The number is
  not part of its state, so the contract is interpreted on the state with that number beside it.
  The actor asked answers with at most as many elements as requested.
\<close>

fun fetched :: "'v seff \<Rightarrow> int" where
  "fetched (Fetch n) = n"
| "fetched _ = 0"

fun answered :: "'v smsg \<Rightarrow> int" where
  "answered (fetchResult vs d n) = n"
| "answered _ = 0"

definition actor_track :: "actorSource \<times> int \<Rightarrow> 'v smsg \<Rightarrow> (actorSource \<times> int) \<times> 'v seff list" where
  "actor_track sk m = (case actor_recv (fst sk) m of (s', es) \<Rightarrow>
     ((s', snd sk - answered m + sum_list (map fetched es)), es))"

fun actor_good :: "actorSource \<times> int \<Rightarrow> 'v smsg \<Rightarrow> bool" where
  "actor_good sk (fetchResult vs d n) = (n = snd sk \<and> int (length vs) \<le> n)"
| "actor_good sk m = (0 \<le> requested m)"

lemma fetched_elems [simp]: "sum_list (map fetched (elems sub to n vs)) = 0"
  by (induction vs arbitrary: n) auto

interpretation actor_source: backpressure actor_track "\<lambda>(s, k). 0 \<le> as_pendingDemand s \<and> 0 \<le> k" actor_good
  "\<lambda>(s, k). as_pendingDemand s + k" "\<lambda>(s, k). as_seqNo s"
proof unfold_locales
  fix sk sk' :: "actorSource \<times> int" and m es
  assume ok: "case sk of (s, k) \<Rightarrow> 0 \<le> as_pendingDemand s \<and> 0 \<le> k" and good: "actor_good sk m"
    and r: "actor_track sk m = (sk', es)"
  obtain s k where sk: "sk = (s, k)" by force
  show "case sk' of (s, k) \<Rightarrow> 0 \<le> as_pendingDemand s \<and> 0 \<le> k"
    using ok good r sk by (cases m) (auto simp: actor_track_def actor_recv_def startFetch_def Let_def split: if_splits)
  show "(case sk' of (s, k) \<Rightarrow> as_pendingDemand s + k) + int (length (emitted es)) \<le>
      (case sk of (s, k) \<Rightarrow> as_pendingDemand s + k) + requested m"
    using ok good r sk by (cases m) (auto simp: actor_track_def actor_recv_def startFetch_def Let_def split: if_splits)
  show "map snd (emitted es) = seqs (case sk of (s, k) \<Rightarrow> as_seqNo s) (length (emitted es)) \<and>
      (case sk' of (s, k) \<Rightarrow> as_seqNo s) = (case sk of (s, k) \<Rightarrow> as_seqNo s) + of_nat (length (emitted es))"
    using ok good r sk by (cases m) (auto simp: actor_track_def actor_recv_def startFetch_def Let_def split: if_splits)
qed auto

interpretation tick_source: backpressure "tick_recv clock" "\<lambda>s. 0 \<le> ts_demand s" asks ts_demand ts_seqNo
  for clock :: "u64 \<Rightarrow> 'v any"
  by unfold_locales (auto simp: tick_recv_def asks_def split: smsg.splits if_splits)

lemma conn_loop_elems:
  "conn_loop conn k s = (s', es) \<Longrightarrow> length (emitted es) \<le> k \<and>
     map snd (emitted es) = seqs (cn_seqNo s) (length (emitted es)) \<and> cn_seqNo s' = cn_seqNo s + of_nat (length (emitted es))"
proof (induction k arbitrary: s s' es)
  case (Suc k)
  obtain bytes err where c: "conn (cn_reads s) = (bytes, err)" by force
  show ?case
  proof (cases err)
    case None
    define s2 where "s2 = s\<lparr>cn_reads := cn_reads s + 1, cn_seqNo := cn_seqNo s + 1\<rparr>"
    obtain s3 es3 where l: "conn_loop conn k s2 = (s3, es3)" by force
    then show ?thesis using Suc.IH [OF l] Suc.prems c None by (auto simp: s2_def Let_def)
  next
    case (Some e)
    then show ?thesis using Suc.prems c by (cases e) (auto simp: Let_def)
  qed
qed simp

interpretation conn_source: backpressure "conn_recv conn" "\<lambda>_. True" asks "\<lambda>_. 0" cn_seqNo
  for conn :: "nat \<Rightarrow> 'b list \<times> readErr option"
  by unfold_locales
    (auto simp: conn_recv_def asks_def split: smsg.splits dest!: conn_loop_elems)

subsection \<open>Properties of the sources\<close>

lemma range_list_sint: "sint lo \<le> sint hi \<Longrightarrow> map (\<lambda>v. sint (the v)) (range_list lo hi) = [sint lo..sint hi - 1]"
proof (rule nth_equalityI)
  assume le: "sint lo \<le> sint hi"
  then show l: "length (map (\<lambda>v. sint (the v)) (range_list lo hi)) = length [sint lo..sint hi - 1]"
    using range_list_length [of lo hi] by simp
  fix i assume "i < length (map (\<lambda>v. sint (the v)) (range_list lo hi))"
  then have i: "i < length (range_list lo hi)" by simp
  then have b: "int i < sint hi - sint lo" using range_list_length [OF le] by linarith
  have "sint (lo + word_of_int (int i)) = sint lo + int i"
    using sint_add_small [of "int i" lo] b sint_lt [of hi] by simp
  then show "map (\<lambda>v. sint (the v)) (range_list lo hi) ! i = [sint lo..sint hi - 1] ! i"
    using i b by (simp add: range_list_nth nth_upto)
qed

text \<open>
  C40. A \<^verbatim>\<open>Range\<close> source emits exactly the numbers from its start up to its end, in order and as many as
  were requested, and completes with the last one, for all bounds and requests whose sum stays
  within int64.
\<close>

theorem range_source_delivers:
  assumes "sint lo \<le> sint hi" "list_all (\<lambda>n. 0 \<le> n \<and> n < 2 ^ 63 \<and> sint hi + n < 2 ^ 63) ns"
    "stage_run (pull_recv (Range_pull hi)) (newPullSource lo) (stageWire sub up down # map (streamRequest r) ns) = (s, es)"
  shows "map (\<lambda>x. sint (the (fst x))) (emitted es) = take (nat (sum_list ns)) [sint lo..sint hi - 1] \<and>
     (completes es \<longleftrightarrow> ns \<noteq> [] \<and> sint hi - sint lo \<le> sum_list ns)"
proof -
  define s0 where "s0 = (newPullSource lo)\<lparr>ps_downstream := down, ps_subID := sub\<rparr>"
  have r: "stage_run (pull_recv (Range_pull hi)) s0 (map (streamRequest r) ns) = (s, es)" "ps_env s0 = lo"
    using assms(3) by (simp_all add: s0_def pull_recv_def newPullSource_def split: prod.splits)
  have "map fst (emitted es) = take (nat (sum_list ns)) (range_list lo hi) \<and>
      (completes es \<longleftrightarrow> ns \<noteq> [] \<and> int (length (range_list lo hi)) \<le> sum_list ns)"
    using range_source.delivers [of s0 hi ns r s es] assms(1,2) r by simp
  then show ?thesis
    using range_list_sint [OF assms(1)] range_list_length [OF assms(1)] by (metis (no_types, lifting) list.map_comp comp_apply map_eq_conv take_map)
qed

theorem range_source_delivers_witness:
  "map (\<lambda>x. sint (the (fst x))) (emitted (snd (stage_run (pull_recv (Range_pull 5)) (newPullSource 2)
       (stageWire ''s'' None (Some 1) # map (streamRequest ''s'') [1, 224])))) = take (nat (sum_list [1, 224])) [2..4]"
proof -
  have "sint (2 :: 64 word) = 2" "sint (5 :: 64 word) = 5" by simp_all
  then show ?thesis
    using range_source_delivers [of 2 5 "[1, 224]" "''s''" None "Some 1" "''s''", OF _ _ prod.collapse [symmetric]] by simp
qed

lemma sint_add_wraps:
  "sint (a :: 64 word) + n \<ge> 2 ^ 63 \<Longrightarrow> n < 2 ^ 63 \<Longrightarrow> sint (a + word_of_int n) = sint a + n - 2 ^ 64"
proof -
  assume n: "sint a + n \<ge> 2 ^ 63" "n < 2 ^ 63"
  have "word_of_int (2 ^ 64) = (0 :: 64 word)" by simp
  then have "a + word_of_int n = word_of_int (sint a + n - 2 ^ 64)" by (simp only: of_int_diff of_int_add) simp
  then have "sint (a + word_of_int n) = signed_take_bit 63 (sint a + n - 2 ^ 64)" by (simp only: signed_of_int) simp
  then show ?thesis using n sint_lt [of a] by (simp add: signed_take_bit_int_eq_self)
qed

text \<open>
  C41. When the counter of a \<^verbatim>\<open>Range\<close> source plus a request exceeds the largest int64, the comparison with
  the end wraps around: the source emits the full number requested although fewer are left, its counter
  drops below the start, and it announces that there is more.
\<close>

theorem range_overflow:
  assumes "sint lo < sint hi" "n < 2 ^ 63" "2 ^ 63 \<le> sint lo + n"
  shows "\<exists>cur vs. Range_pull hi lo n = Some (cur, vs, True) \<and> int (length vs) = n \<and> sint hi - sint lo < n \<and>
     sint cur < sint lo"
proof -
  have w: "sint (lo + word_of_int n) = sint lo + n - 2 ^ 64" using sint_add_wraps assms by blast
  have n: "0 \<le> n" "sint hi - sint lo < n" "sint (word_of_int n :: 64 word) = n"
    using assms sint_lt [of lo] sint_lt [of hi] sint_add_small [of n 0] by auto
  have u: "unat (word_of_int n :: 64 word) = nat n" using n(1) assms(2) by (simp add: unat_eq_nat_uint uint_word_of_int)
  have lt: "sint lo + n - 2 ^ 64 < sint hi" "sint lo + n - 2 ^ 64 < sint lo"
    using assms by auto
  have "Range_pull hi lo n = Some (lo + word_of_int n, map (\<lambda>i. Some (lo + of_nat i)) [0..<nat n], True)"
    using assms(1) n(1) lt(1) unfolding Range_pull_def Let_def
    by (simp add: word_sle_eq word_sless_alt w n(3) u)
  then show ?thesis using n(1,2) lt(2) w by simp
qed

theorem range_overflow_witness:
  "\<exists>cur vs. Range_pull 9223372036854775807 9223372036854775797 224 = Some (cur, vs, True) \<and> int (length vs) = 224"
proof -
  have "sint (9223372036854775797 :: 64 word) = 9223372036854775797" "sint (9223372036854775807 :: 64 word) = 9223372036854775807"
    by simp_all
  then show ?thesis using range_overflow [of 9223372036854775797 9223372036854775807 224] by auto
qed

text \<open>
  C42. A channel source delivers the channel: whatever batches its goroutine forms and however they
  interleave with the requests, the elements come in order, exactly as many as were requested or all of
  them, numbered from one, and the stream completes exactly when all of them were requested.
\<close>

theorem chan_source_delivers:
  assumes "ms \<in> shuffles (map (streamRequest r) ns) (chan_bridge avail vs)" "list_all (\<lambda>n. 0 \<le> n) ns"
    "stage_run chan_recv newChanSource (stageWire sub up down # ms) = (s, es)"
  shows "map fst (emitted es) = map Some (take (nat (sum_list ns)) vs) \<and>
     (completes es \<longleftrightarrow> int (length vs) \<le> sum_list ns) \<and>
     map snd (emitted es) = seqs 0 (length (emitted es))"
proof -
  define s0 where "s0 = (newChanSource :: 'a chanSource)\<lparr>cs_downstream := down, cs_subID := sub\<rparr>"
  have s0: "cs_ok s0" "cs_demand s0 = 0" "sq_list (cs_buf s0) = []" "\<not> cs_channelDone s0" "cs_seqNo s0 = 0"
    by (simp_all add: s0_def newChanSource_def cs_ok_def)
  obtain fs where r: "stage_run chan_recv s0 ms = (s, fs)" "es = StartBridge # fs"
    using assms(3) by (auto simp: s0_def chan_recv_def split: prod.splits)
  have all: "list_all (\<lambda>m. 0 \<le> requested m) ms"
    using set_shuffles [OF assms(1)] chan_bridge_done [of avail vs] assms(2) by (auto simp: list_all_iff)
  have "stage_goods chan_recv asks s0 ms" by (rule run_goods [OF _ all]) (simp add: asks_def)
  then have "map snd (emitted fs) = seqs 0 (length (emitted fs))"
    using chan_source.run_bounded(2) [OF s0(1) _ all] r(1) s0(5) by simp
  then show ?thesis using chan_delivers [OF assms(1,2) s0(1-4) r(1)] r(2) by simp
qed

theorem chan_source_delivers_witness:
  "map fst (emitted (snd (stage_run chan_recv newChanSource (stageWire ''s'' None (Some 1) #
       [streamRequest ''s'' 1, chanBatch [Some (7::nat), Some 8], streamRequest ''s'' 5, chanBatch [Some 9], chanDone])))) =
     map Some (take (nat (sum_list [1, 5])) [7, 8, 9])"
proof -
  have "[streamRequest ''s'' 1, chanBatch [Some (7::nat), Some 8], streamRequest ''s'' 5, chanBatch [Some 9], chanDone]
      \<in> shuffles (map (streamRequest ''s'') [1, 5]) (chan_bridge [1, 0] [7, 8, 9])"
    by (simp add: Let_def)
  then show ?thesis using chan_source_delivers [OF _ _ prod.collapse [symmetric]] by fastforce
qed

text \<open>
  C43. No source emits more elements than were requested: not the pull sources on finite data or
  a seed, not the channel, tick and connection sources in any order of messages, and not the actor source as
  long as the actor it asks sends at most what it is asked for.
\<close>

theorem sources_keep_demand:
  assumes "list_all (\<lambda>m. 0 \<le> requested m) ms" "list_all (\<lambda>m. 0 \<le> requested m) bs"
    "stage_goods actor_track actor_good (newActorSource pid, 0) ms"
  shows "int (length (emitted (snd (stage_run (pull_recv Of_pull) (newPullSource anys) ms)))) \<le> sum_list (map requested ms) \<and>
    int (length (emitted (snd (stage_run (pull_recv (Unfold_pull step)) (newPullSource seed) ms)))) \<le> sum_list (map requested ms) \<and>
    int (length (emitted (snd (stage_run chan_recv newChanSource ms)))) \<le> sum_list (map requested ms) \<and>
    int (length (emitted (snd (stage_run (tick_recv clock) newTickSource ms)))) \<le> sum_list (map requested ms) \<and>
    int (length (emitted (snd (stage_run (conn_recv conn) newConnSource bs)))) \<le> sum_list (map requested bs) \<and>
    int (length (emitted (snd (stage_run actor_track (newActorSource pid, 0) ms)))) \<le> sum_list (map requested ms)"
proof (intro conjI)
  have a: "stage_goods recv asks s ms" for recv and s :: 's by (rule run_goods [OF _ assms(1)]) (simp add: asks_def)
  show "int (length (emitted (snd (stage_run (pull_recv Of_pull) (newPullSource anys) ms)))) \<le> sum_list (map requested ms)"
    using pull_source.run_bounded(1) [OF _ run_goods [OF Of_good assms(1)] assms(1)] by auto
  show "int (length (emitted (snd (stage_run (pull_recv (Unfold_pull step)) (newPullSource seed) ms)))) \<le> sum_list (map requested ms)"
    using pull_source.run_bounded(1) [OF _ run_goods [OF Unfold_good assms(1)] assms(1)] by auto
  show "int (length (emitted (snd (stage_run chan_recv newChanSource ms)))) \<le> sum_list (map requested ms)"
    using chan_source.run_bounded(1) [OF _ a assms(1), of newChanSource] by (simp add: newChanSource_def cs_ok_def)
  show "int (length (emitted (snd (stage_run (tick_recv clock) newTickSource ms)))) \<le> sum_list (map requested ms)"
    using tick_source.run_bounded(1) [OF _ a assms(1), of newTickSource] by (simp add: newTickSource_def)
  have b: "stage_goods recv asks s bs" for recv and s :: 's by (rule run_goods [OF _ assms(2)]) (simp add: asks_def)
  show "int (length (emitted (snd (stage_run (conn_recv conn) newConnSource bs)))) \<le> sum_list (map requested bs)"
    using conn_source.run_bounded(1) [OF _ b assms(2)] by auto
  show "int (length (emitted (snd (stage_run actor_track (newActorSource pid, 0) ms)))) \<le> sum_list (map requested ms)"
    using actor_source.run_bounded(1) [OF _ assms(3,1)] by (simp add: newActorSource_def)
qed

theorem sources_keep_demand_witness:
  "int (length (emitted (snd (stage_run chan_recv newChanSource
      [streamRequest ''s'' 2, chanBatch [Some (1::nat), Some 2, Some 3]])))) \<le> 2 \<and>
   int (length (emitted (snd (stage_run (conn_recv (\<lambda>k. ([k], None))) newConnSource [streamRequest ''s'' 3])))) \<le> 3"
  using sources_keep_demand [of "[streamRequest ''s'' 2, chanBatch [Some (1::nat), Some 2, Some 3]]" "[streamRequest ''s'' 3]" None
      "[]" "\<lambda>_. (0::nat, 0, True)" 0 "\<lambda>_. None" "\<lambda>k. ([k], None)"]
  by (simp add: actor_track_def actor_recv_def newActorSource_def Let_def startFetch_def)

end
