(* ===== verification/Stream_Merge.thy ===== *)
theory Stream_Merge
  imports Stream_Sources
begin

section \<open>Junctions that merge sources\<close>

text \<open>
  The fan-in stages: \<^verbatim>\<open>Merge\<close> and \<^verbatim>\<open>Combine\<close> (\<^verbatim>\<open>stream/stage_source.go\<close>), \<^verbatim>\<open>Concat\<close>
  (\<^verbatim>\<open>stream/stage_concat.go\<close>), \<^verbatim>\<open>Zip\<close> (\<^verbatim>\<open>stream/stage_zipn.go\<close>), \<^verbatim>\<open>MergePreferred\<close> and
  \<^verbatim>\<open>MergePrioritized\<close> (\<^verbatim>\<open>stream/stage_merge_select.go\<close>) and \<^verbatim>\<open>MergeLatest\<close>
  (\<^verbatim>\<open>stream/stage_merge_latest.go\<close>). Each spawns one sub-pipeline per source whose internal sink sends the
  elements back as \<open>mergeSubValue\<close> and its end as \<open>mergeSubDone\<close>. All of them interpret \<open>backpressure\<close>;
  \<^verbatim>\<open>Merge\<close> and \<^verbatim>\<open>Concat\<close> are eager FIFO stages, and \<^verbatim>\<open>Zip\<close> refines the transposition of its inputs.
\<close>

subsection \<open>Merge\<close>

record 'v mergeSource =
  mg_subs :: nat
  mg_downstream :: "spid option"
  mg_subID :: string
  mg_seqNo :: u64
  mg_buf :: "'v squeue"
  mg_demand :: int
  mg_doneCount :: int
  mg_metrics :: stageMetrics

definition newMergeSource :: "nat \<Rightarrow> 'v mergeSource" where
  "newMergeSource n = \<lparr>mg_subs = n, mg_downstream = None, mg_subID = [], mg_seqNo = 0, mg_buf = sq_new, mg_demand = 0,
     mg_doneCount = 0, mg_metrics = no_metrics\<rparr>"

definition spawn_all :: "nat \<Rightarrow> 'v seff list" where
  "spawn_all n = map (\<lambda>i. SpawnSub (int i)) [0..<n]"

definition mg_tryFlush :: "'v mergeSource \<Rightarrow> 'v mergeSource \<times> 'v seff list" where
  "mg_tryFlush s =
     (case drain (mg_subID s) (mg_downstream s) (mg_demand s) (mg_buf s) (mg_seqNo s) of
        (d, q, n, es) \<Rightarrow>
          (s\<lparr>mg_demand := d, mg_buf := q, mg_seqNo := n\<rparr>,
           es @ (if int (mg_subs s) \<le> mg_doneCount s \<and> sq_empty q
                 then [Tell (mg_downstream s) (streamComplete (mg_subID s)), Stop] else [])))"

definition merge_recv :: "'v mergeSource \<Rightarrow> 'v smsg \<Rightarrow> 'v mergeSource \<times> 'v seff list" where
  "merge_recv s m =
     (case m of
        stageWire sub up down \<Rightarrow>
          (let s1 = s\<lparr>mg_downstream := down, mg_subID := sub\<rparr> in
           if mg_subs s1 = 0 then (s1, [Tell down (streamComplete sub), Stop])
           else (s1, spawn_all (mg_subs s1)))
      | streamRequest _ n \<Rightarrow> mg_tryFlush (s\<lparr>mg_demand := mg_demand s + n\<rparr>)
      | mergeSubValue _ v \<Rightarrow>
          mg_tryFlush (s\<lparr>mg_metrics := count_in (mg_metrics s), mg_buf := sq_push v (mg_buf s)\<rparr>)
      | mergeSubDone _ \<Rightarrow> mg_tryFlush (s\<lparr>mg_doneCount := mg_doneCount s + 1\<rparr>)
      | streamCancel _ \<Rightarrow> (s, [Tell (mg_downstream s) (streamComplete (mg_subID s)), Stop])
      | _ \<Rightarrow> (s, [Unhandled]))"

subsection \<open>Concat\<close>

record 'v concatSource =
  cc_subs :: nat
  cc_downstream :: "spid option"
  cc_subID :: string
  cc_seqNo :: u64
  cc_buf :: "'v squeue"
  cc_demand :: int
  cc_current :: int
  cc_done :: bool
  cc_metrics :: stageMetrics

definition newConcatSource :: "nat \<Rightarrow> 'v concatSource" where
  "newConcatSource n = \<lparr>cc_subs = n, cc_downstream = None, cc_subID = [], cc_seqNo = 0, cc_buf = sq_new, cc_demand = 0,
     cc_current = - 1, cc_done = False, cc_metrics = no_metrics\<rparr>"

text \<open>Indexing past the last source panics.\<close>

definition spawnNext :: "'v concatSource \<Rightarrow> 'v concatSource \<times> 'v seff list" where
  "spawnNext s =
     (let i = cc_current s + 1 in
      (s\<lparr>cc_current := i\<rparr>, [if 0 \<le> i \<and> i < int (cc_subs s) then SpawnSub i else Panic]))"

definition cc_tryFlush :: "'v concatSource \<Rightarrow> 'v concatSource \<times> 'v seff list" where
  "cc_tryFlush s =
     (case drain (cc_subID s) (cc_downstream s) (cc_demand s) (cc_buf s) (cc_seqNo s) of
        (d, q, n, es) \<Rightarrow>
          (s\<lparr>cc_demand := d, cc_buf := q, cc_seqNo := n\<rparr>,
           es @ (if cc_done s \<and> sq_empty q
                 then [Tell (cc_downstream s) (streamComplete (cc_subID s)), Stop] else [])))"

definition concat_recv :: "'v concatSource \<Rightarrow> 'v smsg \<Rightarrow> 'v concatSource \<times> 'v seff list" where
  "concat_recv s m =
     (case m of
        stageWire sub up down \<Rightarrow>
          (let s1 = s\<lparr>cc_downstream := down, cc_subID := sub\<rparr> in
           if cc_subs s1 = 0 then (s1, [Tell down (streamComplete sub), Stop]) else spawnNext s1)
      | streamRequest _ n \<Rightarrow> cc_tryFlush (s\<lparr>cc_demand := cc_demand s + n\<rparr>)
      | mergeSubValue _ v \<Rightarrow>
          cc_tryFlush (s\<lparr>cc_metrics := count_in (cc_metrics s), cc_buf := sq_push v (cc_buf s)\<rparr>)
      | mergeSubDone _ \<Rightarrow>
          if cc_current s + 1 < int (cc_subs s) then spawnNext s
          else cc_tryFlush (s\<lparr>cc_done := True\<rparr>)
      | streamCancel _ \<Rightarrow> (s, [Tell (cc_downstream s) (streamComplete (cc_subID s)), Stop])
      | _ \<Rightarrow> (s, [Unhandled]))"

subsection \<open>Combine\<close>

text \<open>
  \<open>asT\<close> and \<open>asU\<close> are the type assertions of Go, \<open>tname\<close> the name of a dynamic type as \<^verbatim>\<open>%T\<close> prints it.
\<close>

record 'v combineSource =
  cb_downstream :: "spid option"
  cb_subID :: string
  cb_seqNo :: u64
  cb_leftBuf :: "'v squeue"
  cb_rightBuf :: "'v squeue"
  cb_leftDone :: bool
  cb_rightDone :: bool
  cb_demand :: int
  cb_metrics :: stageMetrics

definition newCombineSource :: "'v combineSource" where
  "newCombineSource = \<lparr>cb_downstream = None, cb_subID = [], cb_seqNo = 0, cb_leftBuf = sq_new, cb_rightBuf = sq_new,
     cb_leftDone = False, cb_rightDone = False, cb_demand = 0, cb_metrics = no_metrics\<rparr>"

text \<open>The emitting loop; the flag tells whether it returned early with an error.\<close>

function cb_loop :: "('v any \<Rightarrow> 't option) \<Rightarrow> ('v any \<Rightarrow> 'u option) \<Rightarrow> ('v any \<Rightarrow> string) \<Rightarrow> ('t \<Rightarrow> 'u \<Rightarrow> 'v any) \<Rightarrow>
    'v combineSource \<Rightarrow> 'v combineSource \<times> 'v seff list \<times> bool" where
  "cb_loop asT asU tname f s =
     (if 0 < cb_demand s then
        (case (sq_peek (cb_leftBuf s), sq_peek (cb_rightBuf s)) of
           (Some x, Some y) \<Rightarrow>
             (case (asT x, asU y) of
                (Some l, Some r) \<Rightarrow>
                  (case (sq_pop (cb_leftBuf s), sq_pop (cb_rightBuf s)) of
                     (Some (_, ql), Some (_, qr)) \<Rightarrow>
                       (let n = cb_seqNo s + 1 in
                        (case cb_loop asT asU tname f (s\<lparr>cb_leftBuf := ql, cb_rightBuf := qr, cb_seqNo := n,
                                 cb_demand := cb_demand s - 1, cb_metrics := count_out (cb_metrics s)\<rparr>) of
                           (s', es, b) \<Rightarrow> (s', Tell (cb_downstream s) (streamElement (cb_subID s) (f l r) n) # es, b)))
                   | _ \<Rightarrow> (s, [Panic], True))
              | _ \<Rightarrow>
                  (s, [Tell (cb_downstream s) (streamError (cb_subID s)
                         (''stream: Combine type mismatch l='' @ tname x @ '' r='' @ tname y)), Stop], True))
         | _ \<Rightarrow> (s, [], False))
      else (s, [], False))"
  by pat_completeness auto
termination by (relation "measure (\<lambda>(_, _, _, _, s). nat (cb_demand s))") auto

declare cb_loop.simps [simp del]

definition cb_tryEmit :: "('v any \<Rightarrow> 't option) \<Rightarrow> ('v any \<Rightarrow> 'u option) \<Rightarrow> ('v any \<Rightarrow> string) \<Rightarrow> ('t \<Rightarrow> 'u \<Rightarrow> 'v any) \<Rightarrow>
    'v combineSource \<Rightarrow> 'v combineSource \<times> 'v seff list" where
  "cb_tryEmit asT asU tname f s =
     (case cb_loop asT asU tname f s of (s', es, failed) \<Rightarrow>
        if failed then (s', es)
        else (s', es @ (if cb_leftDone s' \<and> sq_empty (cb_leftBuf s') \<or> cb_rightDone s' \<and> sq_empty (cb_rightBuf s')
                        then [Tell (cb_downstream s) (streamComplete (cb_subID s)), Stop] else [])))"

definition combine_recv :: "('v any \<Rightarrow> 't option) \<Rightarrow> ('v any \<Rightarrow> 'u option) \<Rightarrow> ('v any \<Rightarrow> string) \<Rightarrow> ('t \<Rightarrow> 'u \<Rightarrow> 'v any) \<Rightarrow>
    'v combineSource \<Rightarrow> 'v smsg \<Rightarrow> 'v combineSource \<times> 'v seff list" where
  "combine_recv asT asU tname f s m =
     (case m of
        stageWire sub up down \<Rightarrow> (s\<lparr>cb_downstream := down, cb_subID := sub\<rparr>, [SpawnSub 0, SpawnSub 1])
      | streamRequest _ n \<Rightarrow> cb_tryEmit asT asU tname f (s\<lparr>cb_demand := cb_demand s + n\<rparr>)
      | mergeSubValue slot v \<Rightarrow>
          (let s1 = s\<lparr>cb_metrics := count_in (cb_metrics s)\<rparr> in
           cb_tryEmit asT asU tname f
             (if slot = 0 then s1\<lparr>cb_leftBuf := sq_push v (cb_leftBuf s)\<rparr>
              else s1\<lparr>cb_rightBuf := sq_push v (cb_rightBuf s)\<rparr>))
      | mergeSubDone slot \<Rightarrow>
          cb_tryEmit asT asU tname f (if slot = 0 then s\<lparr>cb_leftDone := True\<rparr> else s\<lparr>cb_rightDone := True\<rparr>)
      | streamCancel _ \<Rightarrow> (s, [Tell (cb_downstream s) (streamComplete (cb_subID s)), Stop])
      | _ \<Rightarrow> (s, [Unhandled]))"

subsection \<open>Zip\<close>

record 'v zipSource =
  zn_subs :: nat
  zn_downstream :: "spid option"
  zn_subID :: string
  zn_seqNo :: u64
  zn_bufs :: "'v squeue list"
  zn_done :: "bool list"
  zn_demand :: int
  zn_metrics :: stageMetrics

definition newZipNSource :: "nat \<Rightarrow> 'v zipSource" where
  "newZipNSource n = \<lparr>zn_subs = n, zn_downstream = None, zn_subID = [], zn_seqNo = 0, zn_bufs = [], zn_done = [], zn_demand = 0,
     zn_metrics = no_metrics\<rparr>"

definition allReady :: "'v squeue list \<Rightarrow> bool" where
  "allReady bufs = list_all (\<lambda>q. \<not> sq_empty q) bufs"

text \<open>Popping one element per slot: the tuple, the slot whose element has the wrong type, or a panic.\<close>

fun zn_pops :: "('v any \<Rightarrow> 't option) \<Rightarrow> nat \<Rightarrow> 'v squeue list \<Rightarrow> 'v squeue list \<times> (nat + 't list) option" where
  "zn_pops asT i [] = ([], Some (Inr []))"
| "zn_pops asT i (q # qs) =
     (case sq_pop q of
        None \<Rightarrow> (q # qs, None)
      | Some (v, q1) \<Rightarrow>
          (case asT v of
             None \<Rightarrow> (q1 # qs, Some (Inl i))
           | Some t \<Rightarrow>
               (case zn_pops asT (i + 1) qs of (qs1, r) \<Rightarrow>
                  (q1 # qs1, case r of Some (Inr ts) \<Rightarrow> Some (Inr (t # ts)) | _ \<Rightarrow> r))))"

function zn_loop :: "('v any \<Rightarrow> 't option) \<Rightarrow> (nat \<Rightarrow> string) \<Rightarrow> ('t list \<Rightarrow> 'v any) \<Rightarrow> 'v zipSource \<Rightarrow>
    'v zipSource \<times> 'v seff list \<times> bool" where
  "zn_loop asT showi f s =
     (if 0 < zn_demand s \<and> allReady (zn_bufs s) then
        (case zn_pops asT 0 (zn_bufs s) of
           (qs, None) \<Rightarrow> (s\<lparr>zn_bufs := qs\<rparr>, [Panic], True)
         | (qs, Some (Inl i)) \<Rightarrow>
             (s\<lparr>zn_bufs := qs\<rparr>,
              [Tell (zn_downstream s) (streamError (zn_subID s) (''stream: ZipN type mismatch on slot '' @ showi i)), Stop], True)
         | (qs, Some (Inr ts)) \<Rightarrow>
             (let n = zn_seqNo s + 1 in
              (case zn_loop asT showi f (s\<lparr>zn_bufs := qs, zn_seqNo := n, zn_demand := zn_demand s - 1,
                       zn_metrics := count_out (zn_metrics s)\<rparr>) of
                 (s', es, b) \<Rightarrow> (s', Tell (zn_downstream s) (streamElement (zn_subID s) (f ts) n) # es, b))))
      else (s, [], False))"
  by pat_completeness auto
termination by (relation "measure (\<lambda>(_, _, _, s). nat (zn_demand s))") auto

declare zn_loop.simps [simp del]

definition zn_finished :: "'v zipSource \<Rightarrow> bool" where
  "zn_finished s = list_ex (\<lambda>(q, b). b \<and> sq_empty q) (zip (zn_bufs s) (zn_done s))"

definition zn_tryEmit :: "('v any \<Rightarrow> 't option) \<Rightarrow> (nat \<Rightarrow> string) \<Rightarrow> ('t list \<Rightarrow> 'v any) \<Rightarrow> 'v zipSource \<Rightarrow>
    'v zipSource \<times> 'v seff list" where
  "zn_tryEmit asT showi f s =
     (case zn_loop asT showi f s of (s', es, failed) \<Rightarrow>
        if failed then (s', es)
        else (s', es @ (if zn_finished s' then [Tell (zn_downstream s) (streamComplete (zn_subID s)), Stop] else [])))"

definition in_slots :: "int \<Rightarrow> 'a list \<Rightarrow> bool" where
  "in_slots i xs \<longleftrightarrow> 0 \<le> i \<and> i < int (length xs)"

definition zip_recv :: "('v any \<Rightarrow> 't option) \<Rightarrow> (nat \<Rightarrow> string) \<Rightarrow> ('t list \<Rightarrow> 'v any) \<Rightarrow> 'v zipSource \<Rightarrow> 'v smsg \<Rightarrow>
    'v zipSource \<times> 'v seff list" where
  "zip_recv asT showi f s m =
     (case m of
        stageWire sub up down \<Rightarrow>
          (let s1 = s\<lparr>zn_downstream := down, zn_subID := sub\<rparr> in
           if zn_subs s1 = 0 then (s1, [Tell down (streamComplete sub), Stop])
           else (s1\<lparr>zn_bufs := replicate (zn_subs s1) sq_new, zn_done := replicate (zn_subs s1) False\<rparr>, spawn_all (zn_subs s1)))
      | streamRequest _ n \<Rightarrow> zn_tryEmit asT showi f (s\<lparr>zn_demand := zn_demand s + n\<rparr>)
      | mergeSubValue slot v \<Rightarrow>
          (let s1 = s\<lparr>zn_metrics := count_in (zn_metrics s)\<rparr> in
           if in_slots slot (zn_bufs s1) then
             zn_tryEmit asT showi f (s1\<lparr>zn_bufs := (zn_bufs s)[nat slot := sq_push v (zn_bufs s ! nat slot)]\<rparr>)
           else (s1, [Panic]))
      | mergeSubDone slot \<Rightarrow>
          if in_slots slot (zn_done s) then zn_tryEmit asT showi f (s\<lparr>zn_done := (zn_done s)[nat slot := True]\<rparr>)
          else (s, [Panic])
      | streamCancel _ \<Rightarrow> (s, [Tell (zn_downstream s) (streamComplete (zn_subID s)), Stop])
      | _ \<Rightarrow> (s, [Unhandled]))"

subsection \<open>Merge with a selector\<close>

text \<open>The selector gets the number of the emission, so that a random one may choose differently each time.\<close>

type_synonym 'v slotSelector = "u64 \<Rightarrow> 'v squeue list \<Rightarrow> int"

record 'v weightedSource =
  wm_subs :: nat
  wm_downstream :: "spid option"
  wm_subID :: string
  wm_seqNo :: u64
  wm_bufs :: "'v squeue list"
  wm_done :: "bool list"
  wm_demand :: int
  wm_metrics :: stageMetrics

definition newWeightedMergeSource :: "nat \<Rightarrow> 'v weightedSource" where
  "newWeightedMergeSource n = \<lparr>wm_subs = n, wm_downstream = None, wm_subID = [], wm_seqNo = 0, wm_bufs = [], wm_done = [],
     wm_demand = 0, wm_metrics = no_metrics\<rparr>"

definition first_full :: "'v squeue list \<Rightarrow> int" where
  "first_full bufs = (case List.find (\<lambda>i. \<not> sq_empty (bufs ! i)) [0..<length bufs] of None \<Rightarrow> - 1 | Some i \<Rightarrow> int i)"

text \<open>\<^verbatim>\<open>MergePreferred\<close>: the preferred slot if it has an element, else the first slot that has one.\<close>

definition select_preferred :: "nat \<Rightarrow> 'v slotSelector" where
  "select_preferred pref n bufs = (if \<not> sq_empty (bufs ! pref) then int pref else first_full bufs)"

text \<open>\<^verbatim>\<open>MergePrioritized\<close>: \<open>rnd n total\<close> is the random number below \<open>total\<close> drawn for emission \<open>n\<close>.\<close>

fun select_walk :: "int list \<Rightarrow> nat \<Rightarrow> 'v squeue list \<Rightarrow> int \<Rightarrow> int" where
  "select_walk w i [] r = - 1"
| "select_walk w i (q # qs) r =
     (if sq_empty q then select_walk w (i + 1) qs r
      else if r - w ! i < 0 then int i else select_walk w (i + 1) qs (r - w ! i))"

definition select_prioritized :: "(u64 \<Rightarrow> int \<Rightarrow> int) \<Rightarrow> int list \<Rightarrow> 'v slotSelector" where
  "select_prioritized rnd w n bufs =
     (let total = sum_list (map (\<lambda>i. if sq_empty (bufs ! i) then 0 else w ! i) [0..<length bufs]) in
      if total \<le> 0 then first_full bufs else select_walk w 0 bufs (rnd n total))"

function wm_loop :: "'v slotSelector \<Rightarrow> 'v weightedSource \<Rightarrow> 'v weightedSource \<times> 'v seff list" where
  "wm_loop select s =
     (if 0 < wm_demand s then
        let slot = select (wm_seqNo s + 1) (wm_bufs s) in
        if slot < 0 then (s, [])
        else
          let n = wm_seqNo s + 1 in
          (case (if in_slots slot (wm_bufs s) then sq_pop (wm_bufs s ! nat slot) else None) of
             None \<Rightarrow> (s\<lparr>wm_seqNo := n\<rparr>, [Panic])
           | Some (v, q) \<Rightarrow>
               (case wm_loop select (s\<lparr>wm_bufs := (wm_bufs s)[nat slot := q], wm_seqNo := n, wm_demand := wm_demand s - 1\<rparr>) of
                  (s', es) \<Rightarrow> (s', Tell (wm_downstream s) (streamElement (wm_subID s) v n) # es)))
      else (s, []))"
  by pat_completeness auto
termination by (relation "measure (\<lambda>(_, s). nat (wm_demand s))") auto

declare wm_loop.simps [simp del]

definition allDoneAndEmpty :: "'v weightedSource \<Rightarrow> bool" where
  "allDoneAndEmpty s = list_all (\<lambda>(q, b). b \<and> sq_empty q) (zip (wm_bufs s) (wm_done s))"

definition wm_tryFlush :: "'v slotSelector \<Rightarrow> 'v weightedSource \<Rightarrow> 'v weightedSource \<times> 'v seff list" where
  "wm_tryFlush select s =
     (case wm_loop select s of (s', es) \<Rightarrow>
        if Panic \<in> set es then (s', es)
        else (s', es @ (if allDoneAndEmpty s' then [Tell (wm_downstream s) (streamComplete (wm_subID s)), Stop] else [])))"

definition weighted_recv :: "'v slotSelector \<Rightarrow> 'v weightedSource \<Rightarrow> 'v smsg \<Rightarrow> 'v weightedSource \<times> 'v seff list" where
  "weighted_recv select s m =
     (case m of
        stageWire sub up down \<Rightarrow>
          (let s1 = s\<lparr>wm_downstream := down, wm_subID := sub\<rparr> in
           if wm_subs s1 = 0 then (s1, [Tell down (streamComplete sub), Stop])
           else (s1\<lparr>wm_bufs := replicate (wm_subs s1) sq_new, wm_done := replicate (wm_subs s1) False\<rparr>, spawn_all (wm_subs s1)))
      | streamRequest _ n \<Rightarrow> wm_tryFlush select (s\<lparr>wm_demand := wm_demand s + n\<rparr>)
      | mergeSubValue slot v \<Rightarrow>
          (let s1 = s\<lparr>wm_metrics := count_in (wm_metrics s)\<rparr> in
           if in_slots slot (wm_bufs s1) then
             wm_tryFlush select (s1\<lparr>wm_bufs := (wm_bufs s)[nat slot := sq_push v (wm_bufs s ! nat slot)]\<rparr>)
           else (s1, [Panic]))
      | mergeSubDone slot \<Rightarrow>
          if in_slots slot (wm_done s) then wm_tryFlush select (s\<lparr>wm_done := (wm_done s)[nat slot := True]\<rparr>)
          else (s, [Panic])
      | streamCancel _ \<Rightarrow> (s, [Tell (wm_downstream s) (streamComplete (wm_subID s)), Stop])
      | _ \<Rightarrow> (s, [Unhandled]))"

subsection \<open>Merge of the latest values\<close>

record 'v latestSource =
  ml_subs :: nat
  ml_downstream :: "spid option"
  ml_subID :: string
  ml_seqNo :: u64
  ml_cache :: "'v any list"
  ml_seen :: "bool list"
  ml_seenCount :: int
  ml_done :: "bool list"
  ml_doneCount :: int
  ml_pendingSnapshots :: int
  ml_demand :: int
  ml_metrics :: stageMetrics

definition newMergeLatestSource :: "nat \<Rightarrow> 'v latestSource" where
  "newMergeLatestSource n = \<lparr>ml_subs = n, ml_downstream = None, ml_subID = [], ml_seqNo = 0, ml_cache = [], ml_seen = [],
     ml_seenCount = 0, ml_done = [], ml_doneCount = 0, ml_pendingSnapshots = 0, ml_demand = 0, ml_metrics = no_metrics\<rparr>"

text \<open>The snapshot of the cache, or the first slot whose value has the wrong type.\<close>

fun ml_snap :: "('v any \<Rightarrow> 't option) \<Rightarrow> nat \<Rightarrow> 'v any list \<Rightarrow> nat + 't list" where
  "ml_snap asT i [] = Inr []"
| "ml_snap asT i (v # vs) =
     (case asT v of None \<Rightarrow> Inl i
      | Some t \<Rightarrow> (case ml_snap asT (i + 1) vs of Inl j \<Rightarrow> Inl j | Inr ts \<Rightarrow> Inr (t # ts)))"

function ml_loop :: "('v any \<Rightarrow> 't option) \<Rightarrow> (nat \<Rightarrow> string) \<Rightarrow> ('t list \<Rightarrow> 'v any) \<Rightarrow> 'v latestSource \<Rightarrow>
    'v latestSource \<times> 'v seff list \<times> bool" where
  "ml_loop asT showi box s =
     (if 0 < ml_demand s \<and> 0 < ml_pendingSnapshots s then
        (case ml_snap asT 0 (ml_cache s) of
           Inl i \<Rightarrow> (s, [Tell (ml_downstream s) (streamError (ml_subID s)
                        (''stream: MergeLatest type mismatch on slot '' @ showi i)), Stop], True)
         | Inr ts \<Rightarrow>
             (let n = ml_seqNo s + 1 in
              (case ml_loop asT showi box (s\<lparr>ml_seqNo := n, ml_demand := ml_demand s - 1,
                       ml_pendingSnapshots := ml_pendingSnapshots s - 1, ml_metrics := count_out (ml_metrics s)\<rparr>) of
                 (s', es, b) \<Rightarrow> (s', Tell (ml_downstream s) (streamElement (ml_subID s) (box ts) n) # es, b))))
      else (s, [], False))"
  by pat_completeness auto
termination by (relation "measure (\<lambda>(_, _, _, s). nat (ml_demand s))") auto

declare ml_loop.simps [simp del]

definition ml_tryEmit :: "('v any \<Rightarrow> 't option) \<Rightarrow> (nat \<Rightarrow> string) \<Rightarrow> ('t list \<Rightarrow> 'v any) \<Rightarrow> 'v latestSource \<Rightarrow>
    'v latestSource \<times> 'v seff list" where
  "ml_tryEmit asT showi box s =
     (case ml_loop asT showi box s of (s', es, failed) \<Rightarrow>
        if failed then (s', es)
        else (s', es @ (if ml_doneCount s' = int (ml_subs s') \<and> ml_pendingSnapshots s' = 0
                        then [Tell (ml_downstream s) (streamComplete (ml_subID s)), Stop] else [])))"

definition latest_recv :: "('v any \<Rightarrow> 't option) \<Rightarrow> (nat \<Rightarrow> string) \<Rightarrow> ('t list \<Rightarrow> 'v any) \<Rightarrow> 'v latestSource \<Rightarrow> 'v smsg \<Rightarrow>
    'v latestSource \<times> 'v seff list" where
  "latest_recv asT showi box s m =
     (case m of
        stageWire sub up down \<Rightarrow>
          (let s1 = s\<lparr>ml_downstream := down, ml_subID := sub\<rparr> in
           if ml_subs s1 = 0 then (s1, [Tell down (streamComplete sub), Stop])
           else (s1\<lparr>ml_cache := replicate (ml_subs s1) None, ml_seen := replicate (ml_subs s1) False,
                   ml_done := replicate (ml_subs s1) False\<rparr>, spawn_all (ml_subs s1)))
      | streamRequest _ n \<Rightarrow> ml_tryEmit asT showi box (s\<lparr>ml_demand := ml_demand s + n\<rparr>)
      | mergeSubValue slot v \<Rightarrow>
          (let s1 = s\<lparr>ml_metrics := count_in (ml_metrics s)\<rparr> in
           if in_slots slot (ml_cache s1) then
             let s2 = s1\<lparr>ml_cache := (ml_cache s1)[nat slot := v]\<rparr>;
                 s3 = (if ml_seen s2 ! nat slot then s2
                       else s2\<lparr>ml_seen := (ml_seen s2)[nat slot := True], ml_seenCount := ml_seenCount s2 + 1\<rparr>);
                 s4 = (if ml_seenCount s3 = int (ml_subs s3)
                       then s3\<lparr>ml_pendingSnapshots := ml_pendingSnapshots s3 + 1\<rparr> else s3)
             in ml_tryEmit asT showi box s4
           else (s1, [Panic]))
      | mergeSubDone slot \<Rightarrow>
          if in_slots slot (ml_done s) then
            ml_tryEmit asT showi box
              (if ml_done s ! nat slot then s
               else s\<lparr>ml_done := (ml_done s)[nat slot := True], ml_doneCount := ml_doneCount s + 1\<rparr>)
          else (s, [Panic])
      | streamCancel _ \<Rightarrow> (s, [Tell (ml_downstream s) (streamComplete (ml_subID s)), Stop])
      | _ \<Rightarrow> (s, [Unhandled]))"

subsection \<open>Merge and concat hand on what arrives\<close>

fun sub_values :: "'v smsg \<Rightarrow> 'v any list" where
  "sub_values (mergeSubValue i v) = [v]"
| "sub_values _ = []"

text \<open>The messages that the junctions handle; the others leave the state as it is.\<close>

fun junction_msg :: "'v smsg \<Rightarrow> bool" where
  "junction_msg (stageWire _ _ _) = True"
| "junction_msg (streamRequest _ _) = True"
| "junction_msg (mergeSubValue _ _) = True"
| "junction_msg (mergeSubDone _) = True"
| "junction_msg (streamCancel _) = True"
| "junction_msg _ = False"

lemma junction_cases [case_names wire request val fin cancel other]:
  obtains sub up down where "m = stageWire sub up down" | r n where "m = streamRequest r n"
    | i v where "m = mergeSubValue i v" | i where "m = mergeSubDone i" | c where "m = streamCancel c" | "\<not> junction_msg m"
  by (cases m) auto

lemma junction_other [simp]:
  assumes "\<not> junction_msg m"
  shows "requested m = 0" "sub_values m = []" "\<not> is_cancel m" "\<not> is_wire m"
    "merge_recv s1 m = (s1, [Unhandled])" "concat_recv s2 m = (s2, [Unhandled])"
    "combine_recv asT asU tname f s3 m = (s3, [Unhandled])" "zip_recv cast showi g s4 m = (s4, [Unhandled])"
    "weighted_recv select s5 m = (s5, [Unhandled])" "latest_recv cast showi g s6 m = (s6, [Unhandled])"
  using assms
  by (cases m; simp add: merge_recv_def concat_recv_def combine_recv_def zip_recv_def weighted_recv_def latest_recv_def)+

lemma spawn_all_plain [simp]: "emitted (spawn_all n) = []" "\<not> completes (spawn_all n)" "Stop \<notin> set (spawn_all n)"
  by (auto simp: spawn_all_def completes_def list_ex_iff emitted_def List.map_filter_def)

definition mg_ok :: "'v mergeSource \<Rightarrow> bool" where
  "mg_ok s \<longleftrightarrow> sq_ok (mg_buf s) \<and> 0 \<le> mg_demand s \<and> (mg_subs s = 0 \<longrightarrow> sq_list (mg_buf s) = [])"

lemma mg_tryFlushD:
  assumes "mg_tryFlush s = (s', es)" "sq_ok (mg_buf s)" "0 \<le> mg_demand s"
  shows "sq_ok (mg_buf s') \<and> 0 \<le> mg_demand s' \<and> mg_demand s' + int (length (emitted es)) = mg_demand s \<and>
     map fst (emitted es) @ sq_list (mg_buf s') = sq_list (mg_buf s) \<and>
     map snd (emitted es) = seqs (mg_seqNo s) (length (emitted es)) \<and>
     mg_seqNo s' = mg_seqNo s + of_nat (length (emitted es)) \<and> mg_subs s' = mg_subs s \<and> mg_doneCount s' = mg_doneCount s \<and>
     (completes es \<longleftrightarrow> int (mg_subs s) \<le> mg_doneCount s \<and> sq_list (mg_buf s') = []) \<and> (completes es \<longleftrightarrow> Stop \<in> set es) \<and>
     (mg_demand s' = 0 \<or> sq_list (mg_buf s') = [])"
proof -
  obtain d q n fs where D: "drain (mg_subID s) (mg_downstream s) (mg_demand s) (mg_buf s) (mg_seqNo s) = (d, q, n, fs)"
    by (metis prod_cases4)
  show ?thesis using assms D drainD [OF D] by (auto simp: mg_tryFlush_def sq_empty_list split: if_splits)
qed

definition mg_good :: "'v mergeSource \<Rightarrow> 'v smsg \<Rightarrow> bool" where
  "mg_good s m \<longleftrightarrow> 0 \<le> requested m \<and> (sub_values m \<noteq> [] \<longrightarrow> mg_subs s \<noteq> 0)"

lemma merge_step:
  assumes "mg_ok s" "mg_good s m" "merge_recv s m = (s', es)"
  shows "mg_ok s' \<and> mg_demand s' + int (length (emitted es)) = mg_demand s + requested m \<and>
     map snd (emitted es) = seqs (mg_seqNo s) (length (emitted es)) \<and>
     mg_seqNo s' = mg_seqNo s + of_nat (length (emitted es)) \<and>
     (\<not> is_cancel m \<longrightarrow> map fst (emitted es) @ sq_list (mg_buf s') = sq_list (mg_buf s) @ sub_values m \<and>
        (completes es \<longrightarrow> sq_list (mg_buf s') = [] \<and> Stop \<in> set es) \<and>
        (mg_demand s = 0 \<or> sq_list (mg_buf s) = [] \<longrightarrow> mg_demand s' = 0 \<or> sq_list (mg_buf s') = []))"
proof (cases m rule: junction_cases)
  case (request r n)
  then show ?thesis using assms mg_tryFlushD [of "s\<lparr>mg_demand := mg_demand s + n\<rparr>" s' es]
    by (auto simp: merge_recv_def mg_good_def mg_ok_def)
next
  case (val i v)
  then show ?thesis
    using assms mg_tryFlushD [of "s\<lparr>mg_metrics := count_in (mg_metrics s), mg_buf := sq_push v (mg_buf s)\<rparr>" s' es]
    by (auto simp: merge_recv_def mg_good_def mg_ok_def squeue_simps)
next
  case (fin i)
  then show ?thesis using assms mg_tryFlushD [of "s\<lparr>mg_doneCount := mg_doneCount s + 1\<rparr>" s' es]
    by (auto simp: merge_recv_def mg_good_def mg_ok_def)
next
  case other
  then show ?thesis using assms by auto
qed (use assms in \<open>auto simp: merge_recv_def mg_ok_def Let_def split: if_splits\<close>)

interpretation merge_source: eager_stage merge_recv mg_ok mg_good mg_demand mg_seqNo "\<lambda>s. sq_list (mg_buf s)" "\<lambda>_. sub_values"
  by (rule eager_stageI [OF merge_step]) (auto simp: mg_ok_def)

definition cc_ok :: "'v concatSource \<Rightarrow> bool" where
  "cc_ok s \<longleftrightarrow> sq_ok (cc_buf s) \<and> 0 \<le> cc_demand s \<and> (cc_subs s = 0 \<longrightarrow> sq_list (cc_buf s) = []) \<and>
     - 1 \<le> cc_current s \<and> cc_current s < int (cc_subs s)"

definition cc_good :: "'v concatSource \<Rightarrow> 'v smsg \<Rightarrow> bool" where
  "cc_good s m \<longleftrightarrow> 0 \<le> requested m \<and> (sub_values m \<noteq> [] \<longrightarrow> cc_subs s \<noteq> 0) \<and> (is_wire m \<longrightarrow> cc_current s = - 1)"

lemma cc_tryFlushD:
  assumes "cc_tryFlush s = (s', es)" "sq_ok (cc_buf s)" "0 \<le> cc_demand s"
  shows "sq_ok (cc_buf s') \<and> 0 \<le> cc_demand s' \<and> cc_demand s' + int (length (emitted es)) = cc_demand s \<and>
     map fst (emitted es) @ sq_list (cc_buf s') = sq_list (cc_buf s) \<and>
     map snd (emitted es) = seqs (cc_seqNo s) (length (emitted es)) \<and>
     cc_seqNo s' = cc_seqNo s + of_nat (length (emitted es)) \<and> cc_subs s' = cc_subs s \<and> cc_current s' = cc_current s \<and>
     cc_done s' = cc_done s \<and>
     (completes es \<longleftrightarrow> cc_done s \<and> sq_list (cc_buf s') = []) \<and> (completes es \<longleftrightarrow> Stop \<in> set es) \<and>
     (cc_demand s' = 0 \<or> sq_list (cc_buf s') = []) \<and> (\<forall>i. SpawnSub i \<notin> set es)"
proof -
  obtain d q n fs where D: "drain (cc_subID s) (cc_downstream s) (cc_demand s) (cc_buf s) (cc_seqNo s) = (d, q, n, fs)"
    by (metis prod_cases4)
  have "SpawnSub i \<notin> set fs" for i
    using D drain_spec [OF assms(2,3), of "cc_subID s" "cc_downstream s" "cc_seqNo s"] by (auto dest: elems_tell)
  then show ?thesis using assms D drainD [OF D] by (auto simp: cc_tryFlush_def sq_empty_list split: if_splits)
qed

lemma concat_step:
  assumes "cc_ok s" "cc_good s m" "concat_recv s m = (s', es)"
  shows "cc_ok s' \<and> cc_demand s' + int (length (emitted es)) = cc_demand s + requested m \<and>
     map snd (emitted es) = seqs (cc_seqNo s) (length (emitted es)) \<and>
     cc_seqNo s' = cc_seqNo s + of_nat (length (emitted es)) \<and>
     (\<not> is_cancel m \<longrightarrow> map fst (emitted es) @ sq_list (cc_buf s') = sq_list (cc_buf s) @ sub_values m \<and>
        (completes es \<longrightarrow> sq_list (cc_buf s') = [] \<and> Stop \<in> set es) \<and>
        (cc_demand s = 0 \<or> sq_list (cc_buf s) = [] \<longrightarrow> cc_demand s' = 0 \<or> sq_list (cc_buf s') = []))"
proof (cases m rule: junction_cases)
  case (request r n)
  then show ?thesis using assms cc_tryFlushD [of "s\<lparr>cc_demand := cc_demand s + n\<rparr>" s' es]
    by (auto simp: concat_recv_def cc_good_def cc_ok_def)
next
  case (val i v)
  then show ?thesis
    using assms cc_tryFlushD [of "s\<lparr>cc_metrics := count_in (cc_metrics s), cc_buf := sq_push v (cc_buf s)\<rparr>" s' es]
    by (auto simp: concat_recv_def cc_good_def cc_ok_def squeue_simps)
next
  case (fin i)
  then show ?thesis using assms cc_tryFlushD [of "s\<lparr>cc_done := True\<rparr>" s' es]
    by (cases "cc_current s + 1 < int (cc_subs s)")
      (auto simp: concat_recv_def cc_good_def cc_ok_def spawnNext_def Let_def)
next
  case other
  then show ?thesis using assms by auto
qed (use assms in \<open>auto simp: concat_recv_def cc_ok_def cc_good_def spawnNext_def Let_def split: if_splits\<close>)

interpretation concat_source: eager_stage concat_recv cc_ok cc_good cc_demand cc_seqNo "\<lambda>s. sq_list (cc_buf s)" "\<lambda>_. sub_values"
  by (rule eager_stageI [OF concat_step]) (auto simp: cc_ok_def)

text \<open>
  What the sub-pipelines send: source \<open>i\<close> sends its elements in order and then its end, in any interleaving
  with the other sources and with the requests.
\<close>

fun of_slot :: "nat \<Rightarrow> 'v smsg \<Rightarrow> bool" where
  "of_slot i (mergeSubValue j v) = (j = int i)"
| "of_slot i (mergeSubDone j) = (j = int i)"
| "of_slot i m = False"

fun is_sub_done :: "'v smsg \<Rightarrow> bool" where
  "is_sub_done (mergeSubDone j) = True"
| "is_sub_done m = False"

lemma junction_not_done [simp]: "\<not> junction_msg m \<Longrightarrow> \<not> is_sub_done m"
  by (cases m) auto

definition is_request :: "'v smsg \<Rightarrow> bool" where
  "is_request m \<longleftrightarrow> (\<exists>r n. m = streamRequest r n \<and> 0 \<le> n)"

definition sub_protocol :: "'v any list list \<Rightarrow> 'v smsg list \<Rightarrow> bool" where
  "sub_protocol vss ms \<longleftrightarrow>
     (\<forall>i < length vss. filter (of_slot i) ms = map (mergeSubValue (int i)) (vss ! i) @ [mergeSubDone (int i)]) \<and>
     list_all (\<lambda>m. is_request m \<or> (\<exists>i < length vss. of_slot i m)) ms"

definition sub_dones :: "'v smsg list \<Rightarrow> nat" where
  "sub_dones ms = length (filter is_sub_done ms)"

lemma sub_dones_simps [simp]: "sub_dones [] = 0" "sub_dones (m # ms) = (if is_sub_done m then 1 else 0) + sub_dones ms"
  "sub_dones (ms @ ns) = sub_dones ms + sub_dones ns"
  by (auto simp: sub_dones_def)

lemma slot_sum:
  assumes "list_all (\<lambda>m. is_request m \<or> (\<exists>i < n. of_slot i m)) ms"
  shows "sub_dones ms = (\<Sum>i<n. sub_dones (filter (of_slot i) ms))"
    and "mset (concat (map sub_values ms)) = (\<Sum>i<n. mset (concat (map sub_values (filter (of_slot i) ms))))"
proof -
  have one: "(\<Sum>i<n. f (filter (of_slot i) (m # ms))) = f [m] + (\<Sum>i<n. f (filter (of_slot i) ms))"
    if "j < n" "of_slot j m" "\<And>xs ys. f (xs @ ys) = f xs + f ys" for f :: "'a smsg list \<Rightarrow> 'b :: comm_monoid_add" and j m ms
  proof -
    have "of_slot i m \<longleftrightarrow> i = j" for i using that(2) by (cases m) auto
    moreover have "f (m # filter (of_slot i) ms) = f [m] + f (filter (of_slot i) ms)" for i
      using that(3) [of "[m]" "filter (of_slot i) ms"] by (simp only: append_Cons append_Nil)
    ultimately have "f (filter (of_slot i) (m # ms)) = (if i = j then f [m] else 0) + f (filter (of_slot i) ms)" for i
      by (cases "i = j") simp_all
    then have "(\<Sum>i<n. f (filter (of_slot i) (m # ms))) = (\<Sum>i<n. (if i = j then f [m] else 0) + f (filter (of_slot i) ms))"
      by (rule sum.cong [OF refl])
    then show ?thesis using that(1) by (simp add: sum.distrib)
  qed
  show "sub_dones ms = (\<Sum>i<n. sub_dones (filter (of_slot i) ms))" using assms
  proof (induction ms)
    case (Cons m ms)
    then consider "is_request m" | j where "j < n" "of_slot j m" by auto
    then show ?case
    proof cases
      case 1
      then show ?thesis using Cons by (auto simp: is_request_def)
    next
      case 2
      then show ?thesis using Cons one [OF 2, of sub_dones ms] by simp
    qed
  qed simp
  show "mset (concat (map sub_values ms)) = (\<Sum>i<n. mset (concat (map sub_values (filter (of_slot i) ms))))" using assms
  proof (induction ms)
    case (Cons m ms)
    then consider "is_request m" | j where "j < n" "of_slot j m" by auto
    then show ?case
    proof cases
      case 1
      then show ?thesis using Cons by (auto simp: is_request_def)
    next
      case 2
      then show ?thesis using Cons one [OF 2, of "\<lambda>ms. mset (concat (map sub_values ms))" ms] by simp
    qed
  qed simp
qed

lemma protocol_tail:
  assumes "filter P ms1 @ filter P ms2 = map (mergeSubValue i) vs @ [mergeSubDone i]" "sub_dones (filter P ms1) = 1"
  shows "filter P ms2 = []"
proof (cases "filter P ms2" rule: rev_cases)
  case (snoc xs x)
  then have "filter P ms1 @ xs = map (mergeSubValue i) vs" using assms(1) by simp
  then have "sub_dones (filter P ms1) + sub_dones xs = sub_dones (map (mergeSubValue i) vs)" by (metis sub_dones_simps(3))
  moreover have "sub_dones (map (mergeSubValue i) vs) = 0" by (induction vs) auto
  ultimately show ?thesis using assms(2) by simp
qed

lemma protocol_dones:
  assumes "sub_protocol vss ms"
  shows "sub_dones ms = length vss" "mset (concat (map sub_values ms)) = mset (concat vss)"
    "ms = ms1 @ ms2 \<Longrightarrow> length vss \<le> sub_dones ms1 \<Longrightarrow> concat (map sub_values ms2) = []"
proof -
  have p: "\<And>i. i < length vss \<Longrightarrow> filter (of_slot i) ms = map (mergeSubValue (int i)) (vss ! i) @ [mergeSubDone (int i)]"
    and q: "list_all (\<lambda>m. is_request m \<or> (\<exists>i < length vss. of_slot i m)) ms"
    using assms by (auto simp: sub_protocol_def)
  have [simp]: "sub_dones (map (mergeSubValue i) vs) = 0" "concat (map (sub_values \<circ> mergeSubValue i) vs) = vs" for i and vs :: "'a any list"
    by (induction vs) auto
  show "sub_dones ms = length vss" using slot_sum(1) [OF q] p by simp
  have "mset (concat (map sub_values ms)) = (\<Sum>i<length vss. mset (vss ! i))" using slot_sum(2) [OF q] p by simp
  also have "\<dots> = sum_list (map mset vss)" by (simp add: sum_list_sum_nth atLeast0LessThan)
  finally show "mset (concat (map sub_values ms)) = mset (concat vss)" by (simp add: mset_concat)
  assume m: "ms = ms1 @ ms2" "length vss \<le> sub_dones ms1"
  have "sub_dones (filter (of_slot i) ms1) + sub_dones (filter (of_slot i) ms2) = 1" if "i < length vss" for i
  proof -
    have "sub_dones (filter (of_slot i) ms) = 1" using p [OF that] by simp
    then show ?thesis using m(1) by simp
  qed
  then have le: "sub_dones (filter (of_slot i) ms1) \<le> 1" if "i < length vss" for i using that by fastforce
  have q': "list_all (\<lambda>m. is_request m \<or> (\<exists>i < length vss. of_slot i m)) ms1"
    "list_all (\<lambda>m. is_request m \<or> (\<exists>i < length vss. of_slot i m)) ms2" using q m(1) by auto
  have "sub_dones (filter (of_slot i) ms1) = 1" if "i < length vss" for i
  proof (rule ccontr)
    assume "sub_dones (filter (of_slot i) ms1) \<noteq> 1"
    then have "sub_dones (filter (of_slot i) ms1) < 1" using le [OF that] by simp
    then have "(\<Sum>i<length vss. sub_dones (filter (of_slot i) ms1)) < (\<Sum>i<length vss. 1)"
      using le that by (intro sum_strict_mono_ex1) auto
    then show False using slot_sum(1) [OF q'(1)] m(2) by simp
  qed
  then have "filter (of_slot i) ms2 = []" if "i < length vss" for i
    using protocol_tail p [OF that] m(1) that by fastforce
  then have "mset (concat (map sub_values ms2)) = {#}" using slot_sum(2) [OF q'(2)] by simp
  then show "concat (map sub_values ms2) = []" by simp
qed

interpretation merge_close: closing_stage merge_recv mg_ok mg_good mg_demand mg_seqNo "\<lambda>s. sq_list (mg_buf s)" sub_values
  "\<lambda>s. int (mg_subs s) \<le> mg_doneCount s" "\<lambda>s ms. int (mg_subs s) \<le> mg_doneCount s + int (sub_dones ms)"
proof unfold_locales
  fix s s' :: "'v mergeSource" and m ms es
  assume a: "mg_ok s" "mg_good s m" "\<not> is_cancel m" "\<not> is_wire m" "merge_recv s m = (s', es)"
  have "mg_subs s' = mg_subs s \<and> mg_doneCount s' = mg_doneCount s + (if is_sub_done m then 1 else 0) \<and>
     (Stop \<in> set es \<longleftrightarrow> completes es) \<and> (completes es \<longrightarrow> int (mg_subs s') \<le> mg_doneCount s') \<and>
     (\<not> completes es \<longrightarrow> \<not> (int (mg_subs s) \<le> mg_doneCount s \<and> sq_list (mg_buf s) = []) \<longrightarrow>
        \<not> (int (mg_subs s') \<le> mg_doneCount s' \<and> sq_list (mg_buf s') = []))"
  proof (cases m rule: junction_cases)
    case other
    then show ?thesis using a by auto
  qed (use a in \<open>auto simp: merge_recv_def mg_ok_def mg_good_def dest!: mg_tryFlushD\<close>)
  then show "(int (mg_subs s) \<le> mg_doneCount s + int (sub_dones (m # ms))) = (int (mg_subs s') \<le> mg_doneCount s' + int (sub_dones ms))"
    "(Stop \<in> set es \<longleftrightarrow> completes es) \<and> (completes es \<longrightarrow> int (mg_subs s') \<le> mg_doneCount s') \<and>
     (\<not> completes es \<longrightarrow> \<not> (int (mg_subs s) \<le> mg_doneCount s \<and> sq_list (mg_buf s) = []) \<longrightarrow>
        \<not> (int (mg_subs s') \<le> mg_doneCount s' \<and> sq_list (mg_buf s') = []))" by auto
qed simp

interpretation concat_close: closing_stage concat_recv cc_ok cc_good cc_demand cc_seqNo "\<lambda>s. sq_list (cc_buf s)" sub_values
  cc_done "\<lambda>s ms. cc_done s \<or> int (cc_subs s) \<le> cc_current s + int (sub_dones ms)"
proof unfold_locales
  fix s s' :: "'v concatSource" and m ms es
  assume a: "cc_ok s" "cc_good s m" "\<not> is_cancel m" "\<not> is_wire m" "concat_recv s m = (s', es)"
  have "cc_subs s' = cc_subs s \<and>
     (cc_done s \<or> int (cc_subs s) \<le> cc_current s + int (sub_dones (m # ms))) =
       (cc_done s' \<or> int (cc_subs s') \<le> cc_current s' + int (sub_dones ms)) \<and>
     (Stop \<in> set es \<longleftrightarrow> completes es) \<and> (completes es \<longrightarrow> cc_done s') \<and>
     (\<not> completes es \<longrightarrow> \<not> (cc_done s \<and> sq_list (cc_buf s) = []) \<longrightarrow> \<not> (cc_done s' \<and> sq_list (cc_buf s') = []))"
  proof (cases m rule: junction_cases)
    case (fin i)
    then show ?thesis using a by (cases "cc_current s + 1 < int (cc_subs s)")
        (auto simp: concat_recv_def cc_ok_def spawnNext_def Let_def dest!: cc_tryFlushD)
  next
    case other
    then show ?thesis using a by auto
  qed (use a in \<open>auto simp: concat_recv_def cc_ok_def cc_good_def squeue_simps dest!: cc_tryFlushD\<close>)
  then show "(cc_done s \<or> int (cc_subs s) \<le> cc_current s + int (sub_dones (m # ms))) =
       (cc_done s' \<or> int (cc_subs s') \<le> cc_current s' + int (sub_dones ms))"
    "(Stop \<in> set es \<longleftrightarrow> completes es) \<and> (completes es \<longrightarrow> cc_done s') \<and>
     (\<not> completes es \<longrightarrow> \<not> (cc_done s \<and> sq_list (cc_buf s) = []) \<longrightarrow> \<not> (cc_done s' \<and> sq_list (cc_buf s') = []))" by auto
qed (auto simp: cc_ok_def)

lemma protocol_plain:
  assumes "sub_protocol vss ms"
  shows "list_all (\<lambda>m. 0 \<le> requested m \<and> \<not> is_cancel m \<and> \<not> is_wire m) ms"
proof -
  have "0 \<le> requested m \<and> \<not> is_cancel m \<and> \<not> is_wire m" if "is_request m \<or> of_slot i m" for m :: "'a smsg" and i
    using that by (cases m) (auto simp: is_request_def)
  then show ?thesis using assms by (fastforce simp: sub_protocol_def list_all_iff)
qed

lemma merge_goods:
  assumes "mg_ok s" "mg_subs s \<noteq> 0" "list_all (\<lambda>m. 0 \<le> requested m) ms"
  shows "stage_goods merge_recv mg_good s ms"
  using assms
proof (induction ms arbitrary: s)
  case (Cons m ms)
  obtain s1 es1 where r: "merge_recv s m = (s1, es1)" by force
  have g: "mg_good s m" using Cons.prems by (simp add: mg_good_def)
  have "mg_subs s1 = mg_subs s"
  proof (cases m rule: junction_cases)
    case other
    then show ?thesis using r by simp
  qed (use r in \<open>auto simp: merge_recv_def mg_tryFlush_def Let_def split: prod.splits if_splits\<close>)
  then show ?case using Cons merge_step [OF Cons.prems(1) g r] g r by auto
qed simp

text \<open>
  C40. \<^verbatim>\<open>Merge\<close> hands on every element of every source. However the sources and the requests interleave, the
  elements come out in the order of their arrival, up to the demand, so the order of each source is
  kept; the merged stream completes exactly when all elements of all sources have been requested, and
  then none is missing and none is doubled.
\<close>

theorem merge_delivers:
  assumes "sub_protocol vss ms" "vss \<noteq> []"
    "stage_run merge_recv (newMergeSource (length vss)) (stageWire sub up down # ms) = (s, es)"
  shows "map fst (emitted es) = take (nat (sum_list (map requested ms))) (concat (map sub_values ms)) \<and>
     (completes es \<longleftrightarrow> int (length (concat vss)) \<le> sum_list (map requested ms)) \<and>
     (completes es \<longrightarrow> mset (map fst (emitted es)) = mset (concat vss))"
proof -
  define s0 where "s0 = (newMergeSource (length vss) :: 'a mergeSource)\<lparr>mg_downstream := down, mg_subID := sub\<rparr>"
  have s0: "mg_ok s0" "mg_demand s0 = 0" "sq_list (mg_buf s0) = []" "mg_subs s0 = length vss" "mg_doneCount s0 = 0"
    by (simp_all add: s0_def newMergeSource_def mg_ok_def)
  obtain fs where r: "stage_run merge_recv s0 ms = (s, fs)" "es = spawn_all (length vss) @ fs"
    using assms(2,3) by (auto simp: s0_def merge_recv_def newMergeSource_def Let_def split: prod.splits)
  note p = protocol_dones [OF assms(1)] and all = protocol_plain [OF assms(1)]
  have "stage_goods merge_recv mg_good s0 ms"
  proof (rule merge_goods [OF s0(1)])
    show "mg_subs s0 \<noteq> 0" using assms(2) s0(4) by simp
  qed (use all in \<open>auto simp: list_all_iff\<close>)
  moreover have "concat (map sub_values ms2) = []" if "ms = ms1 @ ms2" "int (mg_subs s0) \<le> mg_doneCount s0 + int (sub_dones ms1)" for ms1 ms2
    using p(3) [OF that(1)] that(2) s0 by simp
  ultimately have "map fst (emitted fs) = take (nat (sum_list (map requested ms))) (concat (map sub_values ms)) \<and>
     (completes fs \<longleftrightarrow> int (length (concat (map sub_values ms))) \<le> sum_list (map requested ms))"
    using merge_close.run_closing [OF s0(1) _ all r(1)] s0 p(1) assms(2) by simp
  moreover have "length (concat (map sub_values ms)) = length (concat vss)" using p(2) by (metis size_mset)
  ultimately show ?thesis using r(2) p(2) by auto
qed

theorem merge_delivers_witness:
  "map fst (emitted (snd (stage_run merge_recv (newMergeSource (length [[Some 1, Some 2], [Some (3::nat)]])) (stageWire ''s'' None (Some 1) #
      [mergeSubValue 0 (Some 1), streamRequest ''s'' 5, mergeSubValue 1 (Some (3::nat)), mergeSubDone 1, mergeSubValue 0 (Some 2), mergeSubDone 0])))) =
    [Some 1, Some 3, Some 2]"
proof -
  have p: "sub_protocol [[Some 1, Some 2], [Some (3::nat)]]
     [mergeSubValue 0 (Some 1), streamRequest ''s'' 5, mergeSubValue 1 (Some 3), mergeSubDone 1, mergeSubValue 0 (Some 2), mergeSubDone 0]"
    by (auto simp: sub_protocol_def is_request_def less_Suc_eq)
  show ?thesis using merge_delivers [OF p _ prod.collapse [symmetric], of "''s''" None "Some 1"] by (simp del: stage_run.simps)
qed

text \<open>The sources of \<^verbatim>\<open>Concat\<close> run one after the other.\<close>

fun concat_trace :: "nat \<Rightarrow> 'v any list list \<Rightarrow> 'v smsg list" where
  "concat_trace i [] = []"
| "concat_trace i (vs # vss) = map (mergeSubValue (int i)) vs @ mergeSubDone (int i) # concat_trace (i + 1) vss"

lemma concat_trace_slot:
  "filter (of_slot k) (concat_trace i vss) =
     (if i \<le> k \<and> k < i + length vss then map (mergeSubValue (int k)) (vss ! (k - i)) @ [mergeSubDone (int k)] else [])"
proof (induction vss arbitrary: i)
  case (Cons vs vss)
  have "filter (of_slot k) (map (mergeSubValue (int i)) vs) = (if k = i then map (mergeSubValue (int i)) vs else [])"
    by (induction vs) auto
  then show ?case using Cons [of "i + 1"] by (auto simp: nth_Cons diff_Suc split: nat.splits)
qed simp

lemma concat_trace_values: "concat (map sub_values (concat_trace i vss)) = concat vss"
proof (induction vss arbitrary: i)
  case (Cons vs vss)
  have "concat (map sub_values (map (mergeSubValue (int i)) vs)) = vs" by (induction vs) auto
  then show ?case using Cons [of "i + 1"] by simp
qed simp

lemma concat_trace_set: "m \<in> set (concat_trace i vss) \<Longrightarrow> \<exists>k. i \<le> k \<and> k < i + length vss \<and> of_slot k m"
proof (induction vss arbitrary: i)
  case (Cons vs vss)
  then consider "of_slot i m" | "m \<in> set (concat_trace (i + 1) vss)" by auto
  then show ?case
  proof cases
    case 2
    then obtain k where "i + 1 \<le> k" "k < i + 1 + length vss" "of_slot k m" using Cons.IH by blast
    then show ?thesis by (intro exI [of _ k]) simp
  qed (auto intro: exI [of _ i])
qed simp

lemma concat_trace_protocol:
  assumes "ms \<in> shuffles (map (streamRequest r) ns) (concat_trace 0 vss)" "list_all (\<lambda>n. 0 \<le> n) ns"
  shows "sub_protocol vss ms"
proof -
  have "filter (of_slot k) ms = map (mergeSubValue (int k)) (vss ! k) @ [mergeSubDone (int k)]" if "k < length vss" for k
  proof -
    have "filter (of_slot k) ms \<in> shuffles (filter (of_slot k) (map (streamRequest r) ns)) (filter (of_slot k) (concat_trace 0 vss))"
      using assms(1) filter_shuffles [of "of_slot k"] by (metis imageI)
    moreover have "filter (of_slot k) (map (streamRequest r) ns :: 'a smsg list) = []" by (auto simp: filter_empty_conv)
    ultimately show ?thesis using that concat_trace_slot [of k 0 vss] by simp
  qed
  moreover have "is_request m \<or> (\<exists>i < length vss. of_slot i m)" if "m \<in> set ms" for m
    using that set_shuffles [OF assms(1)] assms(2) concat_trace_set [of m 0 vss] by (auto simp: is_request_def list_all_iff)
  ultimately show ?thesis by (simp add: sub_protocol_def list_all_iff)
qed

lemma concat_goods:
  assumes "cc_ok s" "cc_subs s \<noteq> 0" "list_all (\<lambda>m. 0 \<le> requested m \<and> \<not> is_wire m) ms"
  shows "stage_goods concat_recv cc_good s ms"
  using assms
proof (induction ms arbitrary: s)
  case (Cons m ms)
  obtain s1 es1 where r: "concat_recv s m = (s1, es1)" by force
  have g: "cc_good s m" using Cons.prems by (simp add: cc_good_def)
  have "cc_subs s1 = cc_subs s"
  proof (cases m rule: junction_cases)
    case other
    then show ?thesis using r by simp
  qed (use r in \<open>auto simp: concat_recv_def cc_tryFlush_def spawnNext_def Let_def split: prod.splits if_splits\<close>)
  then show ?case using Cons concat_step [OF Cons.prems(1) g r] g r by auto
qed simp

text \<open>
  C41. \<^verbatim>\<open>Concat\<close> hands on the elements of its sources one source after the other, in order and up to the
  demand, and completes exactly when all of them have been requested.
\<close>

theorem concat_delivers:
  assumes "ms \<in> shuffles (map (streamRequest r) ns) (concat_trace 0 vss)" "list_all (\<lambda>n. 0 \<le> n) ns" "vss \<noteq> []"
    "stage_run concat_recv (newConcatSource (length vss)) (stageWire sub up down # ms) = (s, es)"
  shows "map fst (emitted es) = take (nat (sum_list ns)) (concat vss) \<and>
     (completes es \<longleftrightarrow> int (length (concat vss)) \<le> sum_list ns)"
proof -
  define s0 where "s0 = (newConcatSource (length vss) :: 'a concatSource)\<lparr>cc_downstream := down, cc_subID := sub, cc_current := 0\<rparr>"
  have s0: "cc_ok s0" "cc_demand s0 = 0" "sq_list (cc_buf s0) = []" "cc_subs s0 = length vss" "cc_current s0 = 0" "\<not> cc_done s0"
    using assms(3) by (simp_all add: s0_def newConcatSource_def cc_ok_def)
  obtain fs where r: "stage_run concat_recv s0 ms = (s, fs)" "es = SpawnSub 0 # fs"
    using assms(3,4) by (auto simp: s0_def concat_recv_def newConcatSource_def Let_def spawnNext_def split: prod.splits)
  have prot: "sub_protocol vss ms" using concat_trace_protocol [OF assms(1,2)] .
  note p = protocol_dones [OF prot] and all = protocol_plain [OF prot]
  have "stage_goods concat_recv cc_good s0 ms"
    by (rule concat_goods [OF s0(1)]) (use all s0(4) assms(3) in \<open>auto simp: list_all_iff\<close>)
  moreover have "concat (map sub_values ms2) = []"
    if "ms = ms1 @ ms2" "cc_done s0 \<or> int (cc_subs s0) \<le> cc_current s0 + int (sub_dones ms1)" for ms1 ms2
    using p(3) [OF that(1)] that(2) s0 by simp
  ultimately have "map fst (emitted fs) = take (nat (sum_list (map requested ms))) (concat (map sub_values ms)) \<and>
     (completes fs \<longleftrightarrow> int (length (concat (map sub_values ms))) \<le> sum_list (map requested ms))"
    using concat_close.run_closing [OF s0(1) _ all r(1)] s0 p(1) by simp
  moreover have "concat (map sub_values ms) = concat vss"
    using shuffles_concat [OF assms(1), of sub_values] concat_trace_values by (simp add: list_all_iff)
  moreover have "sum_list (map requested (concat_trace i vss)) = 0" for i
  proof (induction vss arbitrary: i)
    case (Cons vs vss)
    have "sum_list (map requested (map (mergeSubValue (int i)) vs :: 'a smsg list)) = 0" by (induction vs) auto
    then show ?case using Cons by simp
  qed simp
  then have "sum_list (map requested ms) = sum_list ns" using shuffles_sum [OF assms(1), of requested] by (simp add: comp_def)
  ultimately show ?thesis using r(2) by simp
qed

theorem concat_delivers_witness:
  "map fst (emitted (snd (stage_run concat_recv (newConcatSource (length [[Some 1], [Some (2::nat), Some 3]])) (stageWire ''s'' None (Some 1) #
      [streamRequest ''s'' 2, mergeSubValue 0 (Some 1), mergeSubDone 0, mergeSubValue 1 (Some (2::nat)), mergeSubValue 1 (Some 3), mergeSubDone 1])))) =
    [Some 1, Some 2]"
proof -
  have p: "[streamRequest ''s'' 2, mergeSubValue 0 (Some 1), mergeSubDone 0, mergeSubValue 1 (Some (2::nat)), mergeSubValue 1 (Some 3), mergeSubDone 1]
    \<in> shuffles (map (streamRequest ''s'') [2]) (concat_trace 0 [[Some 1], [Some 2, Some 3]])" by simp
  show ?thesis using concat_delivers [OF p _ _ prod.collapse [symmetric], of "''s''" None "Some 1"] by (simp del: stage_run.simps)
qed

end
