(* ===== verification/Spec2Isabelle.thy ===== *)
theory Spec2Isabelle
  imports Crdt_Codec Breaker Supervision Fair_Mailbox Event_Stream Stream_Merge
begin

text \<open>
  \<^bold>\<open>A verification of GoAkt.\<close>

  GoAkt is an actor framework in Go. Actors live in a tree, process the messages of their mailbox one
  at a time, and are supervised by their parent; replicated data types are kept in sync between nodes;
  a circuit breaker guards calls; an event stream distributes what happens in the system. This library
  models these parts as HOL functions and proves how they behave. All file names are below \<^verbatim>\<open>src/\<close>.

  \<^bold>\<open>Conventions.\<close> A Go map is an association list with distinct keys (\<open>gomap\<close> in \<open>Go_Prelude\<close>), since
  the code iterates over maps and their order is unspecified; a map that may be nil is an option. A
  struct is a record, an enumeration a datatype, an unsigned counter a 64-bit or 32-bit word, a signed
  length or a time an integer. Objects shared by pointer live in a store that is part of the state.
  Errors are values of a sum or option type; a call that panics or never returns is \<^const>\<open>None\<close> or a
  constructor of its own. Loops with no bound are \<open>partial_function\<close>s with that meaning, and lemmas
  show when they return. The only fuel is in \<open>Supervision\<close>: the recursion of \<^verbatim>\<open>Shutdown\<close> through the
  children takes the depth of the tree as fuel, because the tree can become cyclic; the theorems hold
  for every fuel that is enough for an actor without children, one level. Goroutines that interleave are
  step relations or explicit sequences of atomic actions.

  \<^bold>\<open>Replicated data\<close> (\<^verbatim>\<open>crdt/\<close>, \<^verbatim>\<open>internal/ddata/crdt_codec.go\<close>). \<open>Crdt_Spec\<close> states what a replicated type
  promises as the locale \<open>replicated_data\<close>: a join on abstract states, from which convergence of replicas
  under any order and repetition of merges follows once and for all. \<open>Counters\<close>, \<open>Registers\<close>, \<open>Or_Set\<close> and
  \<open>Or_Map\<close> model the types with all their operations, deltas included, and interpret the locale;
  \<open>Crdt_Codec\<close> models encoding and decoding and proves the round trip.

  \<^bold>\<open>Circuit breaker\<close> (\<^verbatim>\<open>breaker/\<close>). \<open>Breaker_Window\<close> models the ring of buckets and proves that it refines a
  log of calls; \<open>Breaker\<close> models options, the state machine and \<^verbatim>\<open>Execute\<close>, with float64 division and
  comparison defined by rounding, and the clock as a sequence of readings. The invariant holds in every
  interleaving of calls.

  \<^bold>\<open>Tree of actors\<close> (\<^verbatim>\<open>actor/pid_tree.go\<close>). \<open>Pid_Tree\<close> models the tree with its indexes and watch lists over
  a store of nodes and proves the invariant of every sequence of operations.

  \<^bold>\<open>Mailboxes and queues\<close> (\<^verbatim>\<open>actor/unbounded_mailbox.go\<close>, \<^verbatim>\<open>actor/grain_mailbox.go\<close>,
  \<^verbatim>\<open>actor/unbounded_fair_mailbox.go\<close>, \<^verbatim>\<open>internal/queue/queue.go\<close>). \<open>Mailbox_Spec\<close> states the contract of a
  FIFO mailbox as the locale \<open>fifo_mailbox\<close>. \<open>Mpsc_Mailbox\<close> proves FIFO delivery for the two linked mailboxes
  in every interleaving of producers and consumer; \<open>Fair_Mailbox\<close> proves that the fair mailbox refines a
  rotation of senders, and shows how it can starve one; \<open>Lockfree_Queue\<close> proves the queue correct for
  one thread at a time and shows how concurrent producers lose elements. All four interpret the locale.

  \<^bold>\<open>Event stream\<close> (\<^verbatim>\<open>eventstream/\<close>). \<open>Event_Stream\<close> builds on the queue and proves that the broker refines an
  inbox per subscriber.

  \<^bold>\<open>Supervision\<close> (\<^verbatim>\<open>supervisor/supervisor.go\<close>, \<^verbatim>\<open>actor/pid_state.go\<close>, parts of \<^verbatim>\<open>actor/pid.go\<close>). \<open>Supervisor\<close>
  models directives and options, \<open>Pid_State\<close> the flag word, and \<open>Supervision\<close> stopping, restarting,
  suspending and the reaction to failures, on top of \<open>Pid_Tree\<close>; it proves the decision table of a failure
  and the recovery of a restarted actor, and two ways in which restarts go wrong.

  \<^bold>\<open>Not modelled.\<close> Remoting, clustering, discovery, data centers and generated protobuf code are network
  input and output or calls into packages outside the sources. The actor system, grains, the
  replicator, streams, routers, the scheduler and passivation are not modelled yet.
\<close>

end
